(* ===== verification/Prelude.thy ===== *)
theory Prelude
  imports "HOL-Library.Word" "HOL-Library.Monad_Syntax"
begin

text \<open>
  Shared vocabulary of the development: the fixed-width integer types of
  \<^verbatim>\<open>kernel/include/types.h\<close>, the byte-addressed memory of the i686 machine with its
  little-endian accesses, C strings in that memory, and the generic facts on words,
  lists and memory that the component theories rely on.
\<close>

unbundle bit_operations_syntax

section \<open>Integer types and memory\<close>

type_synonym u8 = "8 word"
type_synonym u16 = "16 word"
type_synonym u32 = "32 word"
type_synonym u64 = "64 word"

type_synonym mem = "u32 \<Rightarrow> u8"

text \<open>\<^verbatim>\<open>PAGE_SIZE\<close>, \<^verbatim>\<open>KERNEL_CS\<close> and \<^verbatim>\<open>KERNEL_DS\<close> of types.h.\<close>

abbreviation (input) PAGE_SIZE :: u32 where
  "PAGE_SIZE \<equiv> 4096"

abbreviation (input) KERNEL_CS :: u32 where
  "KERNEL_CS \<equiv> 0x08"

abbreviation (input) KERNEL_DS :: u32 where
  "KERNEL_DS \<equiv> 0x10"

text \<open>Little-endian 32-bit accesses, as the i686 performs them for a \<^verbatim>\<open>uint32_t *\<close>.\<close>

definition load32 :: "mem \<Rightarrow> u32 \<Rightarrow> u32" where
  "load32 m a = ucast (m a) OR push_bit 8 (ucast (m (a + 1)))
     OR push_bit 16 (ucast (m (a + 2))) OR push_bit 24 (ucast (m (a + 3)))"

definition store32 :: "mem \<Rightarrow> u32 \<Rightarrow> u32 \<Rightarrow> mem" where
  "store32 m a v = m(a := ucast v, a + 1 := ucast (drop_bit 8 v),
     a + 2 := ucast (drop_bit 16 v), a + 3 := ucast (drop_bit 24 v))"

definition load64 :: "mem \<Rightarrow> u32 \<Rightarrow> u64" where
  "load64 m a = ucast (load32 m a) OR push_bit 32 (ucast (load32 m (a + 4)))"

text \<open>The bytes of \<open>n\<close> consecutive addresses, and the C string at an address.\<close>

definition bytes_at :: "mem \<Rightarrow> u32 \<Rightarrow> nat \<Rightarrow> u8 list" where
  "bytes_at m a n = map (\<lambda>i. m (a + of_nat i)) [0..<n]"

fun cstr_at :: "mem \<Rightarrow> u32 \<Rightarrow> u8 list \<Rightarrow> bool" where
  "cstr_at m p [] = (m p = 0)"
| "cstr_at m p (c # cs) = (c \<noteq> 0 \<and> m p = c \<and> cstr_at m (p + 1) cs)"

text \<open>A string literal of the source as the bytes the compiler emits for it.\<close>

definition lit :: "string \<Rightarrow> u8 list" where
  "lit s = map of_char s"

named_theorems word_nat \<open>word arithmetic read as arithmetic on natural numbers\<close>
named_theorems mem_simps \<open>reads after writes\<close>

section \<open>Words\<close>

lemma unat_of_nat32 [word_nat]: "n < 2 ^ 32 \<Longrightarrow> unat (of_nat n :: u32) = n"
  by (simp add: unat_of_nat)

lemma unat_add32 [word_nat]: "unat a + unat b < 2 ^ 32 \<Longrightarrow> unat (a + b :: u32) = unat a + unat b"
  by (simp add: unat_word_ariths)

lemma unat_sub32 [word_nat]: "b \<le> a \<Longrightarrow> unat (a - b :: u32) = unat a - unat b"
  by (rule unat_sub)

lemma unat_lt32 [simp]: "unat (a :: u32) < 4294967296"
  using unsigned_less [of a] by simp

lemma of_nat32_inj:
  "a < 2 ^ 32 \<Longrightarrow> b < 2 ^ 32 \<Longrightarrow> ((of_nat a :: u32) = of_nat b) = (a = b)"
  by (metis unat_of_nat32)

lemma word_less_nat32 [word_nat]: "((a :: u32) < b) = (unat a < unat b)"
  by (rule word_less_nat_alt)

lemma word_le_nat32 [word_nat]: "((a :: u32) \<le> b) = (unat a \<le> unat b)"
  by (rule word_le_nat_alt)

lemma add_left_eq_self [simp]: "((a :: u32) + b = a) = (b = 0)"
  by simp

text \<open>The mask constants of the source, for proofs bit by bit.\<close>

lemma mask_nums:
  "(0xF :: u8) = mask 4" "(0xF0 :: u8) = NOT (mask 4)" "(0xFF :: u32) = mask 8"
  "(0xF :: u32) = mask 4" "(0xFFF :: u32) = mask 12" "(0x3FF :: u32) = mask 10"
  "(0xFFFF :: u32) = mask 16" "(0xFFFFF :: u32) = mask 20" "(0xFFFFF000 :: u32) = NOT (mask 12)"
  by (simp_all add: mask_eq_exp_minus_1)

section \<open>Memory\<close>

lemma load32_cong:
  assumes "m' a = m a" "m' (a + 1) = m (a + 1)" "m' (a + 2) = m (a + 2)" "m' (a + 3) = m (a + 3)"
  shows "load32 m' a = load32 m a"
  using assms by (simp add: load32_def)

lemma load32_store32_same [simp, mem_simps]: "load32 (store32 m a v) a = v"
proof (rule bit_word_eqI)
  fix n assume "n < LENGTH(32)"
  then consider "n < 8" | "8 \<le> n" "n < 16" | "16 \<le> n" "n < 24" | "24 \<le> n" "n < 32" by fastforce
  then show "bit (load32 (store32 m a v) a) n = bit v n"
    by cases (simp_all add: load32_def store32_def bit_simps less_diff_conv2)
qed

lemma store32_other:
  assumes "\<not> x - a < 4" shows "store32 m a v x = m x"
proof -
  have "x \<noteq> a" "x \<noteq> a + 1" "x \<noteq> a + 2" "x \<noteq> a + 3"
    using assms by auto
  then show ?thesis by (simp add: store32_def)
qed

lemma store32_other_nat:
  assumes "unat x < unat a \<or> unat a + 4 \<le> unat x" "unat a + 4 \<le> 2 ^ 32"
  shows "store32 m a v x = m x"
proof (rule store32_other)
  show "\<not> x - a < 4"
  proof (cases "unat a \<le> unat x")
    case True
    then show ?thesis using assms by (simp add: word_less_nat_alt unat_sub word_le_nat_alt)
  next
    case False
    then have "unat (x - a) = 2 ^ 32 + unat x - unat a"
      by (simp add: unat_sub_if')
    then show ?thesis using assms by (simp add: word_less_nat_alt)
  qed
qed

text \<open>Reads and writes at natural-number addresses below \<open>2 ^ 32\<close>.\<close>

abbreviation rd32 :: "mem \<Rightarrow> nat \<Rightarrow> u32" where
  "rd32 m n \<equiv> load32 m (of_nat n)"

abbreviation wr32 :: "mem \<Rightarrow> nat \<Rightarrow> u32 \<Rightarrow> mem" where
  "wr32 m n v \<equiv> store32 m (of_nat n) v"

lemma of_nat32_add_small:
  "n + 4 \<le> 2 ^ 32 \<Longrightarrow> unat (of_nat n + 1 :: u32) = n + 1"
  "n + 4 \<le> 2 ^ 32 \<Longrightarrow> unat (of_nat n + 2 :: u32) = n + 2"
  "n + 4 \<le> 2 ^ 32 \<Longrightarrow> unat (of_nat n + 3 :: u32) = n + 3"
  using unat_of_nat32 [of "n + 1"] unat_of_nat32 [of "n + 2"] unat_of_nat32 [of "n + 3"]
  by (simp_all add: add.commute)

lemma rd32_agree:
  assumes "k + 4 \<le> 2 ^ 32" and "\<And>j. k \<le> j \<Longrightarrow> j < k + 4 \<Longrightarrow> m' (of_nat j) = m (of_nat j)"
  shows "rd32 m' k = rd32 m k"
proof (rule load32_cong)
  show "m' (of_nat k) = m (of_nat k)" using assms(2) [of k] by simp
  show "m' (of_nat k + 1) = m (of_nat k + 1)" using assms(2) [of "k + 1"] by (simp add: add.commute)
  show "m' (of_nat k + 2) = m (of_nat k + 2)" using assms(2) [of "k + 2"] by (simp add: add.commute)
  show "m' (of_nat k + 3) = m (of_nat k + 3)" using assms(2) [of "k + 3"] by (simp add: add.commute)
qed

lemma wr32_byte_other [mem_simps]:
  "n + 4 \<le> 2 ^ 32 \<Longrightarrow> k < 2 ^ 32 \<Longrightarrow> k < n \<or> n + 4 \<le> k \<Longrightarrow> wr32 m n v (of_nat k) = m (of_nat k)"
  by (rule store32_other_nat) (simp_all add: unat_of_nat32)

lemma rd32_wr32_other [mem_simps]:
  "n + 4 \<le> 2 ^ 32 \<Longrightarrow> k + 4 \<le> 2 ^ 32 \<Longrightarrow> k + 4 \<le> n \<or> n + 4 \<le> k \<Longrightarrow>
   rd32 (wr32 m n v) k = rd32 m k"
  by (rule rd32_agree) (auto simp: wr32_byte_other)

lemma length_bytes_at [simp]: "length (bytes_at m a n) = n"
  by (simp add: bytes_at_def)

lemma nth_bytes_at [simp]: "i < n \<Longrightarrow> bytes_at m a n ! i = m (a + of_nat i)"
  by (simp add: bytes_at_def)

lemma bytes_at_Suc: "bytes_at m a (Suc n) = m a # bytes_at m (a + 1) n"
  by (simp add: bytes_at_def map_upt_Suc algebra_simps del: upt_Suc)

section \<open>C strings\<close>

lemma cstr_at_unique: "cstr_at m p s \<Longrightarrow> cstr_at m p t \<Longrightarrow> s = t"
proof (induction s arbitrary: p t)
  case Nil
  then show ?case by (cases t) auto
next
  case (Cons c s)
  then show ?case by (cases t) auto
qed

lemma cstr_at_nonzero: "cstr_at m p s \<Longrightarrow> 0 \<notin> set s"
  by (induction s arbitrary: p) auto

lemma cstr_at_nth: "cstr_at m p s \<Longrightarrow> i < length s \<Longrightarrow> m (p + of_nat i) = s ! i"
proof (induction s arbitrary: p i)
  case Nil
  then show ?case by simp
next
  case (Cons c s)
  then show ?case
    by (cases i) (auto simp: add.assoc [symmetric])
qed

lemma cstr_at_end: "cstr_at m p s \<Longrightarrow> m (p + of_nat (length s)) = 0"
  by (induction s arbitrary: p) (auto simp: add.assoc [symmetric])

end
