(* ===== verification/CString.thy ===== *)
theory CString
  imports Prelude
begin

text \<open>
  The freestanding string library, \<^verbatim>\<open>kernel/lib/string.c\<close>, over the byte memory.
  The functions that write return the new memory (the C functions also return their
  first argument, which no caller uses); a loop that needs a terminating NUL to stop is
  a partial function whose value is \<^const>\<open>None\<close> when there is none.
  Character differences are C \<^verbatim>\<open>int\<close>s and are never out of range, so they are
  plain integers.
\<close>

section \<open>Definitions\<close>

fun memset_loop :: "nat \<Rightarrow> u32 \<Rightarrow> u8 \<Rightarrow> mem \<Rightarrow> mem" where
  "memset_loop 0 d v m = m"
| "memset_loop (Suc k) d v m = memset_loop k (d + 1) v (m(d := v))"

definition memset :: "mem \<Rightarrow> u32 \<Rightarrow> u32 \<Rightarrow> u32 \<Rightarrow> mem" where
  "memset m dest val count = memset_loop (unat count) dest (ucast val) m"

fun copy_forward :: "nat \<Rightarrow> u32 \<Rightarrow> u32 \<Rightarrow> mem \<Rightarrow> mem" where
  "copy_forward 0 d s m = m"
| "copy_forward (Suc k) d s m = copy_forward k (d + 1) (s + 1) (m(d := m s))"

fun copy_backward :: "nat \<Rightarrow> u32 \<Rightarrow> u32 \<Rightarrow> mem \<Rightarrow> mem" where
  "copy_backward 0 d s m = m"
| "copy_backward (Suc k) d s m = copy_backward k (d - 1) (s - 1) (m(d - 1 := m (s - 1)))"

definition memcpy :: "mem \<Rightarrow> u32 \<Rightarrow> u32 \<Rightarrow> u32 \<Rightarrow> mem" where
  "memcpy m dest src count = copy_forward (unat count) dest src m"

definition memmove :: "mem \<Rightarrow> u32 \<Rightarrow> u32 \<Rightarrow> u32 \<Rightarrow> mem" where
  "memmove m dest src count =
     (if dest < src then copy_forward (unat count) dest src m
      else copy_backward (unat count) (dest + count) (src + count) m)"

definition byte_diff :: "u8 \<Rightarrow> u8 \<Rightarrow> int" where
  "byte_diff a b = int (unat a) - int (unat b)"

fun memcmp_loop :: "nat \<Rightarrow> mem \<Rightarrow> u32 \<Rightarrow> u32 \<Rightarrow> int" where
  "memcmp_loop 0 m a b = 0"
| "memcmp_loop (Suc k) m a b =
     (if m a \<noteq> m b then byte_diff (m a) (m b) else memcmp_loop k m (a + 1) (b + 1))"

definition memcmp :: "mem \<Rightarrow> u32 \<Rightarrow> u32 \<Rightarrow> u32 \<Rightarrow> int" where
  "memcmp m s1 s2 count = memcmp_loop (unat count) m s1 s2"

partial_function (option) strlen_loop :: "mem \<Rightarrow> u32 \<Rightarrow> u32 \<Rightarrow> u32 option" where
  "strlen_loop m str len =
     (if m (str + len) \<noteq> 0 then strlen_loop m str (len + 1) else Some len)"

definition strlen :: "mem \<Rightarrow> u32 \<Rightarrow> u32 option" where
  "strlen m str = strlen_loop m str 0"

partial_function (option) strcmp :: "mem \<Rightarrow> u32 \<Rightarrow> u32 \<Rightarrow> int option" where
  "strcmp m s1 s2 =
     (if m s1 \<noteq> 0 \<and> m s1 = m s2 then strcmp m (s1 + 1) (s2 + 1)
      else Some (byte_diff (m s1) (m s2)))"

fun strncmp_loop :: "nat \<Rightarrow> mem \<Rightarrow> u32 \<Rightarrow> u32 \<Rightarrow> int" where
  "strncmp_loop 0 m s1 s2 = 0"
| "strncmp_loop (Suc n) m s1 s2 =
     (if m s1 \<noteq> 0 \<and> m s1 = m s2 then strncmp_loop n m (s1 + 1) (s2 + 1)
      else byte_diff (m s1) (m s2))"

definition strncmp :: "mem \<Rightarrow> u32 \<Rightarrow> u32 \<Rightarrow> u32 \<Rightarrow> int" where
  "strncmp m s1 s2 n = strncmp_loop (unat n) m s1 s2"

partial_function (option) strcpy :: "mem \<Rightarrow> u32 \<Rightarrow> u32 \<Rightarrow> mem option" where
  "strcpy m d src =
     (if m src \<noteq> 0 then strcpy (m(d := m src)) (d + 1) (src + 1) else Some (m(d := m src)))"

text \<open>
  The first loop of \<^verbatim>\<open>strncpy\<close> ends either because \<open>n\<close> reached 0 or because it copied
  the NUL; in the second case \<open>n\<close> has not been decremented for that byte. Its result is
  the final \<open>d\<close>, the final \<open>n\<close> and the memory.
\<close>

fun strncpy_loop :: "nat \<Rightarrow> u32 \<Rightarrow> u32 \<Rightarrow> mem \<Rightarrow> u32 \<times> nat \<times> mem" where
  "strncpy_loop 0 d src m = (d, 0, m)"
| "strncpy_loop (Suc n) d src m =
     (if m src \<noteq> 0 then strncpy_loop n (d + 1) (src + 1) (m(d := m src))
      else (d + 1, Suc n, m(d := m src)))"

definition strncpy :: "mem \<Rightarrow> u32 \<Rightarrow> u32 \<Rightarrow> u32 \<Rightarrow> mem" where
  "strncpy m dest src n =
     (let (d, n', m') = strncpy_loop (unat n) dest src m in memset_loop n' d 0 m')"

partial_function (option) strcat_skip :: "mem \<Rightarrow> u32 \<Rightarrow> u32 option" where
  "strcat_skip m d = (if m d \<noteq> 0 then strcat_skip m (d + 1) else Some d)"

definition strcat :: "mem \<Rightarrow> u32 \<Rightarrow> u32 \<Rightarrow> mem option" where
  "strcat m dest src = do { d \<leftarrow> strcat_skip m dest; strcpy m d src }"

text \<open>\<^verbatim>\<open>strchr\<close> and \<^verbatim>\<open>strrchr\<close>: the pointer result, 0 standing for NULL.\<close>

partial_function (option) strchr :: "mem \<Rightarrow> u32 \<Rightarrow> u32 \<Rightarrow> u32 option" where
  "strchr m str c =
     (if m str \<noteq> 0 then (if m str = ucast c then Some str else strchr m (str + 1) c)
      else Some (if c = 0 then str else 0))"

partial_function (option) strrchr_loop :: "mem \<Rightarrow> u32 \<Rightarrow> u32 \<Rightarrow> u32 \<Rightarrow> u32 option" where
  "strrchr_loop m str c lst =
     (if m str \<noteq> 0 then strrchr_loop m (str + 1) c (if m str = ucast c then str else lst)
      else Some (if c = 0 then str else lst))"

definition strrchr :: "mem \<Rightarrow> u32 \<Rightarrow> u32 \<Rightarrow> u32 option" where
  "strrchr m str c = strrchr_loop m str c 0"

text \<open>
  The string operations on the strings themselves: what \<^verbatim>\<open>strcmp\<close> returns for two C
  strings, and what a zeroed buffer holds after \<^verbatim>\<open>strncpy\<close> of at most \<open>n\<close> characters.
\<close>

fun str_diff :: "u8 list \<Rightarrow> u8 list \<Rightarrow> int" where
  "str_diff [] [] = 0"
| "str_diff [] (c # cs) = byte_diff 0 c"
| "str_diff (c # cs) [] = byte_diff c 0"
| "str_diff (c # cs) (d # ds) = (if c = d then str_diff cs ds else byte_diff c d)"

section \<open>Block operations\<close>

lemma minus1_nat: "(x :: u32) \<noteq> d \<Longrightarrow> unat (x - (d + 1)) = unat (x - d) - 1"
proof -
  assume "x \<noteq> d"
  then have "1 \<le> x - d" by (simp add: word_le_nat_alt unat_gt_0 Suc_le_eq)
  then show ?thesis by (simp add: diff_diff_eq [symmetric] unat_sub)
qed

lemma word_diff_pos: "(x :: u32) \<noteq> d \<Longrightarrow> 0 < unat (x - d)"
  by (simp add: unat_gt_0)

lemma unat_le32: "unat (a :: u32) \<le> 2 ^ 32"
  by (simp add: less_imp_le)

lemma memset_loop_apply:
  "k \<le> 2 ^ 32 \<Longrightarrow> memset_loop k d v m x = (if unat (x - d) < k then v else m x)"
proof (induction k arbitrary: d m)
  case 0
  then show ?case by simp
next
  case (Suc k)
  show ?case
  proof (cases "x = d")
    case True
    then show ?thesis using Suc by simp
  next
    case False
    then show ?thesis using Suc minus1_nat [of x d] word_diff_pos [of x d] by auto
  qed
qed

text \<open>\<^verbatim>\<open>memset\<close> writes exactly the \<open>count\<close> bytes from \<open>dest\<close> (modulo \<open>2 ^ 32\<close>).\<close>

lemma memset_apply:
  "memset m dest val count x = (if x - dest < count then ucast val else m x)"
  by (simp add: memset_def memset_loop_apply word_less_nat_alt order_less_imp_le)

lemma copy_forward_apply:
  "k \<le> unat (d - s) \<or> d = s \<Longrightarrow> k \<le> 2 ^ 32 \<Longrightarrow>
   copy_forward k d s m x = (if unat (x - d) < k then m (x - d + s) else m x)"
proof (induction k arbitrary: d s m)
  case 0
  then show ?case by simp
next
  case (Suc k)
  have IH: "copy_forward k (d + 1) (s + 1) (m(d := m s)) x
      = (if unat (x - (d + 1)) < k then (m(d := m s)) (x - d + s) else (m(d := m s)) x)"
  proof -
    have "k \<le> unat (d + 1 - (s + 1)) \<or> d + 1 = s + 1" "k \<le> 2 ^ 32"
      using Suc.prems by auto
    moreover have "x - (d + 1) + (s + 1) = x - d + s" by simp
    ultimately show ?thesis using Suc.IH [of "d + 1" "s + 1" "m(d := m s)"] by (simp only:)
  qed
  have ne: "x - d + s \<noteq> d \<or> d = s" if "unat (x - d) < Suc k"
    using that Suc.prems(1) by (metis add_diff_cancel_right' linorder_not_le)
  show ?case
  proof (cases "x = d")
    case True
    then show ?thesis using IH Suc.prems(2) by auto
  next
    case False
    then show ?thesis using IH ne minus1_nat [OF False] word_diff_pos [OF False] by auto
  qed
qed

lemma copy_backward_apply:
  "k \<le> unat (s - d) \<or> d = s \<Longrightarrow> k \<le> 2 ^ 32 \<Longrightarrow>
   copy_backward k d s m x = (if unat (d - 1 - x) < k then m (x - d + s) else m x)"
proof (induction k arbitrary: d s m)
  case 0
  then show ?case by simp
next
  case (Suc k)
  let ?m = "m(d - 1 := m (s - 1))"
  have IH: "copy_backward k (d - 1) (s - 1) ?m x
      = (if unat (d - 1 - 1 - x) < k then ?m (x - d + s) else ?m x)"
  proof -
    have "k \<le> unat (s - 1 - (d - 1)) \<or> d - 1 = s - 1" "k \<le> 2 ^ 32"
      using Suc.prems by auto
    moreover have "x - (d - 1) + (s - 1) = x - d + s" by simp
    ultimately show ?thesis using Suc.IH [of "s - 1" "d - 1" ?m] by (simp only:)
  qed
  have ne: "x - d + s \<noteq> d - 1 \<or> d = s" if "unat (d - 1 - x) < Suc k"
  proof (cases "d = s")
    case False
    then have "Suc k \<le> unat (s - d)" using Suc.prems(1) by simp
    then have "d - 1 - x \<noteq> s - d" using that by (metis not_le)
    moreover have "s - d = (x - d + s) - x" by simp
    ultimately have "x - d + s \<noteq> d - 1" by metis
    then show ?thesis by (rule disjI1)
  qed simp
  have e: "d - 1 - 1 - x = (d - 1) - (x + 1)" by simp
  show ?case
  proof (cases "x = d - 1")
    case True
    then show ?thesis using IH Suc.prems(2) by auto
  next
    case False
    then have "unat (d - 1 - (x + 1)) = unat (d - 1 - x) - 1" "0 < unat (d - 1 - x)"
      using minus1_nat [of "d - 1" x] word_diff_pos [of "d - 1" x] by blast+
    moreover have "?m x = m x" using False by simp
    moreover have "?m (x - d + s) = m (x - d + s)" if "unat (d - 1 - x) < Suc k"
      using ne [OF that] by (auto simp only: fun_upd_apply diff_add_cancel split: if_splits)
    ultimately show ?thesis using IH unfolding e by (simp only: copy_backward.simps) auto
  qed
qed


lemma backward_range: "((n :: u32) - 1 - u < n) = (u < n)"
  by uint_arith

text \<open>
  C37: \<^verbatim>\<open>memmove\<close> copies correctly whether or not the two areas overlap, and in either direction:
  afterwards every byte of the destination holds what the corresponding source byte held before,
  and no other byte has changed. The areas are only assumed not to wrap around the address space.
\<close>

theorem memmove_correct:
  assumes "unat dest + unat count \<le> 2 ^ 32" and "unat src + unat count \<le> 2 ^ 32"
  shows "memmove m dest src count x = (if x - dest < count then m (src + (x - dest)) else m x)"
proof (cases "dest < src")
  case True
  then have "unat (dest - src) = 2 ^ 32 + unat dest - unat src"
    by (simp add: unat_sub_if' word_less_nat_alt)
  then have "unat count \<le> unat (dest - src)" using assms(2) by simp
  then show ?thesis
    using True copy_forward_apply [of "unat count" dest src m x]
    by (simp add: memmove_def word_less_nat_alt order_less_imp_le add.commute)
next
  case False
  have "unat count \<le> unat (src - dest) \<or> dest = src"
  proof (cases "dest = src")
    case False
    with \<open>\<not> dest < src\<close> have "unat src < unat dest"
      by (simp add: word_less_nat_alt [symmetric])
    then have "unat (src - dest) = 2 ^ 32 + unat src - unat dest"
      by (simp add: unat_sub_if')
    then show ?thesis using assms(1) by linarith
  qed simp
  then have "unat count \<le> unat (src + count - (dest + count)) \<or> dest + count = src + count"
    by simp
  from copy_backward_apply [OF this unat_le32, of m x]
  have "copy_backward (unat count) (dest + count) (src + count) m x
      = (if dest + count - 1 - x < count then m (x - (dest + count) + (src + count)) else m x)"
    by (simp only: word_less_nat_alt)
  also have "(dest + count - 1 - x < count) = (x - dest < count)"
    using backward_range [of count "x - dest"] by (simp add: algebra_simps)
  also have "x - (dest + count) + (src + count) = src + (x - dest)" by simp
  finally show ?thesis using False by (simp add: memmove_def)
qed

theorem memmove_correct_witness:
  "memmove (\<lambda>a. ucast a) 3 1 4 5 = (3 :: u8) \<and> memmove (\<lambda>a. ucast a) 1 3 4 2 = (4 :: u8)"
  using memmove_correct [of 3 4 1 "\<lambda>a. ucast a" 5] memmove_correct [of 1 4 3 "\<lambda>a. ucast a" 2] by simp

lemma memcpy_apply:
  "count \<le> dest - src \<or> dest = src \<Longrightarrow>
   memcpy m dest src count x = (if x - dest < count then m (src + (x - dest)) else m x)"
  using copy_forward_apply [of "unat count" dest src m x]
  by (simp add: memcpy_def word_less_nat_alt word_le_nat_alt order_less_imp_le add.commute)

lemma byte_diff_0 [simp]: "byte_diff a b = 0 \<longleftrightarrow> a = b"
  unfolding byte_diff_def right_minus_eq of_nat_eq_iff by (rule word_unat_eq_iff [symmetric])

lemma memcmp_loop_0: "memcmp_loop k m a b = 0 \<longleftrightarrow> bytes_at m a k = bytes_at m b k"
  by (induction k arbitrary: a b) (auto simp: bytes_at_Suc bytes_at_def [of _ _ 0])

lemma memcmp_eq_0: "memcmp m a b n = 0 \<longleftrightarrow> bytes_at m a (unat n) = bytes_at m b (unat n)"
  by (simp add: memcmp_def memcmp_loop_0)

section \<open>String operations\<close>

lemma strlen_loop_cstr:
  "cstr_at m (p + l) s \<Longrightarrow> strlen_loop m p l = Some (l + of_nat (length s))"
proof (induction s arbitrary: l)
  case Nil
  then show ?case by (subst strlen_loop.simps) simp
next
  case (Cons c s)
  then have "strlen_loop m p (l + 1) = Some (l + 1 + of_nat (length s))"
    by (simp add: add.assoc)
  with Cons.prems show ?case by (subst strlen_loop.simps) (simp add: add.assoc)
qed

lemma strlen_cstr: "cstr_at m p s \<Longrightarrow> strlen m p = Some (of_nat (length s))"
  using strlen_loop_cstr [of m p 0 s] by (simp add: strlen_def)

lemma strcmp_cstr:
  "cstr_at m p s \<Longrightarrow> cstr_at m q t \<Longrightarrow> strcmp m p q = Some (str_diff s t)"
proof (induction s t arbitrary: p q rule: str_diff.induct)
  case 1
  then show ?case by (subst strcmp.simps) simp
next
  case (2 c cs)
  then show ?case by (subst strcmp.simps) simp
next
  case (3 c cs)
  then show ?case by (subst strcmp.simps) simp
next
  case (4 c cs d ds)
  then show ?case by (subst strcmp.simps) simp
qed

lemma strncmp_loop_cstr:
  "cstr_at m p s \<Longrightarrow> cstr_at m q t \<Longrightarrow> strncmp_loop n m p q = str_diff (take n s) (take n t)"
proof (induction s t arbitrary: p q n rule: str_diff.induct)
  case 1
  then show ?case by (cases n) auto
next
  case (2 c cs)
  then show ?case by (cases n) auto
next
  case (3 c cs)
  then show ?case by (cases n) auto
next
  case (4 c cs d ds)
  then show ?case by (cases n) auto
qed

lemma str_diff_0: "0 \<notin> set s \<Longrightarrow> 0 \<notin> set t \<Longrightarrow> str_diff s t = 0 \<longleftrightarrow> s = t"
  by (induction s t rule: str_diff.induct) auto

lemma cstr_at_upd:
  "(\<And>i. i \<le> length s \<Longrightarrow> x \<noteq> p + of_nat i) \<Longrightarrow> cstr_at (m(x := v)) p s = cstr_at m p s"
proof (induction s arbitrary: p)
  case Nil
  then show ?case using Nil.prems [of 0] by simp
next
  case (Cons c s)
  have "x \<noteq> p" using Cons.prems [of 0] by simp
  moreover have "cstr_at (m(x := v)) (p + 1) s = cstr_at m (p + 1) s"
  proof (rule Cons.IH)
    fix i assume "i \<le> length s"
    then show "x \<noteq> p + 1 + of_nat i" using Cons.prems [of "Suc i"] by (simp add: add.assoc)
  qed
  ultimately show ?case by (simp add: fun_upd_def)
qed

lemma cstr_at_agree:
  assumes "\<And>i. i \<le> length s \<Longrightarrow> m' (q + of_nat i) = m (p + of_nat i)"
  shows "cstr_at m' q s = cstr_at m p s"
  using assms
proof (induction s arbitrary: p q)
  case Nil
  then show ?case using Nil.prems [of 0] by simp
next
  case (Cons c s)
  have "m' q = m p" using Cons.prems [of 0] by simp
  moreover have "cstr_at m' (q + 1) s = cstr_at m (p + 1) s"
    using Cons.IH [of "q + 1" "p + 1"] Cons.prems [of "Suc i" for i] by (simp add: add.assoc)
  ultimately show ?case by simp
qed

lemma cstr_at_upd_before:
  assumes "Suc (length s) < unat (d - p)" shows "cstr_at (m(d := v)) (p + 1) s = cstr_at m (p + 1) s"
proof (rule cstr_at_upd)
  fix i assume "i \<le> length s"
  with assms have "Suc i < unat (d - p)" by simp
  moreover from this have "Suc i < 4294967296" by (rule less_trans [OF _ unat_lt32])
  ultimately show "d \<noteq> p + 1 + of_nat i"
    using unat_of_nat32 [of "Suc i"] by auto
qed

lemma strcpy_copy:
  "cstr_at m p s \<Longrightarrow> length s < unat (d - p) \<Longrightarrow>
   strcpy m d p = Some (copy_forward (Suc (length s)) d p m)"
proof (induction s arbitrary: m d p)
  case Nil
  then show ?case by (subst strcpy.simps) simp
next
  case (Cons c s)
  have "cstr_at (m(d := m p)) (p + 1) s"
    using Cons.prems cstr_at_upd_before [of s d p m "m p"] by simp
  then have "strcpy (m(d := m p)) (d + 1) (p + 1)
      = Some (copy_forward (Suc (length s)) (d + 1) (p + 1) (m(d := m p)))"
    using Cons.prems(2) by (intro Cons.IH) (simp_all add: fun_upd_def)
  with Cons.prems(1) show ?case by (subst strcpy.simps) (simp add: fun_upd_def)
qed

lemma strncpy_loop_short:
  "cstr_at m p s \<Longrightarrow> length s < n \<Longrightarrow> length s < unat (d - p) \<Longrightarrow>
   strncpy_loop n d p m
     = (d + of_nat (Suc (length s)), n - length s, copy_forward (Suc (length s)) d p m)"
proof (induction s arbitrary: m d p n)
  case Nil
  then show ?case by (cases n) (simp_all add: fun_upd_def)
next
  case (Cons c s)
  have "cstr_at (m(d := m p)) (p + 1) s"
    using Cons.prems cstr_at_upd_before [of s d p m "m p"] by simp
  then have "strncpy_loop (n - 1) (d + 1) (p + 1) (m(d := m p))
     = (d + 1 + of_nat (Suc (length s)), n - 1 - length s,
        copy_forward (Suc (length s)) (d + 1) (p + 1) (m(d := m p)))"
    using Cons.prems(2,3) by (intro Cons.IH) (simp_all add: fun_upd_def)
  with Cons.prems show ?case by (cases n) (simp_all add: add.assoc fun_upd_def)
qed

lemma strncpy_loop_long:
  "cstr_at m p s \<Longrightarrow> n \<le> length s \<Longrightarrow> length s < unat (d - p) \<Longrightarrow>
   strncpy_loop n d p m = (d + of_nat n, 0, copy_forward n d p m)"
proof (induction s arbitrary: m d p n)
  case Nil
  then show ?case by simp
next
  case (Cons c s)
  have "cstr_at (m(d := m p)) (p + 1) s"
    using Cons.prems cstr_at_upd_before [of s d p m "m p"] by simp
  then have "strncpy_loop (n - 1) (d + 1) (p + 1) (m(d := m p))
     = (d + 1 + of_nat (n - 1), 0, copy_forward (n - 1) (d + 1) (p + 1) (m(d := m p)))"
    using Cons.prems(2,3) by (intro Cons.IH) (simp_all add: fun_upd_def)
  with Cons.prems show ?case by (cases n) (simp_all add: add.assoc fun_upd_def)
qed


lemma shift_range:
  assumes "a < 2 ^ 32" "a + b \<le> 2 ^ 32"
  shows "unat (x - (d + of_nat a) :: u32) < b \<longleftrightarrow> a \<le> unat (x - d) \<and> unat (x - d) < a + b"
proof -
  have e: "x - (d + of_nat a) = (x - d) - of_nat a" by simp
  show ?thesis
  proof (cases "a \<le> unat (x - d)")
    case True
    then have "unat (x - d - of_nat a) = unat (x - d) - a"
      using assms by (simp add: unat_sub word_le_nat_alt unat_of_nat32)
    then show ?thesis using True unfolding e by auto
  next
    case False
    then have "unat (x - d - of_nat a) = 2 ^ 32 + unat (x - d) - a"
      using assms by (simp add: unat_sub_if' unat_of_nat32)
    then show ?thesis using False assms unfolding e by simp
  qed
qed

lemma copy_forward_cstr:
  assumes "cstr_at m p s" "length s < unat (d - p)" "n \<le> Suc (length s)" "unat (x - d) < n"
  shows "copy_forward n d p m x = (s @ [0]) ! unat (x - d)"
proof -
  have "copy_forward n d p m x = m (p + (x - d))"
    using assms copy_forward_apply [of n d p m x] unat_le32 [of "d - p"] by (simp add: add.commute)
  also have "\<dots> = m (p + of_nat (unat (x - d)))" by simp
  also have "\<dots> = (s @ [0]) ! unat (x - d)"
  proof (cases "unat (x - d) < length s")
    case True
    then show ?thesis using cstr_at_nth [OF assms(1) True] by (simp add: nth_append)
  next
    case False
    then have "unat (x - d) = length s" using assms by simp
    then show ?thesis using cstr_at_end [OF assms(1)] by (simp add: nth_append)
  qed
  finally show ?thesis .
qed

lemma strcpy_cstr:
  assumes "cstr_at m p s" "length s < unat (d - p)"
  shows "\<exists>m'. strcpy m d p = Some m' \<and> cstr_at m' d s \<and>
     (\<forall>x. length s < unat (x - d) \<longrightarrow> m' x = m x)"
proof (intro exI conjI allI impI)
  let ?m = "copy_forward (Suc (length s)) d p m"
  have len: "Suc (length s) \<le> 2 ^ 32" using assms(2) unat_le32 [of "d - p"] by linarith
  show "strcpy m d p = Some ?m" using assms by (rule strcpy_copy)
  have "cstr_at ?m d s = cstr_at m p s"
  proof (rule cstr_at_agree)
    fix i assume "i \<le> length s"
    moreover from this have "unat (of_nat i :: u32) = i" using len by (simp add: unat_of_nat32)
    ultimately show "?m (d + of_nat i) = m (p + of_nat i)"
      using copy_forward_apply [of "Suc (length s)" d p m "d + of_nat i"] assms(2) len
      by (simp add: add.commute del: copy_forward.simps)
  qed
  then show "cstr_at ?m d s" using assms(1) by simp
  fix x assume "length s < unat (x - d)"
  then show "?m x = m x"
    using copy_forward_apply [of "Suc (length s)" d p m x] assms(2) len
    by (simp del: copy_forward.simps)
qed

text \<open>
  For a source string shorter than \<open>n\<close>, \<^verbatim>\<open>strncpy\<close> writes the string and fills with zero bytes, but
  the loop decrements \<open>n\<close> only after a non-zero byte: \<open>n + 1\<close> bytes are written, one past the buffer of
  size \<open>n\<close> that the caller announced.
\<close>

theorem strncpy_short:
  assumes "cstr_at m src s" "length s < unat n" "length s < unat (dest - src)"
  shows "strncpy m dest src n x =
     (if unat (x - dest) < length s then s ! unat (x - dest)
      else if unat (x - dest) \<le> unat n then 0 else m x)"
proof -
  let ?l = "Suc (length s)" and ?u = "unat (x - dest)"
  let ?m = "copy_forward ?l dest src m"
  have "?l \<le> unat n" and e: "?l + (unat n - length s) = Suc (unat n)" using assms(2) by simp_all
  moreover have "unat n < 2 ^ 32" by simp
  ultimately have l: "?l < 2 ^ 32" and sum: "?l + (unat n - length s) \<le> 2 ^ 32"
    by linarith+
  have "strncpy m dest src n = memset_loop (unat n - length s) (dest + of_nat ?l) 0 ?m"
    unfolding strncpy_def strncpy_loop_short [OF assms] by (simp only: Let_def prod.case)
  moreover have "unat n - length s \<le> 2 ^ 32" using sum by linarith
  ultimately have eq: "strncpy m dest src n x
      = (if ?l \<le> ?u \<and> ?u < Suc (unat n) then 0 else ?m x)"
    using memset_loop_apply [of "unat n - length s" "dest + of_nat ?l" 0 ?m x]
      shift_range [OF l sum, of x dest] e
    by (simp only:)
  show ?thesis
  proof (cases "?u < ?l")
    case True
    then have "?m x = (s @ [0]) ! ?u"
      using assms by (intro copy_forward_cstr) simp_all
    then show ?thesis using eq True assms(2) by (auto simp: nth_append simp del: copy_forward.simps)
  next
    case False
    then have "?m x = m x"
      using copy_forward_apply [of ?l dest src m x] assms(3) l by (simp del: copy_forward.simps)
    then show ?thesis using eq False by (simp del: copy_forward.simps)
  qed
qed

theorem strncpy_short_witness:
  "let m = (\<lambda>_. 0xAA)(0 := 0x68, 1 := 0x69, 2 := 0) in
   cstr_at m 0 [0x68, 0x69] \<and> strncpy m 100 0 4 104 = 0 \<and> m 104 = 0xAA"
  using strncpy_short [of "(\<lambda>_. 0xAA)(0 := 0x68, 1 := 0x69, 2 := 0)" 0 "[0x68, 0x69]" 4 100 104]
  by (simp add: Let_def)

lemma strncpy_long:
  assumes "cstr_at m src s" "unat n \<le> length s" "length s < unat (dest - src)"
  shows "strncpy m dest src n x = (if x - dest < n then s ! unat (x - dest) else m x)"
proof -
  have eq: "strncpy m dest src n = copy_forward (unat n) dest src m"
    unfolding strncpy_def strncpy_loop_long [OF assms] by simp
  show ?thesis
  proof (cases "x - dest < n")
    case True
    then have "unat (x - dest) < unat n" by (simp add: word_less_nat_alt)
    then show ?thesis
      using eq True assms copy_forward_cstr [of m src s dest "unat n" x] by (simp add: nth_append)
  next
    case False
    then show ?thesis
      using eq copy_forward_apply [of "unat n" dest src m x] assms
      by (simp add: word_less_nat_alt less_imp_le)
  qed
qed

lemma strcat_skip_cstr: "cstr_at m d t \<Longrightarrow> strcat_skip m d = Some (d + of_nat (length t))"
proof (induction t arbitrary: d)
  case Nil
  then show ?case by (subst strcat_skip.simps) simp
next
  case (Cons c t)
  then show ?case by (subst strcat_skip.simps) (simp add: add.assoc)
qed

lemma cstr_at_append:
  assumes "\<And>i. i < length t \<Longrightarrow> m (p + of_nat i) = t ! i" "0 \<notin> set t"
    and "cstr_at m (p + of_nat (length t)) s"
  shows "cstr_at m p (t @ s)"
  using assms
proof (induction t arbitrary: p)
  case Nil
  then show ?case by simp
next
  case (Cons c t)
  have "m p = c" using Cons.prems(1) [of 0] by simp
  moreover have "cstr_at m (p + 1) (t @ s)"
    using Cons.prems(1) [of "Suc i" for i] Cons.prems(2,3) by (intro Cons.IH) (auto simp: add.assoc)
  ultimately show ?case using Cons.prems(2) by auto
qed

lemma strcat_cstr:
  assumes t: "cstr_at m dest t" and s: "cstr_at m src s"
    and apart: "length s < unat (dest + of_nat (length t) - src)"
    and fits: "length t + length s < 2 ^ 32"
  shows "\<exists>m'. strcat m dest src = Some m' \<and> cstr_at m' dest (t @ s)"
proof -
  let ?d = "dest + of_nat (length t)"
  obtain m' where m': "strcpy m ?d src = Some m'" "cstr_at m' ?d s"
    and frame: "\<And>x. length s < unat (x - ?d) \<Longrightarrow> m' x = m x"
    using strcpy_cstr [OF s apart] by blast
  have "cstr_at m' dest (t @ s)"
  proof (rule cstr_at_append)
    fix i assume i: "i < length t"
    then have u: "unat (of_nat i :: u32) = i" using fits by (simp add: unat_of_nat32)
    have "\<not> unat (dest + of_nat i - ?d) < Suc (length s)"
      using shift_range [of "length t" "Suc (length s)" "dest + of_nat i" dest] i fits u by simp
    then show "m' (dest + of_nat i) = t ! i"
      using frame [of "dest + of_nat i"] cstr_at_nth [OF t i] by simp
  qed (use t m' cstr_at_nonzero in auto)
  then show ?thesis using m'(1) strcat_skip_cstr [OF t] by (simp add: strcat_def)
qed

lemma strchr_cstr:
  assumes "cstr_at m p s"
  shows "strchr m p c = Some (if ucast c \<in> set s
      then p + of_nat (length (takeWhile (\<lambda>b. b \<noteq> ucast c) s))
      else if c = 0 then p + of_nat (length s) else 0)"
  using assms
proof (induction s arbitrary: p)
  case Nil
  then show ?case by (subst strchr.simps) simp
next
  case (Cons b s)
  then show ?case by (subst strchr.simps) (auto simp: add.assoc)
qed

end
