(* ===== verification/Console.thy ===== *)
theory Console
  imports CString
begin

text \<open>
  The kernel console, \<^verbatim>\<open>kernel/lib/stdio.c\<close>: the VGA text buffer with its cursor, the
  number printers and \<^verbatim>\<open>kprintf\<close>. The record \<open>kcon\<close> is the innermost part of the
  kernel state: every later component extends it by its own static variables, so that a
  function of this theory applies unchanged to the state of any component that calls it.
  The text buffer is device memory of its own (80 x 25 cells at 0xB8000).
\<close>

section \<open>State\<close>

record kcon =
  mem :: mem
  vga_buffer :: "u16 list"
  cursor_x :: int
  cursor_y :: int

text \<open>Before the boot code runs: memory, buffer and cursor are zero.\<close>

definition boot_con :: kcon where
  "boot_con = \<lparr>mem = (\<lambda>_. 0), vga_buffer = replicate 2000 0, cursor_x = 0, cursor_y = 0\<rparr>"

section \<open>Cursor and cells\<close>

definition blank_cell :: u16 where
  "blank_cell = 0x20 OR push_bit 8 0x07"

definition vga_scroll :: "'a kcon_scheme \<Rightarrow> 'a kcon_scheme" where
  "vga_scroll s =
     (if cursor_y s \<ge> 25
      then s\<lparr>vga_buffer := take (80 * 24) (drop 80 (vga_buffer s)) @ replicate 80 blank_cell,
             cursor_y := 24\<rparr>
      else s)"

definition vga_putchar :: "u8 \<Rightarrow> 'a kcon_scheme \<Rightarrow> 'a kcon_scheme" where
  "vga_putchar c s =
     (let s1 =
        (if c = 10 then s\<lparr>cursor_x := 0, cursor_y := cursor_y s + 1\<rparr>
         else if c = 13 then s\<lparr>cursor_x := 0\<rparr>
         else if c = 9 then s\<lparr>cursor_x := (cursor_x s + 8) AND NOT 7\<rparr>
         else if c = 8 then (if cursor_x s > 0 then s\<lparr>cursor_x := cursor_x s - 1\<rparr> else s)
         else s\<lparr>vga_buffer := (vga_buffer s)
                  [nat (cursor_y s * 80 + cursor_x s) := scast c OR push_bit 8 0x07],
                cursor_x := cursor_x s + 1\<rparr>);
          s2 = (if cursor_x s1 \<ge> 80 then s1\<lparr>cursor_x := 0, cursor_y := cursor_y s1 + 1\<rparr> else s1)
      in vga_scroll s2)"

definition print_str :: "u8 list \<Rightarrow> 'a kcon_scheme \<Rightarrow> 'a kcon_scheme" where
  "print_str str s = fold vga_putchar str s"

section \<open>Numbers\<close>

text \<open>
  The digit buffers of \<^verbatim>\<open>print_int\<close>, \<^verbatim>\<open>print_uint\<close> and \<^verbatim>\<open>print_hex\<close> in the order
  the loops fill them, least significant digit first; the second loop of each prints the
  buffer from its end.
\<close>

fun dec_buf :: "nat \<Rightarrow> u8 list" where
  "dec_buf v = (if v > 0 then (48 + of_nat (v mod 10)) # dec_buf (v div 10) else [])"

definition hex_digit :: "nat \<Rightarrow> u8" where
  "hex_digit d = lit ''0123456789abcdef'' ! d"

fun hex_buf :: "nat \<Rightarrow> u8 list" where
  "hex_buf v = (if v > 0 then hex_digit (v mod 16) # hex_buf (v div 16) else [])"

declare dec_buf.simps [simp del] hex_buf.simps [simp del]

definition print_int :: "u32 \<Rightarrow> 'a kcon_scheme \<Rightarrow> 'a kcon_scheme" where
  "print_int value s =
     (let negative = sint value < 0;
          v = (if negative then - value else value)
      in if v = 0 then vga_putchar 48 s
         else let buf = dec_buf (nat (sint v));
                  s1 = (if negative then vga_putchar 45 s else s)
              in print_str (rev buf) s1)"

definition print_uint :: "u32 \<Rightarrow> 'a kcon_scheme \<Rightarrow> 'a kcon_scheme" where
  "print_uint value s =
     (if value = 0 then vga_putchar 48 s else print_str (rev (dec_buf (unat value))) s)"

definition print_hex :: "u32 \<Rightarrow> 'a kcon_scheme \<Rightarrow> 'a kcon_scheme" where
  "print_hex value s =
     (if value = 0 then print_str (lit ''0x0'') s
      else print_str (rev (hex_buf (unat value))) (print_str (lit ''0x'') s))"

section \<open>Formatted output\<close>

text \<open>
  An argument of \<^verbatim>\<open>kprintf\<close> is an integer or a string. \<open>kprintf_run\<close> is
  \<^const>\<open>None\<close> where the C function has no defined behaviour: a conversion meets an
  argument of the other kind or no argument at all, or the format ends right after a
  percent sign, in which case the loop steps over the terminating NUL.
\<close>

datatype va = VInt u32 | VStr "u8 list"

definition kprintf_conv :: "u8 \<Rightarrow> va list \<Rightarrow> 'a kcon_scheme \<Rightarrow> (va list \<times> 'a kcon_scheme) option" where
  "kprintf_conv f args s =
     (if f = 100 \<or> f = 105 then
        (case args of VInt v # args' \<Rightarrow> Some (args', print_int v s) | _ \<Rightarrow> None)
      else if f = 117 then
        (case args of VInt v # args' \<Rightarrow> Some (args', print_uint v s) | _ \<Rightarrow> None)
      else if f = 120 \<or> f = 88 \<or> f = 112 then
        (case args of VInt v # args' \<Rightarrow> Some (args', print_hex v s) | _ \<Rightarrow> None)
      else if f = 115 then
        (case args of VStr t # args' \<Rightarrow> Some (args', print_str t s) | _ \<Rightarrow> None)
      else if f = 99 then
        (case args of VInt v # args' \<Rightarrow> Some (args', vga_putchar (ucast v) s) | _ \<Rightarrow> None)
      else if f = 37 then Some (args, vga_putchar 37 s)
      else Some (args, vga_putchar f (vga_putchar 37 s)))"

fun kprintf_run :: "u8 list \<Rightarrow> va list \<Rightarrow> 'a kcon_scheme \<Rightarrow> 'a kcon_scheme option" where
  "kprintf_run [] args s = Some s"
| "kprintf_run (c # fmt) args s =
     (if c = 37 then
        (case fmt of
           [] \<Rightarrow> None
         | f # fmt' \<Rightarrow>
             (case kprintf_conv f args s of
                None \<Rightarrow> None
              | Some (args', s') \<Rightarrow> kprintf_run fmt' args' s'))
      else kprintf_run fmt args (vga_putchar c s))"

text \<open>
  The call as the other components make it: a statement that changes the console only.
  The text it prints is \<open>fmt_text\<close> of the format and the arguments, a function of these
  alone; where that is \<^const>\<open>None\<close> so is \<open>kprintf_run\<close>.
\<close>

definition kprintf :: "u8 list \<Rightarrow> va list \<Rightarrow> 'a kcon_scheme \<Rightarrow> 'a kcon_scheme" where
  "kprintf fmt args s = (case kprintf_run fmt args s of Some s' \<Rightarrow> s' | None \<Rightarrow> s)"

definition dec_text :: "nat \<Rightarrow> u8 list" where
  "dec_text n = (if n = 0 then [48] else rev (dec_buf n))"

definition hex_text :: "nat \<Rightarrow> u8 list" where
  "hex_text n = lit ''0x'' @ (if n = 0 then [48] else rev (hex_buf n))"

definition int_text :: "u32 \<Rightarrow> u8 list" where
  "int_text v =
     (if sint v < 0 then 45 # (if v = 0x80000000 then [] else dec_text (nat (- sint v)))
      else dec_text (nat (sint v)))"

definition conv_text :: "u8 \<Rightarrow> va list \<Rightarrow> (va list \<times> u8 list) option" where
  "conv_text f args =
     (case args of
        VInt v # args' \<Rightarrow>
          if f = 100 \<or> f = 105 then Some (args', int_text v)
          else if f = 117 then Some (args', dec_text (unat v))
          else if f = 120 \<or> f = 88 \<or> f = 112 then Some (args', hex_text (unat v))
          else if f = 115 then None
          else if f = 99 then Some (args', [ucast v])
          else Some (args, if f = 37 then [37] else [37, f])
      | VStr t # args' \<Rightarrow>
          if f = 115 then Some (args', t)
          else if f \<in> {100, 105, 117, 120, 88, 112, 99} then None
          else Some (args, if f = 37 then [37] else [37, f])
      | [] \<Rightarrow>
          if f \<in> {100, 105, 117, 120, 88, 112, 99, 115} then None
          else Some (args, if f = 37 then [37] else [37, f]))"

fun fmt_text :: "u8 list \<Rightarrow> va list \<Rightarrow> u8 list option" where
  "fmt_text [] args = Some []"
| "fmt_text (c # fmt) args =
     (if c = 37 then
        (case fmt of
           [] \<Rightarrow> None
         | f # fmt' \<Rightarrow>
             (case conv_text f args of
                None \<Rightarrow> None
              | Some (args', t) \<Rightarrow> map_option (append t) (fmt_text fmt' args')))
      else map_option (Cons c) (fmt_text fmt args))"

definition litln :: "string \<Rightarrow> u8 list" where
  "litln str = lit str @ [10]"

definition con_ok :: "'a kcon_scheme \<Rightarrow> bool" where
  "con_ok s \<longleftrightarrow> 0 \<le> cursor_x s \<and> cursor_x s < 80 \<and> 0 \<le> cursor_y s \<and> cursor_y s < 25 \<and>
     length (vga_buffer s) = 2000"

section \<open>Numbers are printed in positional notation\<close>

fun digits_value :: "nat \<Rightarrow> nat list \<Rightarrow> nat" where
  "digits_value b [] = 0"
| "digits_value b (d # ds) = d + b * digits_value b ds"

lemma dec_buf_0 [simp]: "dec_buf 0 = []"
  by (simp add: dec_buf.simps)

lemma hex_buf_0 [simp]: "hex_buf 0 = []"
  by (simp add: hex_buf.simps)

lemma dec_digit_value: "d < 10 \<Longrightarrow> unat (48 + of_nat d :: u8) - 48 = d"
proof -
  assume d: "d < 10"
  then have "unat (of_nat d :: u8) = d" by (simp add: unat_of_nat)
  then show ?thesis using d by (simp add: unat_word_ariths)
qed

lemma dec_buf_value: "digits_value 10 (map (\<lambda>c. unat c - 48) (dec_buf v)) = v"
proof (induction v rule: dec_buf.induct)
  case (1 v)
  then show ?case by (subst dec_buf.simps) (simp add: dec_digit_value)
qed

lemma dec_buf_length: "v < 10 ^ k \<Longrightarrow> length (dec_buf v) \<le> k"
proof (induction k arbitrary: v)
  case 0
  then show ?case by simp
next
  case (Suc k)
  have "length (dec_buf (v div 10)) \<le> k"
    using Suc.prems by (intro Suc.IH) (simp add: less_mult_imp_div_less mult.commute)
  then show ?case by (subst dec_buf.simps) simp
qed

lemma hex_buf_length: "v < 16 ^ k \<Longrightarrow> length (hex_buf v) \<le> k"
proof (induction k arbitrary: v)
  case 0
  then show ?case by simp
next
  case (Suc k)
  have "length (hex_buf (v div 16)) \<le> k"
    using Suc.prems by (intro Suc.IH) (simp add: less_mult_imp_div_less mult.commute)
  then show ?case by (subst hex_buf.simps) simp
qed

section \<open>Printing is printing the formatted text\<close>

lemma print_str_Nil [simp]: "print_str [] s = s"
  by (simp add: print_str_def)

lemma print_str_Cons: "print_str (c # t) s = print_str t (vga_putchar c s)"
  by (simp add: print_str_def)

lemma print_str_append: "print_str (t @ u) s = print_str u (print_str t s)"
  by (simp add: print_str_def)

lemma print_uint_text: "print_uint v s = print_str (dec_text (unat v)) s"
  by (simp add: print_uint_def dec_text_def print_str_Cons unat_eq_0)

lemma print_hex_text: "print_hex v s = print_str (hex_text (unat v)) s"
  by (simp add: print_hex_def hex_text_def print_str_append unat_eq_0 lit_def print_str_Cons)

lemma sint_min: "sint (v :: u32) = - 2147483648 \<Longrightarrow> v = 0x80000000"
proof -
  assume "sint v = - 2147483648"
  then have "sint v = sint (0x80000000 :: u32)" by simp
  then show ?thesis by (simp add: signed_word_eqI)
qed

lemma sint_minus_u32: "v \<noteq> 0x80000000 \<Longrightarrow> sint (- v :: u32) = - sint v"
proof -
  assume v: "v \<noteq> 0x80000000"
  have "sint (- v) = signed_take_bit 31 (- sint v)"
    by (simp add: sint_word_ariths)
  moreover have "- 2147483648 \<noteq> sint v" using sint_min [of v] v by metis
  moreover have "- 2147483648 \<le> sint v" "sint v < 2147483648"
    using sint_ge [of v] sint_lt [of v] by simp_all
  ultimately show ?thesis by (simp add: signed_take_bit_int_eq_self)
qed

lemma print_int_text: "print_int v s = print_str (int_text v) s"
proof (cases "sint v < 0")
  case True
  then have "v \<noteq> 0" by auto
  show ?thesis
  proof (cases "v = 0x80000000")
    case True
    then show ?thesis by (simp add: print_int_def int_text_def print_str_Cons)
  next
    case False
    then show ?thesis
      using True \<open>v \<noteq> 0\<close> sint_minus_u32 [of v]
      by (simp add: print_int_def int_text_def dec_text_def print_str_Cons Let_def)
  qed
next
  case False
  then have "nat (sint v) = 0 \<longleftrightarrow> v = 0" by (auto simp: signed_eq_0_iff)
  then show ?thesis
    using False by (simp add: print_int_def int_text_def dec_text_def print_str_Cons Let_def)
qed

lemma kprintf_conv_text:
  "kprintf_conv f args s = map_option (\<lambda>(args', t). (args', print_str t s)) (conv_text f args)"
  by (cases args; cases "hd args")
    (simp_all add: kprintf_conv_def conv_text_def print_int_text print_uint_text print_hex_text print_str_Cons)

lemma kprintf_run_fmt_text:
  "kprintf_run fmt args s = map_option (\<lambda>t. print_str t s) (fmt_text fmt args)"
proof (induction fmt args s rule: kprintf_run.induct)
  case (2 c fmt args s)
  show ?case
  proof (cases "c = 37")
    case True
    show ?thesis
    proof (cases fmt)
      case (Cons f fmt')
      show ?thesis
      proof (cases "conv_text f args")
        case (Some p)
        obtain args' t where p: "p = (args', t)" by (cases p)
        have "kprintf_conv f args s = Some (args', print_str t s)"
          using Some p by (simp add: kprintf_conv_text)
        with "2.IH"(1) [OF True Cons this refl] show ?thesis
          using True Cons Some p by (simp add: option.map_comp o_def print_str_append)
      qed (simp add: True Cons kprintf_conv_text)
    qed (simp add: True)
  next
    case False
    then show ?thesis using "2.IH"(2) by (simp add: option.map_comp o_def print_str_Cons)
  qed
qed simp

lemma kprintf_text:
  "kprintf fmt args s = (case fmt_text fmt args of Some t \<Rightarrow> print_str t s | None \<Rightarrow> s)"
  by (simp add: kprintf_def kprintf_run_fmt_text split: option.splits)

section \<open>Only the console changes\<close>

lemma putchar_frame [simp]:
  "mem (vga_putchar c s) = mem s" "kcon.more (vga_putchar c s) = kcon.more s"
  by (simp_all add: vga_putchar_def vga_scroll_def Let_def)

lemma print_str_frame [simp]:
  "mem (print_str str s) = mem s" "kcon.more (print_str str s) = kcon.more s"
  unfolding print_str_def by (induction str arbitrary: s) simp_all

lemma kprintf_frame [simp]:
  "mem (kprintf fmt args s) = mem s" "kcon.more (kprintf fmt args s) = kcon.more s"
  by (simp_all add: kprintf_text split: option.splits)

lemma kprintf_eq:
  "kprintf fmt args s = s\<lparr>vga_buffer := vga_buffer (kprintf fmt args s),
     cursor_x := cursor_x (kprintf fmt args s), cursor_y := cursor_y (kprintf fmt args s)\<rparr>"
  by (rule kcon.equality) simp_all

section \<open>The cursor stays on the screen\<close>

lemma con_ok_putchar:
  assumes "con_ok s" shows "con_ok (vga_putchar c s)"
proof -
  have "0 \<le> (cursor_x s + 8) AND NOT 7" using assms by (auto simp: con_ok_def)
  then show ?thesis using assms
    by (auto simp: con_ok_def vga_putchar_def vga_scroll_def Let_def)
qed

lemma con_ok_print_str: "con_ok s \<Longrightarrow> con_ok (print_str t s)"
  by (induction t arbitrary: s) (simp_all add: print_str_Cons con_ok_putchar)

lemma con_ok_boot: "con_ok boot_con"
  by (simp add: con_ok_def boot_con_def)


text \<open>
  C39: Printing never leaves the screen: when the buffer has its 2000 cells and the cursor is inside the
  80 by 25 window, both still hold after any call of \<^verbatim>\<open>kprintf\<close>, whatever the text, so no write of
  \<^verbatim>\<open>vga_putchar\<close> is out of bounds.
\<close>

theorem kprintf_on_screen:
  assumes "con_ok s" shows "con_ok (kprintf fmt args s)"
  using assms
  by (simp add: kprintf_text con_ok_print_str split: option.splits)

theorem kprintf_on_screen_witness: "con_ok (kprintf (litln ''%d'') [VInt 42] boot_con)"
  by (rule kprintf_on_screen [OF con_ok_boot])

end
