(* ===== verification/Machine.thy ===== *)
theory Machine
  imports Console
begin

text \<open>
  The processor as the kernel touches it: port output and the interrupt flag of
  \<^verbatim>\<open>kernel/include/cpu/io.h\<close>, and the registers that the assembly routines and the
  inline assembly load. Port input is not state of the kernel: an operation that calls
  \<^verbatim>\<open>inb\<close> takes the byte the device delivers as an argument.
\<close>

section \<open>State\<close>

record kmach = kcon +
  port_log :: "(u16 \<times> u8) list"
  intr_enabled :: bool
  gdtr :: "u16 \<times> u32"
  idtr :: "u16 \<times> u32"
  task_reg :: u16
  seg_cs :: u16
  seg_data :: u16
  cr0 :: u32
  cr3 :: u32
  cpu_esp :: u32
  cpu_ebp :: u32
  cpu_eip :: u32

definition boot_mach :: kmach where
  "boot_mach = kcon.extend boot_con (kmach.fields [] False (0, 0) (0, 0) 0 0 0 0 0 0 0 0)"

section \<open>Operations\<close>

definition outb :: "u16 \<Rightarrow> u8 \<Rightarrow> 'a kmach_scheme \<Rightarrow> 'a kmach_scheme" where
  "outb port val s = s\<lparr>port_log := port_log s @ [(port, val)]\<rparr>"

definition io_wait :: "'a kmach_scheme \<Rightarrow> 'a kmach_scheme" where
  "io_wait s = outb 0x80 0 s"

definition cli :: "'a kmach_scheme \<Rightarrow> 'a kmach_scheme" where
  "cli s = s\<lparr>intr_enabled := False\<rparr>"

definition sti :: "'a kmach_scheme \<Rightarrow> 'a kmach_scheme" where
  "sti s = s\<lparr>intr_enabled := True\<rparr>"

text \<open>\<^verbatim>\<open>gdt_flush\<close>, \<^verbatim>\<open>tss_flush\<close> and \<^verbatim>\<open>idt_flush\<close> of \<^verbatim>\<open>boot/boot.s\<close>.\<close>

definition gdt_flush :: "u16 \<times> u32 \<Rightarrow> 'a kmach_scheme \<Rightarrow> 'a kmach_scheme" where
  "gdt_flush p s = s\<lparr>gdtr := p, seg_data := 0x10, seg_cs := 0x08\<rparr>"

definition tss_flush :: "'a kmach_scheme \<Rightarrow> 'a kmach_scheme" where
  "tss_flush s = s\<lparr>task_reg := 0x2B\<rparr>"

definition idt_flush :: "u16 \<times> u32 \<Rightarrow> 'a kmach_scheme \<Rightarrow> 'a kmach_scheme" where
  "idt_flush p s = s\<lparr>idtr := p\<rparr>"

section \<open>Console output leaves the machine alone\<close>

lemma kprintf_mach [simp]:
  "port_log (kprintf f a s) = port_log s" "intr_enabled (kprintf f a s) = intr_enabled s"
  "gdtr (kprintf f a s) = gdtr s" "idtr (kprintf f a s) = idtr s"
  "task_reg (kprintf f a s) = task_reg s" "seg_cs (kprintf f a s) = seg_cs s"
  "seg_data (kprintf f a s) = seg_data s" "cr0 (kprintf f a s) = cr0 s"
  "cr3 (kprintf f a s) = cr3 s" "cpu_esp (kprintf f a s) = cpu_esp s"
  "cpu_ebp (kprintf f a s) = cpu_ebp s" "cpu_eip (kprintf f a s) = cpu_eip s"
  "kmach.more (kprintf f a s) = kmach.more s"
  by (subst kprintf_eq; simp)+

end
