(* ===== verification/Gdt.thy ===== *)
theory Gdt
  imports Machine
begin

text \<open>
  The segment descriptor table and the task state segment, \<^verbatim>\<open>kernel/cpu/gdt.c\<close> with the
  types of \<^verbatim>\<open>kernel/include/cpu/gdt.h\<close>. The addresses the linker gives to the tables are
  arguments of the operations.
\<close>

section \<open>State\<close>

record gdt_entry_t =
  limit_low :: u16
  base_low :: u16
  base_middle :: u8
  access :: u8
  granularity :: u8
  base_high :: u8

record tss_entry_t =
  tss_prev_tss :: u32
  tss_esp0 :: u32
  tss_ss0 :: u32
  tss_esp1 :: u32
  tss_ss1 :: u32
  tss_esp2 :: u32
  tss_ss2 :: u32
  tss_cr3 :: u32
  tss_eip :: u32
  tss_eflags :: u32
  tss_gprs :: "u32 list"
  tss_es :: u32
  tss_cs :: u32
  tss_ss :: u32
  tss_ds :: u32
  tss_fs :: u32
  tss_gs :: u32
  tss_ldt :: u32
  tss_trap :: u16
  tss_iomap_base :: u16

record kgdt = kmach +
  gdt_entries :: "gdt_entry_t list"
  gdt_ptr :: "u16 \<times> u32"
  tss :: tss_entry_t

definition sizeof_tss :: u32 where
  "sizeof_tss = 104"

text \<open>The eight general registers eax, ecx, edx, ebx, esp, ebp, esi, edi are one list.\<close>

definition zero_tss :: tss_entry_t where
  "zero_tss = \<lparr>tss_prev_tss = 0, tss_esp0 = 0, tss_ss0 = 0, tss_esp1 = 0, tss_ss1 = 0,
     tss_esp2 = 0, tss_ss2 = 0, tss_cr3 = 0, tss_eip = 0, tss_eflags = 0,
     tss_gprs = replicate 8 0, tss_es = 0, tss_cs = 0, tss_ss = 0, tss_ds = 0, tss_fs = 0,
     tss_gs = 0, tss_ldt = 0, tss_trap = 0, tss_iomap_base = 0\<rparr>"

definition boot_gdt :: kgdt where
  "boot_gdt = kmach.extend boot_mach (kgdt.fields
     (replicate 6 \<lparr>limit_low = 0, base_low = 0, base_middle = 0, access = 0, granularity = 0, base_high = 0\<rparr>)
     (0, 0) zero_tss)"

section \<open>Operations\<close>

definition gdt_gate :: "u32 \<Rightarrow> u32 \<Rightarrow> u8 \<Rightarrow> u8 \<Rightarrow> gdt_entry_t" where
  "gdt_gate base limit acc gran =
     \<lparr>limit_low = ucast (limit AND 0xFFFF),
      base_low = ucast (base AND 0xFFFF),
      base_middle = ucast (drop_bit 16 base AND 0xFF),
      access = acc,
      granularity = ucast (drop_bit 16 limit AND 0x0F) OR (gran AND 0xF0),
      base_high = ucast (drop_bit 24 base AND 0xFF)\<rparr>"

definition gdt_set_gate ::
  "nat \<Rightarrow> u32 \<Rightarrow> u32 \<Rightarrow> u8 \<Rightarrow> u8 \<Rightarrow> 'a kgdt_scheme \<Rightarrow> 'a kgdt_scheme" where
  "gdt_set_gate num base limit acc gran s =
     s\<lparr>gdt_entries := (gdt_entries s)[num := gdt_gate base limit acc gran]\<rparr>"

definition tss_init :: "u32 \<Rightarrow> u32 \<Rightarrow> u32 \<Rightarrow> 'a kgdt_scheme \<Rightarrow> 'a kgdt_scheme" where
  "tss_init tss_addr ss0 esp0 s =
     (let base = tss_addr;
          limit = base + sizeof_tss;
          s1 = gdt_set_gate 5 base limit 0xE9 0x00 s
      in s1\<lparr>tss := zero_tss\<lparr>tss_ss0 := ss0, tss_esp0 := esp0, tss_cs := 0x08 OR 0x3,
           tss_ss := 0x10 OR 0x3, tss_ds := 0x10 OR 0x3, tss_es := 0x10 OR 0x3,
           tss_fs := 0x10 OR 0x3, tss_gs := 0x10 OR 0x3,
           tss_iomap_base := ucast sizeof_tss\<rparr>\<rparr>)"

definition gdt_init :: "u32 \<Rightarrow> u32 \<Rightarrow> 'a kgdt_scheme \<Rightarrow> 'a kgdt_scheme" where
  "gdt_init gdt_addr tss_addr s =
     (let s1 = s\<lparr>gdt_ptr := (8 * 6 - 1, gdt_addr)\<rparr>;
          s2 = gdt_set_gate 0 0 0 0 0 s1;
          s3 = gdt_set_gate 1 0 0xFFFFFFFF 0x9A 0xCF s2;
          s4 = gdt_set_gate 2 0 0xFFFFFFFF 0x92 0xCF s3;
          s5 = gdt_set_gate 3 0 0xFFFFFFFF 0xFA 0xCF s4;
          s6 = gdt_set_gate 4 0 0xFFFFFFFF 0xF2 0xCF s5;
          s7 = tss_init tss_addr 0x10 0 s6
      in tss_flush (gdt_flush (gdt_ptr s7) s7))"

definition tss_set_kernel_stack :: "u32 \<Rightarrow> 'a kgdt_scheme \<Rightarrow> 'a kgdt_scheme" where
  "tss_set_kernel_stack esp0 s = s\<lparr>tss := (tss s)\<lparr>tss_esp0 := esp0\<rparr>\<rparr>"

text \<open>What the processor reads out of a descriptor: base, 20-bit limit, flags.\<close>

definition gate_base :: "gdt_entry_t \<Rightarrow> u32" where
  "gate_base e = ucast (base_low e) OR push_bit 16 (ucast (base_middle e))
     OR push_bit 24 (ucast (base_high e))"

definition gate_limit :: "gdt_entry_t \<Rightarrow> u32" where
  "gate_limit e = ucast (limit_low e) OR push_bit 16 (ucast (granularity e AND 0x0F))"

text \<open>The last byte of a segment: the limit counts 4 KiB pages when bit 7 is set.\<close>

definition gate_last_byte :: "gdt_entry_t \<Rightarrow> u32" where
  "gate_last_byte e =
     (if bit (granularity e) 7 then gate_limit e * 4096 + 4095 else gate_limit e)"

section \<open>Console output leaves the tables alone\<close>

lemma kprintf_gdt [simp]:
  "gdt_entries (kprintf f a s) = gdt_entries s" "gdt_ptr (kprintf f a s) = gdt_ptr s"
  "tss (kprintf f a s) = tss s" "kgdt.more (kprintf f a s) = kgdt.more s"
  by (subst kprintf_eq; simp)+

section \<open>Descriptors encode their fields\<close>

lemma gate_base_gate: "gate_base (gdt_gate base limit acc gran) = base"
proof (rule bit_word_eqI)
  fix n assume "n < LENGTH(32)"
  then consider "n < 16" | "16 \<le> n" "n < 24" | "24 \<le> n" "n < 32" by fastforce
  then show "bit (gate_base (gdt_gate base limit acc gran)) n = bit base n"
    by cases (simp_all add: gate_base_def gdt_gate_def mask_nums bit_simps less_diff_conv2)
qed

lemma gate_limit_gate: "gate_limit (gdt_gate base limit acc gran) = limit AND 0xFFFFF"
proof (rule bit_word_eqI)
  fix n assume "n < LENGTH(32)"
  then consider "n < 16" | "16 \<le> n" "n < 20" | "20 \<le> n" "n < 32" by fastforce
  then show "bit (gate_limit (gdt_gate base limit acc gran)) n = bit (limit AND 0xFFFFF) n"
    by cases (simp_all add: gate_limit_def gdt_gate_def mask_nums bit_simps less_diff_conv2)
qed

text \<open>
  The descriptor \<^verbatim>\<open>gdt_set_gate\<close> scatters over the bit fields of an entry reads back, the way the
  processor decodes it, as the base, the low 20 bits of the limit, the access byte and the flag
  nibble it was given, and no other entry changes.
\<close>

theorem gdt_set_gate_correct:
  assumes "num < length (gdt_entries s)"
  shows "let t = gdt_set_gate num base limit acc gran s; e = gdt_entries t ! num in
     gate_base e = base \<and> gate_limit e = limit AND 0xFFFFF \<and> access e = acc \<and>
     granularity e AND 0xF0 = gran AND 0xF0 \<and>
     (\<forall>k. k \<noteq> num \<longrightarrow> gdt_entries t ! k = gdt_entries s ! k)"
proof -
  have "granularity (gdt_gate base limit acc gran) AND 0xF0 = gran AND 0xF0"
  proof (rule bit_word_eqI)
    fix n assume "n < LENGTH(8)"
    then show "bit (granularity (gdt_gate base limit acc gran) AND 0xF0) n = bit (gran AND 0xF0) n"
      by (auto simp: gdt_gate_def mask_nums bit_simps)
  qed
  moreover have "access (gdt_gate base limit acc gran) = acc" by (simp add: gdt_gate_def)
  ultimately show ?thesis
    using assms by (simp add: gate_base_gate gate_limit_gate gdt_set_gate_def Let_def)
qed

lemma length_boot_gdt: "length (gdt_entries boot_gdt) = 6"
  by (simp add: boot_gdt_def kmach.defs kgdt.defs boot_mach_def kcon.defs)

theorem gdt_set_gate_correct_witness:
  "gate_base (gdt_entries (gdt_set_gate 3 0xC0101000 0xFFFFF 0x9A 0xC0 boot_gdt) ! 3) = 0xC0101000"
  using gdt_set_gate_correct [of 3 boot_gdt "0xC0101000" "0xFFFFF" "0x9A" "0xC0"]
  by (simp add: length_boot_gdt Let_def)

lemma gdt_init_entries:
  "length (gdt_entries s) = 6 \<Longrightarrow> gdt_entries (gdt_init gdt_addr tss_addr s) =
     [gdt_gate 0 0 0 0, gdt_gate 0 0xFFFFFFFF 0x9A 0xCF, gdt_gate 0 0xFFFFFFFF 0x92 0xCF,
      gdt_gate 0 0xFFFFFFFF 0xFA 0xCF, gdt_gate 0 0xFFFFFFFF 0xF2 0xCF,
      gdt_gate tss_addr (tss_addr + 104) 0xE9 0]"
  by (cases "gdt_entries s" rule: list.exhaust)
    (auto simp: gdt_init_def tss_init_def gdt_set_gate_def gdt_flush_def tss_flush_def
      Let_def sizeof_tss_def length_Suc_conv eval_nat_numeral)

lemma flat_segment: "gate_last_byte (gdt_gate 0 0xFFFFFFFF acc 0xCF) = 0xFFFFFFFF"
proof -
  have "bit (granularity (gdt_gate 0 0xFFFFFFFF acc 0xCF)) 7"
    by (simp add: gdt_gate_def)
  then show ?thesis by (simp add: gate_last_byte_def gate_limit_gate)
qed

text \<open>
  \<^verbatim>\<open>gdt_init\<close> installs the flat model the kernel relies on: four segments with base 0 whose last
  byte is \<open>0xFFFFFFFF\<close>, with the access bytes of kernel and user code and data; the task register
  selects the descriptor whose base is the task state segment; the register loaded by \<^verbatim>\<open>lgdt\<close> covers
  exactly the six entries; ring-0 entries use the kernel data segment.
\<close>

theorem gdt_init_correct:
  assumes "length (gdt_entries s) = 6"
  shows "let t = gdt_init gdt_addr tss_addr s in
     (\<forall>i \<in> {1, 2, 3, 4}. gate_base (gdt_entries t ! i) = 0 \<and>
            gate_last_byte (gdt_entries t ! i) = 0xFFFFFFFF) \<and>
     map access (gdt_entries t) = [0, 0x9A, 0x92, 0xFA, 0xF2, 0xE9] \<and>
     gate_base (gdt_entries t ! unat (drop_bit 3 (task_reg t))) = tss_addr \<and>
     gate_last_byte (gdt_entries t ! 5) = (tss_addr + sizeof_tss) AND 0xFFFFF \<and>
     gdtr t = (of_nat (8 * length (gdt_entries t) - 1), gdt_addr) \<and>
     tss_ss0 (tss t) = KERNEL_DS \<and> seg_cs t = 0x08"
proof -
  let ?t = "gdt_init gdt_addr tss_addr s"
  have g: "gdt_entries ?t = [gdt_gate 0 0 0 0, gdt_gate 0 0xFFFFFFFF 0x9A 0xCF,
      gdt_gate 0 0xFFFFFFFF 0x92 0xCF, gdt_gate 0 0xFFFFFFFF 0xFA 0xCF,
      gdt_gate 0 0xFFFFFFFF 0xF2 0xCF, gdt_gate tss_addr (tss_addr + 104) 0xE9 0]"
    using assms by (simp add: gdt_init_entries)
  have r: "task_reg ?t = 0x2B" "gdtr ?t = (47, gdt_addr)" "seg_cs ?t = 8" "tss_ss0 (tss ?t) = 0x10"
    by (simp_all add: gdt_init_def tss_init_def gdt_set_gate_def gdt_flush_def tss_flush_def Let_def)
  have "gate_last_byte (gdt_gate tss_addr (tss_addr + 104) 0xE9 0) = (tss_addr + 104) AND 0xFFFFF"
  proof -
    have "\<not> bit (granularity (gdt_gate tss_addr (tss_addr + 104) 0xE9 0)) 7"
      by (simp add: gdt_gate_def mask_nums bit_simps)
    then show ?thesis by (simp add: gate_last_byte_def gate_limit_gate)
  qed
  moreover have "map access (gdt_entries ?t) = [0, 0x9A, 0x92, 0xFA, 0xF2, 0xE9]"
    unfolding g by (simp add: gdt_gate_def)
  moreover have "\<forall>i \<in> {1, 2, 3, 4}. gate_base (gdt_entries ?t ! i) = 0 \<and>
      gate_last_byte (gdt_entries ?t ! i) = 0xFFFFFFFF"
    unfolding g by (simp add: gate_base_gate flat_segment)
  moreover have "gate_base (gdt_entries ?t ! unat (drop_bit 3 (task_reg ?t))) = tss_addr"
    unfolding g r by (simp add: gate_base_gate)
  moreover have "gdtr ?t = (of_nat (8 * length (gdt_entries ?t) - 1), gdt_addr)"
    unfolding g r by simp
  moreover have "gdt_entries ?t ! 5 = gdt_gate tss_addr (tss_addr + 104) 0xE9 0"
    unfolding g by simp
  ultimately show ?thesis
    unfolding Let_def r sizeof_tss_def by presburger
qed

theorem gdt_init_correct_witness:
  "map access (gdt_entries (gdt_init 0x8000 0x9000 boot_gdt)) = [0, 0x9A, 0x92, 0xFA, 0xF2, 0xE9]"
  using gdt_init_correct [OF length_boot_gdt] unfolding Let_def by blast

lemma shifted_residue: "(r :: nat) < m \<Longrightarrow> 104 < m \<Longrightarrow> (r + 104) mod m = 103 \<Longrightarrow> r = m - 1"
  by (cases "r + 104 < m") (auto simp: le_mod_geq)

text \<open>
  The limit of a segment is the offset of its last byte, so the descriptor of the
  104-byte task state segment needs the limit 103; \<^verbatim>\<open>tss_init\<close> adds the segment's base.
\<close>

theorem tss_limit_includes_base:
  assumes "length (gdt_entries s) = 6" "unat tss_addr mod 0x100000 \<noteq> 0xFFFFF"
  shows "gate_limit (gdt_entries (gdt_init gdt_addr tss_addr s) ! 5) \<noteq> sizeof_tss - 1"
proof
  assume "gate_limit (gdt_entries (gdt_init gdt_addr tss_addr s) ! 5) = sizeof_tss - 1"
  then have "take_bit 20 (tss_addr + 104) = 103"
    using assms(1) by (simp add: gdt_init_entries gate_limit_gate sizeof_tss_def mask_nums take_bit_eq_mask)
  then have "unat (take_bit 20 (tss_addr + 104)) = 103" by simp
  then have "take_bit 20 (unat (tss_addr + 104)) = 103"
    by (simp only: unsigned_take_bit_eq)
  then have "unat (tss_addr + 104) mod 0x100000 = 103"
    unfolding take_bit_eq_mod by simp
  moreover have "unat (tss_addr + 104) = (unat tss_addr + 104) mod 0x100000000"
    by (simp add: unat_word_ariths)
  moreover have "(unat tss_addr + 104) mod 0x100000000 mod 0x100000 = (unat tss_addr + 104) mod 0x100000"
    by (rule mod_mod_cancel) simp
  ultimately have "(unat tss_addr mod 0x100000 + 104) mod 0x100000 = 103"
    by (simp add: mod_add_left_eq)
  then have "unat tss_addr mod 0x100000 = 0x100000 - 1"
    by (rule shifted_residue [rotated 2]) simp_all
  then show False using assms(2) by simp
qed

theorem tss_limit_includes_base_witness:
  "gate_limit (gdt_entries (gdt_init 0x8000 0x9000 boot_gdt) ! 5) \<noteq> sizeof_tss - 1"
  by (rule tss_limit_includes_base [OF length_boot_gdt]) simp

end
