(* ===== verification/Idt.thy ===== *)
theory Idt
  imports Gdt
begin

text \<open>
  The interrupt descriptor table, the interrupt controller set-up and the two C entry
  points of every interrupt, \<^verbatim>\<open>kernel/cpu/idt.c\<close> with the types of
  \<^verbatim>\<open>kernel/include/cpu/idt.h\<close>. The addresses of the assembly stubs are arguments.
  A registered handler is one of the three functions the kernel passes to
  \<^verbatim>\<open>isr_register_handler\<close>; the entry points take the meaning of a handler as an argument.
\<close>

section \<open>State\<close>

record idt_entry_t =
  idt_base_low :: u16
  idt_sel :: u16
  idt_always0 :: u8
  idt_flags :: u8
  idt_base_high :: u16

record registers_t =
  r_ds :: u32
  r_edi :: u32
  r_esi :: u32
  r_ebp :: u32
  r_useless_esp :: u32
  r_ebx :: u32
  r_edx :: u32
  r_ecx :: u32
  r_eax :: u32
  r_int_no :: u32
  r_err_code :: u32
  r_eip :: u32
  r_cs :: u32
  r_eflags :: u32
  r_esp :: u32
  r_ss :: u32

datatype isr_handler_t = Timer_callback | Keyboard_callback | Syscall_handler

record kidt = kgdt +
  idt_entries :: "u8 \<Rightarrow> idt_entry_t"
  idt_ptr :: "u16 \<times> u32"
  isr_handlers :: "u32 \<Rightarrow> isr_handler_t option"

definition zero_idt_entry :: idt_entry_t where
  "zero_idt_entry = \<lparr>idt_base_low = 0, idt_sel = 0, idt_always0 = 0, idt_flags = 0,
     idt_base_high = 0\<rparr>"

definition boot_idt :: kidt where
  "boot_idt = kgdt.extend boot_gdt (kidt.fields (\<lambda>_. zero_idt_entry) (0, 0) (\<lambda>_. None))"

definition exception_messages :: "string list" where
  "exception_messages =
     [''Division By Zero'', ''Debug'', ''Non Maskable Interrupt'', ''Breakpoint'', ''Overflow'',
      ''Bound Range Exceeded'', ''Invalid Opcode'', ''Device Not Available'', ''Double Fault'',
      ''Coprocessor Segment Overrun'', ''Invalid TSS'', ''Segment Not Present'',
      ''Stack-Segment Fault'', ''General Protection Fault'', ''Page Fault'', ''Reserved'',
      ''x87 Floating-Point Exception'', ''Alignment Check'', ''Machine Check'',
      ''SIMD Floating-Point Exception'', ''Virtualization Exception'',
      ''Control Protection Exception'', ''Reserved'', ''Reserved'', ''Reserved'', ''Reserved'',
      ''Reserved'', ''Reserved'', ''Hypervisor Injection Exception'',
      ''VMM Communication Exception'', ''Security Exception'', ''Reserved'']"

section \<open>Operations\<close>

definition idt_gate :: "u32 \<Rightarrow> u16 \<Rightarrow> u8 \<Rightarrow> idt_entry_t" where
  "idt_gate base sel flags =
     \<lparr>idt_base_low = ucast (base AND 0xFFFF), idt_sel = sel, idt_always0 = 0,
      idt_flags = flags OR 0x60, idt_base_high = ucast (drop_bit 16 base AND 0xFFFF)\<rparr>"

definition idt_set_gate ::
  "u8 \<Rightarrow> u32 \<Rightarrow> u16 \<Rightarrow> u8 \<Rightarrow> 'a kidt_scheme \<Rightarrow> 'a kidt_scheme" where
  "idt_set_gate num base sel flags s =
     s\<lparr>idt_entries := (idt_entries s)(num := idt_gate base sel flags)\<rparr>"

fun out_wait :: "(u16 \<times> u8) list \<Rightarrow> 'a kmach_scheme \<Rightarrow> 'a kmach_scheme" where
  "out_wait [] s = s"
| "out_wait ((p, v) # ops) s = out_wait ops (io_wait (outb p v s))"

definition pic_remap :: "'a kmach_scheme \<Rightarrow> 'a kmach_scheme" where
  "pic_remap s = out_wait
     [(0x20, 0x11), (0xA0, 0x11), (0x21, 0x20), (0xA1, 0x28), (0x21, 0x04),
      (0xA1, 0x02), (0x21, 0x01), (0xA1, 0x01), (0x21, 0x00), (0xA1, 0x00)] s"

definition idt_init ::
  "u32 \<Rightarrow> (nat \<Rightarrow> u32) \<Rightarrow> (nat \<Rightarrow> u32) \<Rightarrow> 'a kidt_scheme \<Rightarrow> 'a kidt_scheme" where
  "idt_init idt_addr isr irq s =
     (let s1 = s\<lparr>idt_ptr := (8 * 256 - 1, idt_addr),
                 idt_entries := (\<lambda>_. zero_idt_entry), isr_handlers := (\<lambda>_. None)\<rparr>;
          s2 = pic_remap s1;
          s3 = fold (\<lambda>i. idt_set_gate (of_nat i) (isr i) 0x08 0x8E) [0..<32] s2;
          s4 = fold (\<lambda>i. idt_set_gate (of_nat (32 + i)) (irq i) 0x08 0x8E) [0..<16] s3;
          s5 = idt_set_gate 128 (isr 128) 0x08 0xEE s4
      in idt_flush (idt_ptr s5) s5)"

definition isr_register_handler ::
  "u8 \<Rightarrow> isr_handler_t \<Rightarrow> 'a kidt_scheme \<Rightarrow> 'a kidt_scheme" where
  "isr_register_handler n h s = s\<lparr>isr_handlers := (isr_handlers s)(ucast n \<mapsto> h)\<rparr>"

text \<open>
  An interrupt entry either returns to the interrupted code, with the register frame the
  handler left behind, or halts the machine in the panic loop with interrupts off.
\<close>

datatype 's isr_result = Returned registers_t 's | Halted 's

definition panic_report :: "registers_t \<Rightarrow> 'a kcon_scheme \<Rightarrow> 'a kcon_scheme" where
  "panic_report regs s =
     (let s1 = kprintf (litln ''KERNEL PANIC: %s (int %d, err %x)'')
            [VStr (lit (exception_messages ! unat (r_int_no regs))),
             VInt (r_int_no regs), VInt (r_err_code regs)] s;
          s2 = kprintf (litln ''  EIP=%x CS=%x EFLAGS=%x'')
            [VInt (r_eip regs), VInt (r_cs regs), VInt (r_eflags regs)] s1;
          s3 = kprintf (litln ''  EAX=%x EBX=%x ECX=%x EDX=%x'')
            [VInt (r_eax regs), VInt (r_ebx regs), VInt (r_ecx regs), VInt (r_edx regs)] s2
      in kprintf (litln ''  ESP=%x EBP=%x ESI=%x EDI=%x'')
           [VInt (r_esp regs), VInt (r_ebp regs), VInt (r_esi regs), VInt (r_edi regs)] s3)"

definition isr_handler ::
  "(isr_handler_t \<Rightarrow> registers_t \<Rightarrow> 'a kidt_scheme \<Rightarrow> registers_t \<times> 'a kidt_scheme) \<Rightarrow>
   registers_t \<Rightarrow> 'a kidt_scheme \<Rightarrow> 'a kidt_scheme isr_result" where
  "isr_handler call regs s =
     (case isr_handlers s (r_int_no regs) of
        Some h \<Rightarrow> (case call h regs s of (regs', s') \<Rightarrow> Returned regs' s')
      | None \<Rightarrow>
          if r_int_no regs < 32 then Halted (cli (panic_report regs s)) else Returned regs s)"

definition irq_handler ::
  "(isr_handler_t \<Rightarrow> registers_t \<Rightarrow> 'a kidt_scheme \<Rightarrow> registers_t \<times> 'a kidt_scheme) \<Rightarrow>
   registers_t \<Rightarrow> 'a kidt_scheme \<Rightarrow> registers_t \<times> 'a kidt_scheme" where
  "irq_handler call regs s =
     (let s1 = (if r_int_no regs \<ge> 40 then outb 0xA0 0x20 s else s);
          s2 = outb 0x20 0x20 s1
      in case isr_handlers s2 (r_int_no regs) of
           Some h \<Rightarrow> call h regs s2
         | None \<Rightarrow> (regs, s2))"

text \<open>What the processor reads out of a gate: the handler's address, its privilege.\<close>

definition idt_gate_base :: "idt_entry_t \<Rightarrow> u32" where
  "idt_gate_base e = ucast (idt_base_low e) OR push_bit 16 (ucast (idt_base_high e))"

definition idt_gate_present :: "idt_entry_t \<Rightarrow> bool" where
  "idt_gate_present e = bit (idt_flags e) 7"

definition idt_gate_dpl :: "idt_entry_t \<Rightarrow> u8" where
  "idt_gate_dpl e = drop_bit 5 (idt_flags e) AND 3"

section \<open>Console output leaves the tables alone\<close>

lemma kprintf_idt [simp]:
  "idt_entries (kprintf f a s) = idt_entries s" "idt_ptr (kprintf f a s) = idt_ptr s"
  "isr_handlers (kprintf f a s) = isr_handlers s" "kidt.more (kprintf f a s) = kidt.more s"
  by (subst kprintf_eq; simp)+

section \<open>Gates\<close>

lemma idt_gate_base_gate: "idt_gate_base (idt_gate base sel flags) = base"
proof (rule bit_word_eqI)
  fix n assume "n < LENGTH(32)"
  then consider "n < 16" | "16 \<le> n" "n < 32" by fastforce
  then show "bit (idt_gate_base (idt_gate base sel flags)) n = bit base n"
    by cases (simp_all add: idt_gate_base_def idt_gate_def mask_nums bit_simps less_diff_conv2)
qed

lemma out_wait_eq:
  "out_wait ops s = s\<lparr>port_log := port_log s @ concat (map (\<lambda>(p, v). [(p, v), (0x80, 0)]) ops)\<rparr>"
  by (induction ops arbitrary: s) (auto simp: outb_def io_wait_def)

lemma set_gates_eq:
  "fold (\<lambda>i. idt_set_gate (f i) (a i) sel flags) is s
     = s\<lparr>idt_entries := fold (\<lambda>i e. e(f i := idt_gate (a i) sel flags)) is (idt_entries s)\<rparr>"
  by (induction "is" arbitrary: s) (simp_all add: idt_set_gate_def)

lemma set_gates_entries:
  "b + k \<le> 256 \<Longrightarrow>
   fold (\<lambda>i e. e(of_nat (b + i) := idt_gate (a i) sel flags)) [0..<k] e0 (n :: u8) =
     (if b \<le> unat n \<and> unat n < b + k then idt_gate (a (unat n - b)) sel flags else e0 n)"
proof (induction k)
  case (Suc k)
  have "unat (of_nat (b + k) :: u8) = b + k"
    using Suc.prems by (simp add: unat_of_nat del: of_nat_add)
  then have "n = of_nat (b + k) \<longleftrightarrow> unat n = b + k"
    by (simp only: word_unat_eq_iff)
  then show ?case using Suc by auto
qed auto

lemma idt_init_eq:
  "idt_init idt_addr isr irq s = s\<lparr>
     port_log := port_log (pic_remap s), idtr := (0x7FF, idt_addr),
     idt_entries := (\<lambda>n. if n = 128 then idt_gate (isr 128) 0x08 0xEE
        else if unat n < 32 then idt_gate (isr (unat n)) 0x08 0x8E
        else if unat n < 48 then idt_gate (irq (unat n - 32)) 0x08 0x8E
        else zero_idt_entry),
     idt_ptr := (0x7FF, idt_addr), isr_handlers := (\<lambda>_. None)\<rparr>"
proof -
  define e1 :: "u8 \<Rightarrow> idt_entry_t" where
    "e1 = fold (\<lambda>i e. e(of_nat i := idt_gate (isr i) 0x08 0x8E)) [0..<32] (\<lambda>_. zero_idt_entry)"
  define e2 :: "u8 \<Rightarrow> idt_entry_t" where
    "e2 = fold (\<lambda>i e. e(of_nat (32 + i) := idt_gate (irq i) 0x08 0x8E)) [0..<16] e1"
  have "e1 n = (if unat n < 32 then idt_gate (isr (unat n)) 0x08 0x8E else zero_idt_entry)" for n
    using set_gates_entries [of 0 32 isr "0x08" "0x8E" "\<lambda>_. zero_idt_entry" n]
    by (simp add: e1_def del: upt_rec_numeral)
  moreover have "e2 n = (if 32 \<le> unat n \<and> unat n < 48
      then idt_gate (irq (unat n - 32)) 0x08 0x8E else e1 n)" for n
    using set_gates_entries [of 32 16 irq "0x08" "0x8E" e1 n] by (simp add: e2_def del: upt_rec_numeral)
  ultimately have "e2(128 := idt_gate (isr 128) 0x08 0xEE) =
     (\<lambda>n. if n = 128 then idt_gate (isr 128) 0x08 0xEE
        else if unat n < 32 then idt_gate (isr (unat n)) 0x08 0x8E
        else if unat n < 48 then idt_gate (irq (unat n - 32)) 0x08 0x8E
        else zero_idt_entry)"
    by (intro ext) simp
  then show ?thesis
    unfolding idt_init_def Let_def set_gates_eq pic_remap_def out_wait_eq
    by (simp add: idt_set_gate_def idt_flush_def e1_def [symmetric] e2_def [symmetric, simplified]
        del: upt_rec_numeral)
qed

text \<open>
  C40: After \<^verbatim>\<open>idt_init\<close> exactly the vectors 0 to 47 and 128 have a present gate; each leads to the
  stub of its own number (the interrupt requests 0 to 15 to the vectors 32 to 47); the register loaded
  by \<^verbatim>\<open>lidt\<close> covers the table; no handler is registered. Every present gate can be raised from
  ring 3, because \<^verbatim>\<open>idt_set_gate\<close> sets both privilege bits in all of them.
\<close>

theorem idt_init_correct:
  fixes n :: u8
  shows "let t = idt_init idt_addr isr irq s; e = idt_entries t n in
     (idt_gate_present e \<longleftrightarrow> unat n < 48 \<or> n = 128) \<and>
     (unat n < 32 \<or> n = 128 \<longrightarrow> idt_gate_base e = isr (unat n)) \<and>
     (32 \<le> unat n \<and> unat n < 48 \<longrightarrow> idt_gate_base e = irq (unat n - 32)) \<and>
     (idt_gate_present e \<longrightarrow> idt_gate_dpl e = 3) \<and>
     idtr t = (0x7FF, idt_addr) \<and> isr_handlers t = (\<lambda>_. None)"
proof -
  have "idt_gate_present (idt_gate b sel 0x8E)" "idt_gate_present (idt_gate b sel 0xEE)"
    "\<not> idt_gate_present zero_idt_entry"
    "idt_gate_dpl (idt_gate b sel 0x8E) = 3" "idt_gate_dpl (idt_gate b sel 0xEE) = 3" for b sel
    by (simp_all add: idt_gate_present_def idt_gate_def zero_idt_entry_def idt_gate_dpl_def)
  then show ?thesis
    unfolding Let_def idt_init_eq by (simp add: idt_gate_base_gate)
qed

theorem idt_init_correct_witness:
  "idt_gate_base (idt_entries (idt_init 0x8000 (\<lambda>i. of_nat i * 16) (\<lambda>i. of_nat i * 16 + 0x1000) boot_idt) 33) =
     0x1010"
  using idt_init_correct [of "0x8000" "\<lambda>i. of_nat i * 16" "\<lambda>i. of_nat i * 16 + 0x1000" boot_idt 33]
  unfolding Let_def by simp

section \<open>Interrupt entry points\<close>

lemma exception_messages_total: "r_int_no regs < 32 \<Longrightarrow> unat (r_int_no regs) < length exception_messages"
  by (simp add: exception_messages_def word_less_nat_alt)

text \<open>
  \<^verbatim>\<open>isr_handler\<close> halts the machine exactly for a vector that has no registered handler and has a
  message in \<^verbatim>\<open>exception_messages\<close>: the panic path never reads past that array, and every other interrupt
  returns.
\<close>

theorem isr_handler_halts_iff:
  "(\<exists>t. isr_handler call regs s = Halted t) \<longleftrightarrow>
     isr_handlers s (r_int_no regs) = None \<and> unat (r_int_no regs) < length exception_messages"
  by (auto simp: isr_handler_def exception_messages_def word_less_nat_alt
      split: option.splits prod.splits)

end
