(* ===== verification/Pmm.thy ===== *)
theory Pmm
  imports Idt
begin

text \<open>
  The physical memory manager, \<^verbatim>\<open>kernel/memory/pmm.c\<close>: one bit per 4 KiB frame, set when
  the frame is in use, and the boot-time scan of the multiboot memory map
  (\<^verbatim>\<open>kernel/include/boot/multiboot.h\<close>). The bitmap is indexed by bytes; the invariant
  bounds every index by \<^verbatim>\<open>BITMAP_SIZE\<close>.
\<close>

section \<open>State\<close>

record multiboot_info_t =
  mb_flags :: u32
  mb_mem_lower :: u32
  mb_mem_upper :: u32
  mb_boot_device :: u32
  mb_cmdline :: u32
  mb_mods_count :: u32
  mb_mods_addr :: u32
  mb_syms :: "u32 list"
  mb_mmap_length :: u32
  mb_mmap_addr :: u32
  mb_drives_length :: u32
  mb_drives_addr :: u32
  mb_config_table :: u32
  mb_boot_loader_name :: u32
  mb_apm_table :: u32

record multiboot_mmap_entry_t =
  mm_size :: u32
  mm_addr :: u64
  mm_len :: u64
  mm_type :: u32

record kpmm = kidt +
  frame_bitmap :: "u32 \<Rightarrow> u8"
  total_frames :: u32
  used_frames :: u32

definition boot_pmm :: kpmm where
  "boot_pmm = kidt.extend boot_idt (kpmm.fields (\<lambda>_. 0) 0 0)"

definition BITMAP_SIZE :: u32 where
  "BITMAP_SIZE = 131072 div 8"

section \<open>The bitmap\<close>

definition bitmap_set :: "u32 \<Rightarrow> 'a kpmm_scheme \<Rightarrow> 'a kpmm_scheme" where
  "bitmap_set i s = s\<lparr>frame_bitmap := (frame_bitmap s)
     (i div 8 := frame_bitmap s (i div 8) OR push_bit (unat (i mod 8)) 1)\<rparr>"

definition bitmap_clear :: "u32 \<Rightarrow> 'a kpmm_scheme \<Rightarrow> 'a kpmm_scheme" where
  "bitmap_clear i s = s\<lparr>frame_bitmap := (frame_bitmap s)
     (i div 8 := frame_bitmap s (i div 8) AND NOT (push_bit (unat (i mod 8)) 1))\<rparr>"

definition bitmap_test :: "u32 \<Rightarrow> 'a kpmm_scheme \<Rightarrow> bool" where
  "bitmap_test i s \<longleftrightarrow> drop_bit (unat (i mod 8)) (frame_bitmap s (i div 8)) AND 1 \<noteq> 0"

fun find_free_bytes :: "(u32 \<Rightarrow> u8) \<Rightarrow> nat list \<Rightarrow> u32" where
  "find_free_bytes fb [] = - 1"
| "find_free_bytes fb (i # is) =
     (if fb (of_nat i) \<noteq> 0xFF then
        (case find (\<lambda>j. fb (of_nat i) AND push_bit j 1 = 0) [0..<8] of
           Some j \<Rightarrow> of_nat i * 8 + of_nat j
         | None \<Rightarrow> find_free_bytes fb is)
      else find_free_bytes fb is)"

definition bitmap_find_free :: "'a kpmm_scheme \<Rightarrow> u32" where
  "bitmap_find_free s = find_free_bytes (frame_bitmap s) [0..<unat (total_frames s div 8)]"

section \<open>Boot-time initialisation\<close>

definition mmap_entry_at :: "mem \<Rightarrow> u32 \<Rightarrow> multiboot_mmap_entry_t" where
  "mmap_entry_at m a = \<lparr>mm_size = load32 m a, mm_addr = load64 m (a + 4),
     mm_len = load64 m (a + 12), mm_type = load32 m (a + 20)\<rparr>"

text \<open>
  The entries both loops over the memory map visit, in order. Each entry says how far the
  next one is; a map whose sizes make the pointer wrap for ever has no result.
\<close>

partial_function (option) mmap_entries ::
  "mem \<Rightarrow> u32 \<Rightarrow> u32 \<Rightarrow> multiboot_mmap_entry_t list option" where
  "mmap_entries m a mmap_end =
     (if a < mmap_end then
        Option.bind (mmap_entries m (a + load32 m a + 4) mmap_end)
          (\<lambda>es. Some (mmap_entry_at m a # es))
      else Some [])"

definition mmap_mem_end :: "multiboot_mmap_entry_t list \<Rightarrow> u32" where
  "mmap_mem_end es =
     fold (\<lambda>e mem_end. let region_end = ucast (mm_addr e + mm_len e)
                        in if region_end > mem_end then region_end else mem_end) es 0"

definition clamp_frames :: "u32 \<Rightarrow> u32" where
  "clamp_frames n = (if n > BITMAP_SIZE * 8 then BITMAP_SIZE * 8 else n)"

definition region_start :: "multiboot_mmap_entry_t \<Rightarrow> u32" where
  "region_start e = (ucast (mm_addr e) + PAGE_SIZE - 1) div PAGE_SIZE"

definition region_end :: "multiboot_mmap_entry_t \<Rightarrow> u32" where
  "region_end e = (ucast (mm_addr e) + ucast (mm_len e)) div PAGE_SIZE"

text \<open>The frames the inner loop of the second pass frees for an entry.\<close>

definition region_frames :: "u32 \<Rightarrow> multiboot_mmap_entry_t \<Rightarrow> nat list" where
  "region_frames tot e =
     (if mm_type e = 1
      then [unat (region_start e)..<min (unat (region_end e)) (unat tot)] else [])"

definition release_frame :: "nat \<Rightarrow> 'a kpmm_scheme \<Rightarrow> 'a kpmm_scheme" where
  "release_frame f s =
     (let s1 = bitmap_clear (of_nat f) s in s1\<lparr>used_frames := used_frames s1 - 1\<rparr>)"

definition reserve_frame :: "nat \<Rightarrow> 'a kpmm_scheme \<Rightarrow> 'a kpmm_scheme" where
  "reserve_frame f s =
     (if \<not> bitmap_test (of_nat f) s
      then let s1 = bitmap_set (of_nat f) s in s1\<lparr>used_frames := used_frames s1 + 1\<rparr>
      else s)"

definition pmm_init :: "multiboot_info_t \<Rightarrow> 'a kpmm_scheme \<Rightarrow> 'a kpmm_scheme option" where
  "pmm_init mbi s =
     (let s1 = s\<lparr>frame_bitmap := (\<lambda>_. 0xFF), total_frames := 0, used_frames := 0\<rparr>
      in if mb_flags mbi AND 0x20 = 0 then
           (let mem_kb = mb_mem_upper mbi + 1024;
                tot = clamp_frames (mem_kb div 4);
                s2 = s1\<lparr>total_frames := tot, frame_bitmap := (\<lambda>_. 0xFF), used_frames := tot\<rparr>
            in Some (kprintf (litln ''[PMM] Memory: %u KB, %u frames (no mmap)'')
                       [VInt mem_kb, VInt tot] s2))
         else
           do {
             es \<leftarrow> mmap_entries (mem s1) (mb_mmap_addr mbi) (mb_mmap_addr mbi + mb_mmap_length mbi);
             let tot = clamp_frames (mmap_mem_end es div PAGE_SIZE);
             let s2 = s1\<lparr>total_frames := tot, frame_bitmap := (\<lambda>_. 0xFF), used_frames := tot\<rparr>;
             let s3 = fold (\<lambda>e. fold release_frame (region_frames tot e)) es s2;
             let s4 = fold reserve_frame [0..<256] s3;
             Some (kprintf (litln ''[PMM] Total: %u frames, Used: %u, Free: %u'')
               [VInt (total_frames s4), VInt (used_frames s4),
                VInt (total_frames s4 - used_frames s4)] s4)
           })"

section \<open>Frames\<close>

definition pmm_alloc_frame :: "'a kpmm_scheme \<Rightarrow> u32 \<times> 'a kpmm_scheme" where
  "pmm_alloc_frame s =
     (let frame = bitmap_find_free s
      in if frame = - 1
         then (0, kprintf (litln ''[PMM] ERROR: Out of physical memory!'') [] s)
         else let s1 = bitmap_set frame s
              in (frame * PAGE_SIZE, s1\<lparr>used_frames := used_frames s1 + 1\<rparr>))"

definition pmm_free_frame :: "u32 \<Rightarrow> 'a kpmm_scheme \<Rightarrow> 'a kpmm_scheme" where
  "pmm_free_frame frame_addr s =
     (let frame = frame_addr div PAGE_SIZE
      in if frame < total_frames s \<and> bitmap_test frame s
         then let s1 = bitmap_clear frame s in s1\<lparr>used_frames := used_frames s1 - 1\<rparr>
         else s)"

definition pmm_mark_used :: "u32 \<Rightarrow> 'a kpmm_scheme \<Rightarrow> 'a kpmm_scheme" where
  "pmm_mark_used frame_addr s =
     (let frame = frame_addr div PAGE_SIZE
      in if frame < total_frames s \<and> \<not> bitmap_test frame s
         then let s1 = bitmap_set frame s in s1\<lparr>used_frames := used_frames s1 + 1\<rparr>
         else s)"

definition pmm_mark_free :: "u32 \<Rightarrow> 'a kpmm_scheme \<Rightarrow> 'a kpmm_scheme" where
  "pmm_mark_free frame_addr s = pmm_free_frame frame_addr s"

definition pmm_get_total_frames :: "'a kpmm_scheme \<Rightarrow> u32" where
  "pmm_get_total_frames s = total_frames s"

definition pmm_get_used_frames :: "'a kpmm_scheme \<Rightarrow> u32" where
  "pmm_get_used_frames s = used_frames s"

definition pmm_get_free_frames :: "'a kpmm_scheme \<Rightarrow> u32" where
  "pmm_get_free_frames s = total_frames s - used_frames s"

text \<open>The frames that are free, and the invariant of the counters.\<close>

definition free_set :: "'a kpmm_scheme \<Rightarrow> nat set" where
  "free_set s = {f. f < unat (total_frames s) \<and> \<not> bitmap_test (of_nat f) s}"

definition pmm_ok :: "'a kpmm_scheme \<Rightarrow> bool" where
  "pmm_ok s \<longleftrightarrow> unat (total_frames s) \<le> 131072 \<and>
     unat (used_frames s) + card (free_set s) = unat (total_frames s)"

text \<open>The frames the byte-wise scan of the bitmap looks at.\<close>

definition scanned :: "'a kpmm_scheme \<Rightarrow> nat" where
  "scanned s = 8 * (unat (total_frames s) div 8)"

section \<open>Bits\<close>

lemma kprintf_pmm [simp]:
  "frame_bitmap (kprintf f a s) = frame_bitmap s" "total_frames (kprintf f a s) = total_frames s"
  "used_frames (kprintf f a s) = used_frames s" "kpmm.more (kprintf f a s) = kpmm.more s"
  by (subst kprintf_eq; simp)+

lemma bitmap_test_bit: "bitmap_test i s \<longleftrightarrow> bit (frame_bitmap s (i div 8)) (unat (i mod 8))"
  by (simp add: bitmap_test_def bit_iff_odd_drop_bit and_one_eq mod_2_eq_odd)

lemma unat_mod8: "unat (i mod 8 :: u32) < 8"
proof -
  have "unat (i mod 8) = unat i mod unat (8 :: u32)" by (rule unat_mod)
  then show ?thesis by simp
qed

lemma word_div_mod_eq: "(i :: u32) div 8 = j div 8 \<Longrightarrow> unat (i mod 8) = unat (j mod 8) \<Longrightarrow> i = j"
  by (metis div_mult_mod_eq word_unat_eq_iff)

lemma byte_set_bit: "n < 8 \<Longrightarrow> k < 8 \<Longrightarrow> bit ((x :: u8) OR push_bit k 1) n = (n = k \<or> bit x n)"
  by (auto simp: bit_simps)

lemma byte_clear_bit:
  "n < 8 \<Longrightarrow> k < 8 \<Longrightarrow> bit ((x :: u8) AND NOT (push_bit k 1)) n = (n \<noteq> k \<and> bit x n)"
  by (auto simp: bit_simps)

lemma bitmap_test_set [simp]: "bitmap_test j (bitmap_set i s) \<longleftrightarrow> j = i \<or> bitmap_test j s"
proof (cases "j div 8 = i div 8")
  case True
  then have "unat (j mod 8) = unat (i mod 8) \<longleftrightarrow> j = i" using word_div_mod_eq by blast
  with True show ?thesis
    by (simp add: bitmap_test_bit bitmap_set_def byte_set_bit [simplified] unat_mod8)
qed (auto simp: bitmap_test_bit bitmap_set_def)

lemma bitmap_test_clear [simp]: "bitmap_test j (bitmap_clear i s) \<longleftrightarrow> j \<noteq> i \<and> bitmap_test j s"
proof (cases "j div 8 = i div 8")
  case True
  then have "unat (j mod 8) = unat (i mod 8) \<longleftrightarrow> j = i" using word_div_mod_eq by blast
  with True show ?thesis
    by (simp add: bitmap_test_bit bitmap_clear_def byte_clear_bit [simplified] unat_mod8)
qed (auto simp: bitmap_test_bit bitmap_clear_def)

lemma bitmap_frames [simp]:
  "total_frames (bitmap_set i s) = total_frames s" "used_frames (bitmap_set i s) = used_frames s"
  "total_frames (bitmap_clear i s) = total_frames s" "used_frames (bitmap_clear i s) = used_frames s"
  by (simp_all add: bitmap_set_def bitmap_clear_def)

lemma bitmap_test_upd [simp]:
  "bitmap_test i (s\<lparr>used_frames := u\<rparr>) = bitmap_test i s"
  "bitmap_test i (kprintf f a s) = bitmap_test i s"
  by (simp_all add: bitmap_test_def)

section \<open>The scan\<close>

lemma byte_not_full: "(x :: u8) \<noteq> 0xFF \<Longrightarrow> \<exists>j < 8. \<not> bit x j"
proof (rule ccontr)
  assume "x \<noteq> 0xFF" and "\<not> (\<exists>j < 8. \<not> bit x j)"
  then have "x = mask 8" by (intro bit_word_eqI) (auto simp: bit_simps)
  then show False using \<open>x \<noteq> 0xFF\<close> by (simp add: mask_eq_exp_minus_1)
qed

lemma and_push_bit_0: "j < 8 \<Longrightarrow> (x :: u8) AND push_bit j 1 = 0 \<longleftrightarrow> \<not> bit x j"
proof
  assume j: "j < 8" and "x AND push_bit j 1 = 0"
  then have "\<not> bit (x AND push_bit j 1) j" by simp
  then show "\<not> bit x j" using j by (simp add: bit_simps)
next
  assume "j < 8" "\<not> bit x j"
  then show "x AND push_bit j 1 = 0" by (intro bit_word_eqI) (auto simp: bit_simps)
qed

lemma test_byte:
  assumes "j < 8" "i < 2 ^ 29"
  shows "bitmap_test (of_nat (8 * i + j)) s \<longleftrightarrow> bit (frame_bitmap s (of_nat i)) j"
proof -
  let ?f = "of_nat (8 * i + j) :: u32"
  have u: "unat ?f = 8 * i + j" using assms by (intro unat_of_nat32) simp
  have "unat (?f div 8) = unat ?f div unat (8 :: u32)" by (rule unat_div)
  then have "unat (?f div 8) = i" unfolding u using assms by simp
  moreover have "unat (of_nat i :: u32) = i" using assms by (intro unat_of_nat32) simp
  ultimately have "?f div 8 = of_nat i" by (simp only: word_unat_eq_iff)
  moreover have "unat (?f mod 8) = unat ?f mod unat (8 :: u32)" by (rule unat_mod)
  then have "unat (?f mod 8) = j" unfolding u using assms by simp
  ultimately show ?thesis by (simp only: bitmap_test_bit)
qed


lemma find_append:
  "find P (xs @ ys) = (case find P xs of Some x \<Rightarrow> Some x | None \<Rightarrow> find P ys)"
  by (induction xs) auto

lemma find_map: "find P (map g xs) = map_option g (find (\<lambda>x. P (g x)) xs)"
  by (induction xs) auto

lemma upt_byte: "[8 * i..<8 * i + 8] = map (\<lambda>j. 8 * i + j) [0..<8]"
  by (simp add: map_add_upt add.commute del: upt_rec_numeral)

lemma find_in_byte:
  assumes "i < 2 ^ 29"
  shows "find (\<lambda>f. \<not> bitmap_test (of_nat f) s) [8 * i..<8 * i + 8] =
     map_option (\<lambda>j. 8 * i + j) (find (\<lambda>j. frame_bitmap s (of_nat i) AND push_bit j 1 = 0) [0..<8])"
proof -
  have "find (\<lambda>j. \<not> bitmap_test (of_nat (8 * i + j)) s) [0..<8]
      = find (\<lambda>j. frame_bitmap s (of_nat i) AND push_bit j 1 = 0) [0..<8]"
    using assms by (intro find_cong refl) (simp add: test_byte and_push_bit_0 del: of_nat_add push_bit_of_1)
  then show ?thesis by (simp only: upt_byte find_map)
qed

lemma full_byte: "find (\<lambda>j. (0xFF :: u8) AND push_bit j 1 = 0) [0..<8] = None"
proof -
  have "bit (0xFF :: u8) j" if "j < 8" for j
    using that bit_mask_iff [of 8 j, where 'a = u8] by (simp add: mask_eq_exp_minus_1)
  then show ?thesis
    by (simp add: find_None_iff and_push_bit_0 del: push_bit_of_1 upt_rec_numeral)
qed

text \<open>The byte-wise scan finds the first free frame among those of the whole bytes.\<close>

lemma find_free_bytes_eq:
  "set is \<subseteq> {..<2 ^ 29} \<Longrightarrow> find_free_bytes (frame_bitmap s) is =
     (case find (\<lambda>f. \<not> bitmap_test (of_nat f) s) (concat (map (\<lambda>i. [8 * i..<8 * i + 8]) is)) of
        Some f \<Rightarrow> of_nat f | None \<Rightarrow> - 1)"
proof (induction "is")
  case (Cons i "is")
  then have "find (\<lambda>f. \<not> bitmap_test (of_nat f) s) [8 * i..<8 * i + 8] =
     map_option (\<lambda>j. 8 * i + j) (find (\<lambda>j. frame_bitmap s (of_nat i) AND push_bit j 1 = 0) [0..<8])"
    by (intro find_in_byte) simp
  with Cons show ?case
    using full_byte
    by (auto simp: find_append mult.commute simp del: upt_rec_numeral push_bit_of_1 split: option.splits)
qed simp

lemma concat_bytes: "concat (map (\<lambda>i. [8 * i..<8 * i + 8]) [0..<n]) = [0..<8 * n]"
proof (induction n)
  case (Suc n)
  have "[0..<8 * Suc n] = [0..<8 * n] @ [8 * n..<8 * n + 8]"
    by (metis add.commute le_add1 le_add_same_cancel1 mult_Suc_right upt_add_eq_append)
  with Suc show ?case by simp
qed simp

lemma bitmap_find_free_eq:
  "bitmap_find_free s =
     (case find (\<lambda>f. \<not> bitmap_test (of_nat f) s) [0..<scanned s] of Some f \<Rightarrow> of_nat f | None \<Rightarrow> - 1)"
proof -
  have "unat (total_frames s div 8) = unat (total_frames s) div 8"
    using unat_div [of "total_frames s" 8] by simp
  moreover have "unat (total_frames s) div 8 < 2 ^ 29"
    by (rule less_mult_imp_div_less) simp
  moreover from this have "set [0..<unat (total_frames s) div 8] \<subseteq> {..<2 ^ 29}" by auto
  ultimately show ?thesis
    using find_free_bytes_eq [of "[0..<unat (total_frames s) div 8]" s]
    by (simp only: bitmap_find_free_def scanned_def concat_bytes)
qed


lemma find_Min:
  "find P [0..<n] = (if {f. f < n \<and> P f} = {} then None else Some (Min {f. f < n \<and> P f}))"
proof (cases "find P [0..<n]")
  case None
  then have "{f. f < n \<and> P f} = {}" by (auto simp: find_None_iff)
  then show ?thesis using None by simp
next
  case (Some f)
  then have f: "f < n" "P f" "\<And>g. g < f \<Longrightarrow> \<not> P g" by (auto simp: find_Some_iff)
  then have "Min {f. f < n \<and> P f} = f" by (intro Min_eqI) (auto simp: not_less [symmetric])
  then show ?thesis using Some f by auto
qed

section \<open>Allocation and release\<close>

lemma finite_free_set [simp]: "finite (free_set s)"
  by (simp add: free_set_def)

lemma free_set_upd [simp]:
  "free_set (s\<lparr>used_frames := u\<rparr>) = free_set s" "free_set (kprintf f a s) = free_set s"
  by (simp_all add: free_set_def)

lemma free_set_set: "f < unat (total_frames s) \<Longrightarrow> free_set (bitmap_set (of_nat f) s) = free_set s - {f}"
  using less_trans [OF _ unat_lt32 [of "total_frames s"]]
  by (auto simp: free_set_def of_nat32_inj)

lemma free_set_clear:
  "f < unat (total_frames s) \<Longrightarrow> free_set (bitmap_clear (of_nat f) s) = insert f (free_set s)"
  using less_trans [OF _ unat_lt32 [of "total_frames s"]]
  by (auto simp: free_set_def of_nat32_inj)

lemma free_set_bound: "f \<in> free_set s \<Longrightarrow> f < unat (total_frames s)"
  by (simp add: free_set_def)

lemma card_free_set: "card (free_set s) \<le> unat (total_frames s)"
  using card_mono [of "{..<unat (total_frames s)}" "free_set s"] by (auto simp: free_set_def)

lemma pmm_ok_take:
  assumes "pmm_ok s" "f \<in> free_set s"
  shows "pmm_ok ((bitmap_set (of_nat f) s)\<lparr>used_frames := used_frames s + 1\<rparr>)"
proof -
  have "0 < card (free_set s)" using assms(2) by (auto simp: card_gt_0_iff)
  then have u: "unat (used_frames s) < 131072" using assms(1) by (simp add: pmm_ok_def)
  then have "unat (used_frames s + 1) = unat (used_frames s) + 1" by (simp add: unat_word_ariths)
  then show ?thesis
    using assms \<open>0 < card (free_set s)\<close> free_set_set [OF free_set_bound [OF assms(2)]]
    by (simp add: pmm_ok_def)
qed

lemma pmm_ok_give:
  assumes "pmm_ok s" "f < unat (total_frames s)" "f \<notin> free_set s"
  shows "pmm_ok ((bitmap_clear (of_nat f) s)\<lparr>used_frames := used_frames s - 1\<rparr>)"
proof -
  have "insert f (free_set s) \<subseteq> {..<unat (total_frames s)}" using assms(2) by (auto simp: free_set_def)
  then have "card (insert f (free_set s)) \<le> unat (total_frames s)"
    using card_mono [of "{..<unat (total_frames s)}"] by fastforce
  then have c: "card (free_set s) < unat (total_frames s)" using assms(3) by simp
  then have "0 < unat (used_frames s)" using assms(1) by (simp add: pmm_ok_def)
  then have "unat (used_frames s - 1) = unat (used_frames s) - 1"
    by (simp add: unat_minus_one unat_gt_0)
  then show ?thesis
    using assms \<open>0 < unat (used_frames s)\<close> free_set_clear [OF assms(2)] by (simp add: pmm_ok_def)
qed

lemma small_not_minus_1: "n < 131072 \<Longrightarrow> of_nat n \<noteq> (- 1 :: u32)"
proof
  assume "n < 131072" and "of_nat n = (- 1 :: u32)"
  then have "unat (of_nat n :: u32) = 4294967295"
    by (simp add: unsigned_minus_1_eq_mask mask_eq_exp_minus_1)
  then show False using \<open>n < 131072\<close> unat_of_nat32 [of n] by simp
qed

lemma frame_lt: "unat (a :: u32) div k < 4294967296"
  by (rule le_less_trans [OF div_le_dividend unat_lt32])

lemma pmm_alloc_frame_spec:
  assumes "pmm_ok s"
  shows "case pmm_alloc_frame s of (a, s') \<Rightarrow> pmm_ok s' \<and> total_frames s' = total_frames s \<and>
     (if free_set s \<inter> {..<scanned s} = {}
      then a = 0 \<and> free_set s' = free_set s \<and> used_frames s' = used_frames s
      else let f = Min (free_set s \<inter> {..<scanned s})
           in f \<in> free_set s \<and> a = of_nat f * PAGE_SIZE \<and> free_set s' = free_set s - {f} \<and>
              used_frames s' = used_frames s + 1)"
proof -
  let ?F = "free_set s \<inter> {..<scanned s}"
  have "scanned s \<le> unat (total_frames s)" by (simp add: scanned_def)
  then have F: "{f. f < scanned s \<and> \<not> bitmap_test (of_nat f) s} = ?F"
    by (auto simp: free_set_def)
  have eq: "bitmap_find_free s = (if ?F = {} then - 1 else of_nat (Min ?F))"
    unfolding bitmap_find_free_eq find_Min F by simp
  show ?thesis
  proof (cases "?F = {}")
    case True
    then show ?thesis using eq assms by (simp add: pmm_alloc_frame_def pmm_ok_def)
  next
    case False
    then have f: "Min ?F \<in> free_set s" using Min_in [of ?F] by simp
    then have "Min ?F < 131072"
      using free_set_bound [OF f] assms by (simp add: pmm_ok_def)
    then have "of_nat (Min ?F) \<noteq> (- 1 :: u32)" by (rule small_not_minus_1)
    then show ?thesis
      using eq False f pmm_ok_take [OF assms f] free_set_set [OF free_set_bound [OF f]]
      by (simp add: pmm_alloc_frame_def Let_def)
  qed
qed

lemma frame_of_addr: "a div PAGE_SIZE = (of_nat (unat a div 4096) :: u32)"
proof -
  have "unat (a div PAGE_SIZE) = unat a div unat PAGE_SIZE" by (rule unat_div)
  also have "\<dots> = unat (of_nat (unat a div 4096) :: u32)"
    by (subst unat_of_nat32) (simp_all add: frame_lt)
  finally show ?thesis by (simp only: word_unat_eq_iff)
qed

lemma pmm_free_frame_spec:
  assumes "pmm_ok s"
  shows "pmm_ok (pmm_free_frame a s) \<and> total_frames (pmm_free_frame a s) = total_frames s \<and>
     free_set (pmm_free_frame a s) =
       (if unat a div 4096 < unat (total_frames s) then insert (unat a div 4096) (free_set s)
        else free_set s)"
proof -
  let ?f = "unat a div 4096"
  have "?f < 2 ^ 32" by (simp add: frame_lt)
  then have lt: "(of_nat ?f :: u32) < total_frames s \<longleftrightarrow> ?f < unat (total_frames s)"
    by (simp add: word_less_nat_alt unat_of_nat32)
  show ?thesis
  proof (cases "?f < unat (total_frames s) \<and> bitmap_test (of_nat ?f) s")
    case True
    then have "?f \<notin> free_set s" by (simp add: free_set_def)
    then show ?thesis
      using True lt assms pmm_ok_give [of s ?f] free_set_clear [of ?f s]
      by (simp add: pmm_free_frame_def frame_of_addr Let_def)
  next
    case False
    then have "?f \<in> free_set s" if "?f < unat (total_frames s)" using that by (simp add: free_set_def)
    then show ?thesis
      using False lt assms by (auto simp: pmm_free_frame_def frame_of_addr Let_def)
  qed
qed


lemma pmm_mark_used_spec:
  assumes "pmm_ok s"
  shows "pmm_ok (pmm_mark_used a s)" "free_set (pmm_mark_used a s) = free_set s - {unat a div 4096}"
proof -
  let ?f = "unat a div 4096"
  have "?f < 2 ^ 32" by (simp add: frame_lt)
  then have lt: "(of_nat ?f :: u32) < total_frames s \<longleftrightarrow> ?f < unat (total_frames s)"
    by (simp add: word_less_nat_alt unat_of_nat32)
  have "pmm_ok (pmm_mark_used a s) \<and> free_set (pmm_mark_used a s) = free_set s - {?f}"
  proof (cases "?f \<in> free_set s")
    case True
    then show ?thesis
      using lt pmm_ok_take [OF assms True] free_set_set [OF free_set_bound [OF True]]
      by (simp add: pmm_mark_used_def frame_of_addr Let_def free_set_def)
  next
    case False
    then have "pmm_mark_used a s = s"
      using lt by (auto simp: pmm_mark_used_def frame_of_addr Let_def free_set_def)
    then show ?thesis using assms False by simp
  qed
  then show "pmm_ok (pmm_mark_used a s)" "free_set (pmm_mark_used a s) = free_set s - {?f}" by simp_all
qed

section \<open>The interface of a frame allocator\<close>

text \<open>Allocate \<open>n\<close> frames in a row, keeping the addresses that are not 0.\<close>

fun allocs :: "('s \<Rightarrow> u32 \<times> 's) \<Rightarrow> nat \<Rightarrow> 's \<Rightarrow> u32 list \<times> 's" where
  "allocs alloc 0 s = ([], s)"
| "allocs alloc (Suc n) s =
     (let (a, s1) = alloc s; (as, s2) = allocs alloc n s1 in (if a = 0 then as else a # as, s2))"

text \<open>
  What the virtual memory manager relies on: a successful allocation hands out a frame
  that was available and is not any more, and a release makes a frame available again.
  Address 0 is the failure value; the frame 0 must not be available for it to be one.
\<close>

locale frame_allocator =
  fixes alloc :: "'s \<Rightarrow> u32 \<times> 's" and release :: "u32 \<Rightarrow> 's \<Rightarrow> 's"
    and avail :: "'s \<Rightarrow> nat set" and ok :: "'s \<Rightarrow> bool"
  assumes alloc_ok: "ok s \<Longrightarrow> alloc s = (a, s') \<Longrightarrow> ok s'"
    and alloc_some: "ok s \<Longrightarrow> alloc s = (a, s') \<Longrightarrow> a \<noteq> 0 \<Longrightarrow>
      \<exists>f \<in> avail s. unat a = f * 4096 \<and> avail s' = avail s - {f}"
    and alloc_none: "ok s \<Longrightarrow> alloc s = (0, s') \<Longrightarrow> 0 \<notin> avail s \<Longrightarrow> avail s' = avail s"
    and release_ok: "ok s \<Longrightarrow> ok (release a s)"
    and release_avail: "ok s \<Longrightarrow> avail (release a s) \<subseteq> insert (unat a div 4096) (avail s)"
    and avail_release: "ok s \<Longrightarrow> alloc s = (a, s') \<Longrightarrow> a \<noteq> 0 \<Longrightarrow> avail (release a s') = avail s"
begin

lemma alloc_avail_subset: "ok s \<Longrightarrow> alloc s = (a, s') \<Longrightarrow> 0 \<notin> avail s \<Longrightarrow> avail s' \<subseteq> avail s"
  using alloc_some alloc_none by (cases "a = 0") blast+

lemma allocs_fresh:
  "ok s \<Longrightarrow> 0 \<notin> avail s \<Longrightarrow> allocs alloc n s = (as, s') \<Longrightarrow>
   ok s' \<and> avail s' \<subseteq> avail s \<and>
   distinct as \<and> (\<forall>a \<in> set as. \<exists>f \<in> avail s - avail s'. unat a = f * 4096)"
proof (induction n arbitrary: s as)
  case 0
  then show ?case by simp
next
  case (Suc n)
  obtain a s1 where a: "alloc s = (a, s1)" by force
  obtain bs where bs: "allocs alloc n s1 = (bs, s')" and as: "as = (if a = 0 then bs else a # bs)"
    using Suc.prems(3) a by (auto split: prod.splits)
  have ok1: "ok s1" and sub: "avail s1 \<subseteq> avail s"
    using a Suc.prems alloc_ok alloc_avail_subset by blast+
  from sub Suc.prems(2) have "0 \<notin> avail s1" by blast
  from Suc.IH [OF ok1 this bs] have IH: "ok s'" "avail s' \<subseteq> avail s1" "distinct bs"
    "\<forall>b \<in> set bs. \<exists>f \<in> avail s1 - avail s'. unat b = f * 4096" by blast+
  show ?case
  proof (cases "a = 0")
    case True
    then have "\<forall>b \<in> set as. \<exists>f \<in> avail s - avail s'. unat b = f * 4096"
      using IH(4) sub as by (metis DiffD1 DiffD2 DiffI subsetD)
    then show ?thesis using IH sub as True by auto
  next
    case False
    then obtain f where f: "f \<in> avail s" "unat a = f * 4096" "avail s1 = avail s - {f}"
      using alloc_some [OF Suc.prems(1) a] by blast
    then have "a \<notin> set bs" using IH(4) by force
    moreover have "\<forall>b \<in> set bs. \<exists>f \<in> avail s - avail s'. unat b = f * 4096"
      using IH(4) sub by (metis DiffD1 DiffD2 DiffI subsetD)
    moreover have "f \<in> avail s - avail s'" using f IH(2) by blast
    ultimately show ?thesis using IH sub as False f(2) by auto
  qed
qed

end


section \<open>The bitmap implements the interface\<close>

lemma unat_frame_addr: "f < 131072 \<Longrightarrow> unat (of_nat f * PAGE_SIZE :: u32) = f * 4096"
  by (simp add: unat_word_ariths unat_of_nat32)

lemma alloc_frame_fail:
  assumes "pmm_ok s" "free_set s \<inter> {..<scanned s} = {}" "pmm_alloc_frame s = (a, s')"
  shows "a = 0" "free_set s' = free_set s"
  using pmm_alloc_frame_spec [OF assms(1)] unfolding assms(3) by (simp_all add: assms(2))

lemma alloc_frame_frame:
  assumes "pmm_ok s" "free_set s \<inter> {..<scanned s} \<noteq> {}" "pmm_alloc_frame s = (a, s')"
    and "f = Min (free_set s \<inter> {..<scanned s})"
  shows "f \<in> free_set s" "unat a = f * 4096" "free_set s' = free_set s - {f}"
proof -
  have 1: "f \<in> free_set s" "a = of_nat f * PAGE_SIZE" "free_set s' = free_set s - {f}"
    using pmm_alloc_frame_spec [OF assms(1)] unfolding assms(3) assms(4) Let_def
    by (simp_all add: assms(2))
  then have "f < 131072" using free_set_bound [of f s] assms(1) by (simp add: pmm_ok_def)
  with 1 show "f \<in> free_set s" "unat a = f * 4096" "free_set s' = free_set s - {f}"
    by (simp_all only: unat_frame_addr)
qed

lemma alloc_frame_nonzero:
  assumes "pmm_ok s" "pmm_alloc_frame s = (a, s')" "a \<noteq> 0"
  shows "\<exists>f \<in> free_set s. unat a = f * 4096 \<and> free_set s' = free_set s - {f}"
  using alloc_frame_fail(1) [OF assms(1) _ assms(2)] alloc_frame_frame [OF assms(1) _ assms(2) refl]
    assms(3) by blast

lemma alloc_frame_zero:
  assumes "pmm_ok s" "pmm_alloc_frame s = (0, s')" "0 \<notin> free_set s"
  shows "free_set s' = free_set s"
proof (cases "free_set s \<inter> {..<scanned s} = {}")
  case True
  then show ?thesis by (rule alloc_frame_fail(2) [OF assms(1) _ assms(2)])
next
  case False
  from alloc_frame_frame(1,2) [OF assms(1) False assms(2) refl] assms(3) show ?thesis by simp
qed

lemma alloc_frame_release:
  assumes "pmm_ok s" "pmm_alloc_frame s = (a, s')" "a \<noteq> 0"
  shows "free_set (pmm_free_frame a s') = free_set s"
proof -
  have s': "pmm_ok s'" "total_frames s' = total_frames s"
    using pmm_alloc_frame_spec [OF assms(1)] unfolding assms(2) by simp_all
  from alloc_frame_nonzero [OF assms] obtain f where f: "f \<in> free_set s" "unat a = f * 4096"
    "free_set s' = free_set s - {f}" by blast
  then have d: "unat a div 4096 = f" by simp
  from pmm_free_frame_spec [OF s'(1), of a] free_set_bound [OF f(1)]
  have "free_set (pmm_free_frame a s') = insert f (free_set s')" unfolding d s'(2) by simp
  then show ?thesis using f by (simp add: insert_absorb)
qed

interpretation frames: frame_allocator pmm_alloc_frame pmm_free_frame free_set pmm_ok
proof (unfold_locales, goal_cases)
  case (1 s a s')
  then show ?case using pmm_alloc_frame_spec [of s] by (simp only: prod.case)
next
  case (2 s a s')
  then show ?case by (rule alloc_frame_nonzero)
next
  case (3 s s')
  then show ?case by (rule alloc_frame_zero)
next
  case (4 s a)
  then show ?case by (rule pmm_free_frame_spec [THEN conjunct1])
next
  case (5 s a)
  from pmm_free_frame_spec [OF this, of a] show ?case by (simp add: subset_insertI)
next
  case (6 s a s')
  then show ?case by (rule alloc_frame_release)
qed

section \<open>What initialisation establishes\<close>

lemma fold_regions: "fold (\<lambda>e. fold g (rf e)) es s = fold g (concat (map rf es)) s"
  by (induction es arbitrary: s) simp_all

text \<open>Above \<open>total_frames\<close> every bit stays set.\<close>

definition tail_set :: "'a kpmm_scheme \<Rightarrow> bool" where
  "tail_set s \<longleftrightarrow> (\<forall>f. unat (total_frames s) \<le> f \<longrightarrow> f < 2 ^ 32 \<longrightarrow> bitmap_test (of_nat f) s)"

lemma release_frames:
  "pmm_ok s \<Longrightarrow> tail_set s \<Longrightarrow> distinct fs \<Longrightarrow> set fs \<subseteq> {..<unat (total_frames s)} - free_set s \<Longrightarrow>
   (let s' = fold release_frame fs s in pmm_ok s' \<and> tail_set s' \<and>
      total_frames s' = total_frames s \<and> free_set s' = free_set s \<union> set fs)"
proof (induction fs arbitrary: s)
  case (Cons f fs)
  define t where "t = release_frame f s"
  have f: "f < unat (total_frames s)" "f \<notin> free_set s" using Cons.prems(4) by auto
  then have 1: "pmm_ok t" "free_set t = insert f (free_set s)" "total_frames t = total_frames s"
    using pmm_ok_give [OF Cons.prems(1) f] free_set_clear [OF f(1)]
    by (simp_all add: t_def release_frame_def)
  have "of_nat g \<noteq> (of_nat f :: u32)" if "unat (total_frames s) \<le> g" "g < 2 ^ 32" for g
    using that f(1) less_trans [OF f(1) unat_lt32] by (auto simp: of_nat32_inj)
  then have 2: "tail_set t"
    using Cons.prems(2) by (auto simp: tail_set_def t_def release_frame_def)
  have "set fs \<subseteq> {..<unat (total_frames t)} - free_set t" using Cons.prems 1 by auto
  from Cons.IH [OF 1(1) 2 _ this] Cons.prems(3) show ?case
    using 1 by (simp add: t_def [symmetric] Let_def)
qed (simp add: Let_def)

lemma reserve_frames:
  "pmm_ok s \<Longrightarrow> tail_set s \<Longrightarrow> n \<le> 2 ^ 32 \<Longrightarrow>
   (let s' = fold reserve_frame [0..<n] s in pmm_ok s' \<and> tail_set s' \<and>
      total_frames s' = total_frames s \<and> free_set s' = free_set s - {..<n})"
proof (induction n)
  case (Suc n)
  define t where "t = fold reserve_frame [0..<n] s"
  have t: "pmm_ok t" "tail_set t" "total_frames t = total_frames s" "free_set t = free_set s - {..<n}"
    using Suc.IH [OF Suc.prems(1,2)] Suc.prems(3) unfolding t_def Let_def by linarith+
  define t' where "t' = reserve_frame n t"
  have split: "fold reserve_frame [0..<Suc n] s = t'" by (simp add: t'_def t_def)
  have "pmm_ok t' \<and> tail_set t' \<and> total_frames t' = total_frames s \<and> free_set t' = free_set t - {n}"
  proof (cases "bitmap_test (of_nat n) t")
    case True
    then have "t' = t" "n \<notin> free_set t" by (simp_all add: t'_def reserve_frame_def free_set_def)
    then show ?thesis using t(1-3) by simp
  next
    case False
    then have n: "n < unat (total_frames t)"
      using t(2) Suc.prems(3) unfolding tail_set_def
      by (cases "unat (total_frames t) \<le> n") auto
    then have "n \<in> free_set t" using False by (simp add: free_set_def)
    moreover have "tail_set t'" using t(2) False
      by (simp add: t'_def reserve_frame_def Let_def tail_set_def)
    ultimately show ?thesis
      using False t(1,3) pmm_ok_take [OF t(1)] free_set_set [OF n]
      by (simp add: t'_def reserve_frame_def Let_def)
  qed
  moreover have "free_set s - {..<n} - {n} = free_set s - {..<Suc n}" by auto
  ultimately show ?case unfolding split Let_def t(4) by simp
qed (simp add: Let_def)

definition all_used :: "u32 \<Rightarrow> 'a kpmm_scheme \<Rightarrow> 'a kpmm_scheme" where
  "all_used tot s = s\<lparr>total_frames := tot, frame_bitmap := (\<lambda>_. 0xFF), used_frames := tot\<rparr>"

lemma all_used_fields [simp]: "total_frames (all_used tot s) = tot" "used_frames (all_used tot s) = tot"
  by (simp_all add: all_used_def)

lemma bit_0xFF: "j < 8 \<Longrightarrow> bit (0xFF :: u8) j"
  using bit_mask_iff [of 8 j, where 'a = u8] by (simp add: mask_eq_exp_minus_1)

lemma bitmap_test_all_used [simp]: "bitmap_test i (all_used tot s)"
  using bit_0xFF [OF unat_mod8 [of i]] by (simp add: bitmap_test_bit all_used_def)

lemma free_set_all_used [simp]: "free_set (all_used tot s) = {}"
  by (simp add: free_set_def)

lemma clamp_frames_le: "unat (clamp_frames n) \<le> 131072"
  by (simp add: clamp_frames_def BITMAP_SIZE_def word_less_nat_alt)

lemma pmm_ok_all_used: "pmm_ok (all_used (clamp_frames n) s)" "tail_set (all_used (clamp_frames n) s)"
  using clamp_frames_le by (simp_all add: pmm_ok_def tail_set_def)

lemma pmm_ok_kprintf [simp]: "pmm_ok (kprintf f a s) = pmm_ok s"
  by (simp add: pmm_ok_def)

lemma region_frames_bound: "set (region_frames tot e) \<subseteq> {..<unat tot}"
  by (auto simp: region_frames_def)

text \<open>The frames a memory map makes available: inside an available region, above the first MiB.\<close>

definition mmap_frames :: "multiboot_mmap_entry_t list \<Rightarrow> nat set" where
  "mmap_frames es =
     (\<Union>e \<in> set es. set (region_frames (clamp_frames (mmap_mem_end es div PAGE_SIZE)) e)) - {..<256}"

lemma pmm_init_mmap:
  assumes "mb_flags mbi AND 0x20 \<noteq> 0"
    and "mmap_entries (mem s) (mb_mmap_addr mbi) (mb_mmap_addr mbi + mb_mmap_length mbi) = Some es"
    and "tot = clamp_frames (mmap_mem_end es div PAGE_SIZE)"
    and "distinct (concat (map (region_frames tot) es))"
  shows "\<exists>s'. pmm_init mbi s = Some s' \<and> pmm_ok s' \<and> total_frames s' = tot \<and>
     free_set s' = mmap_frames es"
proof -
  let ?s2 = "all_used tot s"
  define s3 where "s3 = fold release_frame (concat (map (region_frames tot) es)) ?s2"
  define s4 where "s4 = fold reserve_frame [0..<256] s3"
  have "set (concat (map (region_frames tot) es)) \<subseteq> {..<unat (total_frames ?s2)} - free_set ?s2"
    using region_frames_bound by fastforce
  from release_frames [OF pmm_ok_all_used [of "mmap_mem_end es div PAGE_SIZE" s, folded assms(3)] assms(4) this]
  have 3: "pmm_ok s3" "tail_set s3" "total_frames s3 = tot"
    "free_set s3 = (\<Union>e \<in> set es. set (region_frames tot e))"
    unfolding s3_def [symmetric] Let_def by simp_all
  from reserve_frames [OF 3(1,2), of 256]
  have 4: "pmm_ok s4" "total_frames s4 = tot" "free_set s4 = mmap_frames es"
    unfolding s4_def [symmetric] Let_def 3 mmap_frames_def assms(3) [symmetric] by simp_all
  have "pmm_init mbi s = Some (kprintf (litln ''[PMM] Total: %u frames, Used: %u, Free: %u'')
      [VInt (total_frames s4), VInt (used_frames s4), VInt (total_frames s4 - used_frames s4)] s4)"
    using assms(1,2)
    by (simp add: pmm_init_def Let_def assms(3) [symmetric] fold_regions s3_def s4_def all_used_def
        del: upt_rec_numeral)
  then show ?thesis using 4 by simp
qed

lemma pmm_init_no_mmap:
  assumes "mb_flags mbi AND 0x20 = 0"
  shows "\<exists>s'. pmm_init mbi s = Some s' \<and> pmm_ok s' \<and> free_set s' = {}"
  using assms pmm_ok_all_used(1) [of "(mb_mem_upper mbi + 1024) div 4" s]
    free_set_all_used [of "clamp_frames ((mb_mem_upper mbi + 1024) div 4)" s]
  by (simp add: pmm_init_def Let_def all_used_def)

lemma free_frames_card:
  assumes "pmm_ok s" shows "unat (pmm_get_free_frames s) = card (free_set s)"
proof -
  have "used_frames s \<le> total_frames s" using assms by (simp add: pmm_ok_def word_le_nat_alt)
  then have "unat (total_frames s - used_frames s) = unat (total_frames s) - unat (used_frames s)"
    by (rule unat_sub)
  then show ?thesis using assms unfolding pmm_get_free_frames_def pmm_ok_def by linarith
qed

lemma mmap_frames_ge: "f \<in> mmap_frames es \<Longrightarrow> 256 \<le> f"
  by (auto simp: mmap_frames_def not_less)

section \<open>Properties\<close>

text \<open>
  A concrete boot: one memory map entry at \<open>0x1000\<close> that makes the 16 frames from 1 MiB
  available.
\<close>

definition boot_mem :: mem where
  "boot_mem = store32 (store32 (store32 (store32 (\<lambda>_. 0) 0x1000 20) 0x1004 0x100000) 0x100C 0x10000) 0x1014 1"

definition boot_mbi :: multiboot_info_t where
  "boot_mbi = \<lparr>mb_flags = 0x60, mb_mem_lower = 640, mb_mem_upper = 64, mb_boot_device = 0, mb_cmdline = 0,
     mb_mods_count = 0, mb_mods_addr = 0, mb_syms = [0, 0, 0, 0], mb_mmap_length = 24, mb_mmap_addr = 0x1000,
     mb_drives_length = 0, mb_drives_addr = 0, mb_config_table = 0, mb_boot_loader_name = 0,
     mb_apm_table = 0\<rparr>"

definition boot_entries :: "multiboot_mmap_entry_t list" where
  "boot_entries = [\<lparr>mm_size = 20, mm_addr = 0x100000, mm_len = 0x10000, mm_type = 1\<rparr>]"

declare mmap_entries.simps [code]

lemma boot_mmap: "mmap_entries boot_mem 0x1000 0x1018 = Some boot_entries"
  by code_simp

lemma boot_region:
  "clamp_frames (mmap_mem_end boot_entries div PAGE_SIZE) = 272"
  "concat (map (region_frames 272) boot_entries) = [256..<272]"
  by code_simp+

lemma boot_frames: "mmap_frames boot_entries = {256..<272}"
proof -
  have "(\<Union>e \<in> set boot_entries. set (region_frames 272 e)) = {256..<272}"
    using arg_cong [OF boot_region(2), of set] unfolding set_concat set_map image_image set_upt .
  then show ?thesis unfolding mmap_frames_def boot_region(1) by (simp add: Diff_triv disjoint_iff)
qed



text \<open>
  C2: While the counters are consistent, \<^verbatim>\<open>pmm_alloc_frame\<close> returns the address of the lowest
  free frame among those of the whole bitmap bytes below \<^verbatim>\<open>total_frames\<close>, marks that frame and no
  other, and counts it; it returns 0 and changes no frame exactly when there is none there. So the
  last \<^verbatim>\<open>total_frames % 8\<close> frames are never handed out.
\<close>

theorem pmm_alloc_frame_correct:
  assumes "pmm_ok s"
  shows "case pmm_alloc_frame s of (a, s') \<Rightarrow> pmm_ok s' \<and> total_frames s' = total_frames s \<and>
     (if free_set s \<inter> {..<scanned s} = {}
      then a = 0 \<and> free_set s' = free_set s \<and> used_frames s' = used_frames s
      else let f = Min (free_set s \<inter> {..<scanned s})
           in f \<in> free_set s \<and> a = of_nat f * PAGE_SIZE \<and> free_set s' = free_set s - {f} \<and>
              used_frames s' = used_frames s + 1)"
  by (rule pmm_alloc_frame_spec [OF assms])

text \<open>The bitmap of a machine with 16 frames, the frames 3 to 12 of them free.\<close>

definition small_pmm :: kpmm where
  "small_pmm = boot_pmm\<lparr>frame_bitmap := (\<lambda>_. 0xFF)(0 := 0x07, 1 := 0xE0), total_frames := 16, used_frames := 6\<rparr>"

lemma small_free: "free_set small_pmm = {3..<13}"
proof -
  have "\<forall>f \<in> set [0..<16]. (\<not> bitmap_test (of_nat f) small_pmm) = (f \<in> set [3..<13])"
    by code_simp
  then have *: "(\<not> bitmap_test (of_nat f) small_pmm) = (f \<in> set [3..<13])" if "f < 16" for f
    by (rule bspec) (simp only: set_upt atLeastLessThan_iff that le0 simp_thms)
  have "f < 16 \<and> \<not> bitmap_test (of_nat f) small_pmm \<longleftrightarrow> f \<in> {3..<13}" for f
    using * [of f] by (cases "f < 16") (simp_all only: set_upt simp_thms, simp)
  moreover have "unat (total_frames small_pmm) = 16" by (simp add: small_pmm_def)
  ultimately show ?thesis unfolding free_set_def by (simp only: Collect_mem_eq)
qed

lemma small_ok: "pmm_ok small_pmm"
  using small_free by (simp add: pmm_ok_def) (simp add: small_pmm_def)

theorem pmm_alloc_frame_correct_witness:
  "pmm_ok small_pmm \<and> fst (pmm_alloc_frame small_pmm) = 0x3000 \<and>
   free_set (snd (pmm_alloc_frame small_pmm)) = {4..<13}"
proof -
  have "scanned small_pmm = 16" by (simp add: scanned_def small_pmm_def)
  then have "free_set small_pmm \<inter> {..<scanned small_pmm} = {3..<13}" by (auto simp: small_free)
  moreover have "Min {3..<13 :: nat} = 3" by (intro Min_eqI) auto
  moreover have "{3..<13} - {3 :: nat} = {4..<13}" by auto
  ultimately show ?thesis
    using pmm_alloc_frame_correct [OF small_ok] small_ok
    by (simp add: small_free Let_def split: prod.splits)
qed

text \<open>
  However many frames are requested in a row, while frame 0 is in use the non-zero addresses
  \<^verbatim>\<open>pmm_alloc_frame\<close> returns are pairwise different, page aligned, and each is the address of a frame
  that was free before the first request and is in use after the last; the counters stay consistent.
\<close>

theorem pmm_allocs_distinct:
  assumes "pmm_ok s" "0 \<notin> free_set s" "allocs pmm_alloc_frame n s = (as, s')"
  shows "pmm_ok s' \<and> free_set s' \<subseteq> free_set s \<and> distinct as \<and>
     (\<forall>a \<in> set as. \<exists>f \<in> free_set s - free_set s'. unat a = f * 4096)"
  by (rule frames.allocs_fresh [OF assms])

theorem pmm_allocs_distinct_witness:
  "case allocs pmm_alloc_frame 4 small_pmm of (as, s') \<Rightarrow>
     pmm_ok s' \<and> free_set s' \<subseteq> {3..<13} \<and> distinct as \<and>
     (\<forall>a \<in> set as. \<exists>f \<in> {3..<13} - free_set s'. unat a = f * 4096)"
proof -
  obtain as s' where a: "allocs pmm_alloc_frame 4 small_pmm = (as, s')" by (rule prod.exhaust)
  have "0 \<notin> free_set small_pmm" by (simp add: small_free)
  from pmm_allocs_distinct [OF small_ok this a] show ?thesis
    unfolding a small_free prod.case .
qed

text \<open>
  C3: A frame just allocated and released again leaves the bitmap and the counters as they were:
  the same frames are free, and as many are in use.
\<close>

theorem pmm_alloc_free_roundtrip:
  assumes "pmm_ok s" "pmm_alloc_frame s = (a, s')" "a \<noteq> 0"
  shows "free_set (pmm_free_frame a s') = free_set s \<and>
     used_frames (pmm_free_frame a s') = used_frames s \<and> pmm_ok (pmm_free_frame a s')"
proof -
  let ?t = "pmm_free_frame a s'"
  have ok: "pmm_ok s'" using frames.alloc_ok assms(1,2) by blast
  have t: "pmm_ok ?t" "free_set ?t = free_set s"
    using frames.release_ok [OF ok] frames.avail_release [OF assms] by blast+
  have "total_frames ?t = total_frames s"
    using pmm_free_frame_spec [OF ok, of a] pmm_alloc_frame_spec [OF assms(1), unfolded assms(2)]
    by simp
  then have "unat (used_frames ?t) = unat (used_frames s)"
    using t(1) assms(1) unfolding pmm_ok_def t(2) by (metis add_right_cancel)
  then show ?thesis using t by (simp only: word_unat_eq_iff)
qed

theorem pmm_alloc_free_roundtrip_witness:
  "free_set (pmm_free_frame 0x3000 (snd (pmm_alloc_frame small_pmm))) = {3..<13}"
proof -
  have "fst (pmm_alloc_frame small_pmm) = 0x3000" by code_simp
  then show ?thesis
    using pmm_alloc_free_roundtrip [OF small_ok prod.collapse [symmetric]] by (simp add: small_free)
qed

text \<open>
  The kernel image is linked at 1 MiB, but \<^verbatim>\<open>pmm_init\<close> reserves only the frames below: when the
  memory map makes the frame at 1 MiB available, the first call of \<^verbatim>\<open>pmm_alloc_frame\<close> after
  \<^verbatim>\<open>pmm_init\<close> hands out that very frame, \<open>0x100000\<close>.
\<close>

theorem pmm_first_frame_is_kernel:
  assumes "mb_flags mbi AND 0x20 \<noteq> 0"
    and "mmap_entries (mem s) (mb_mmap_addr mbi) (mb_mmap_addr mbi + mb_mmap_length mbi) = Some es"
    and "distinct (concat (map (region_frames (clamp_frames (mmap_mem_end es div PAGE_SIZE))) es))"
    and "256 \<in> mmap_frames es" "264 \<le> unat (clamp_frames (mmap_mem_end es div PAGE_SIZE))"
  shows "map_option (\<lambda>s'. fst (pmm_alloc_frame s')) (pmm_init mbi s) = Some 0x100000"
proof -
  from pmm_init_mmap [OF assms(1,2) refl assms(3)] obtain s' where s': "pmm_init mbi s = Some s'"
    "pmm_ok s'" "total_frames s' = clamp_frames (mmap_mem_end es div PAGE_SIZE)"
    "free_set s' = mmap_frames es" by blast
  have "264 div 8 \<le> unat (total_frames s') div 8" unfolding s'(3) by (intro div_le_mono assms(5))
  then have "256 < scanned s'" by (simp add: scanned_def)
  then have m: "256 \<in> free_set s' \<inter> {..<scanned s'}" using assms(4) s'(4) by simp
  then have "Min (free_set s' \<inter> {..<scanned s'}) = 256"
    using mmap_frames_ge s'(4) by (intro Min_eqI) auto
  with m pmm_alloc_frame_spec [OF s'(2)] have "fst (pmm_alloc_frame s') = 0x100000"
    by (auto simp: Let_def split: prod.splits if_splits)
  then show ?thesis using s'(1) by simp
qed

theorem pmm_first_frame_is_kernel_witness:
  "map_option (\<lambda>s'. fst (pmm_alloc_frame s')) (pmm_init boot_mbi (boot_pmm\<lparr>mem := boot_mem\<rparr>)) =
     Some 0x100000"
  by (rule pmm_first_frame_is_kernel [where es = boot_entries])
    (simp_all add: boot_mbi_def boot_mmap boot_region boot_frames)

end
