(* ===== verification/Vmm.thy ===== *)
theory Vmm
  imports Pmm
begin

text \<open>
  The virtual memory manager, \<^verbatim>\<open>kernel/memory/vmm.c\<close>: two-level page tables in memory. A
  \<^verbatim>\<open>page_directory_t\<close> at the address \<open>dir\<close> has its 1024 entries at \<open>dir\<close>, \<^verbatim>\<open>tables_physical\<close>
  at \<open>dir + 4096\<close>, and \<^verbatim>\<open>physical_addr\<close> at \<open>dir + 8192\<close>; the alignment pads it to 12288 bytes.
  Memory is addressed physically, as while paging is off or the kernel is identity-mapped;
  the translation look-aside buffer that \<^verbatim>\<open>invlpg\<close> flushes is not part of the state.
\<close>

section \<open>State\<close>

record kvmm = kpmm +
  kernel_directory :: u32
  current_directory :: u32
  kernel_end_addr :: u32

definition boot_vmm :: kvmm where
  "boot_vmm = kpmm.extend boot_pmm (kvmm.fields 0 0 0)"

abbreviation (input) PAGE_PRESENT :: u32 where
  "PAGE_PRESENT \<equiv> 0x001"

abbreviation (input) PAGE_WRITABLE :: u32 where
  "PAGE_WRITABLE \<equiv> 0x002"

abbreviation (input) sizeof_page_directory :: u32 where
  "sizeof_page_directory \<equiv> 12288"

section \<open>Operations\<close>

text \<open>\<^verbatim>\<open>dir->entries[i]\<close>, \<^verbatim>\<open>dir->tables_physical[i]\<close>, \<^verbatim>\<open>dir->physical_addr\<close> and \<^verbatim>\<open>table[i]\<close>.\<close>

definition entry_addr :: "u32 \<Rightarrow> u32 \<Rightarrow> u32" where
  "entry_addr t i = t + 4 * i"

definition dir_entry :: "u32 \<Rightarrow> u32 \<Rightarrow> 'a kcon_scheme \<Rightarrow> u32" where
  "dir_entry dir i s = load32 (mem s) (entry_addr dir i)"

definition set_dir_entry :: "u32 \<Rightarrow> u32 \<Rightarrow> u32 \<Rightarrow> 'a kcon_scheme \<Rightarrow> 'a kcon_scheme" where
  "set_dir_entry dir i v s = s\<lparr>mem := store32 (mem s) (entry_addr dir i) v\<rparr>"

definition set_tables_physical :: "u32 \<Rightarrow> u32 \<Rightarrow> u32 \<Rightarrow> 'a kcon_scheme \<Rightarrow> 'a kcon_scheme" where
  "set_tables_physical dir i v s = s\<lparr>mem := store32 (mem s) (entry_addr (dir + 4096) i) v\<rparr>"

definition physical_addr :: "u32 \<Rightarrow> 'a kcon_scheme \<Rightarrow> u32" where
  "physical_addr dir s = load32 (mem s) (dir + 8192)"

definition set_physical_addr :: "u32 \<Rightarrow> u32 \<Rightarrow> 'a kcon_scheme \<Rightarrow> 'a kcon_scheme" where
  "set_physical_addr dir v s = s\<lparr>mem := store32 (mem s) (dir + 8192) v\<rparr>"

definition table_of :: "u32 \<Rightarrow> u32" where
  "table_of e = e AND 0xFFFFF000"

definition table_idx :: "u32 \<Rightarrow> u32" where
  "table_idx virt = drop_bit 22 virt"

definition page_idx :: "u32 \<Rightarrow> u32" where
  "page_idx virt = drop_bit 12 virt AND 0x3FF"

definition get_or_create_table :: "u32 \<Rightarrow> u32 \<Rightarrow> u32 \<Rightarrow> 'a kpmm_scheme \<Rightarrow> u32 \<times> 'a kpmm_scheme" where
  "get_or_create_table dir ti flags s =
     (if dir_entry dir ti s AND PAGE_PRESENT \<noteq> 0 then (table_of (dir_entry dir ti s), s)
      else let (table_phys, s1) = pmm_alloc_frame s
           in if table_phys = 0 then (0, s1)
              else let s2 = set_dir_entry dir ti (table_phys OR flags OR PAGE_PRESENT OR PAGE_WRITABLE) s1;
                       s3 = set_tables_physical dir ti table_phys s2
                   in (table_phys, s3\<lparr>mem := memset (mem s3) table_phys 0 PAGE_SIZE\<rparr>))"

definition vmm_map_page :: "u32 \<Rightarrow> u32 \<Rightarrow> u32 \<Rightarrow> u32 \<Rightarrow> 'a kpmm_scheme \<Rightarrow> 'a kpmm_scheme" where
  "vmm_map_page dir virt phys flags s =
     (let (table, s1) = get_or_create_table dir (table_idx virt) flags s
      in if table \<noteq> 0
         then s1\<lparr>mem := store32 (mem s1) (entry_addr table (page_idx virt))
                  ((phys AND 0xFFFFF000) OR (flags AND 0xFFF) OR PAGE_PRESENT)\<rparr>
         else s1)"

definition vmm_unmap_page :: "u32 \<Rightarrow> u32 \<Rightarrow> 'a kcon_scheme \<Rightarrow> 'a kcon_scheme" where
  "vmm_unmap_page dir virt s =
     (if dir_entry dir (table_idx virt) s AND PAGE_PRESENT = 0 then s
      else s\<lparr>mem := store32 (mem s)
               (entry_addr (table_of (dir_entry dir (table_idx virt) s)) (page_idx virt)) 0\<rparr>)"

definition vmm_get_physical :: "u32 \<Rightarrow> u32 \<Rightarrow> 'a kcon_scheme \<Rightarrow> u32" where
  "vmm_get_physical dir virt s =
     (let e = dir_entry dir (table_idx virt) s
      in if e AND PAGE_PRESENT = 0 then 0
         else let p = load32 (mem s) (entry_addr (table_of e) (page_idx virt))
              in if p AND PAGE_PRESENT = 0 then 0
                 else (p AND 0xFFFFF000) OR (virt AND 0xFFF))"

text \<open>The loop of \<^verbatim>\<open>vmm_init\<close> over the pages of the first 4 MiB.\<close>

definition identity_map :: "u32 \<Rightarrow> nat \<Rightarrow> 'a kpmm_scheme \<Rightarrow> 'a kpmm_scheme" where
  "identity_map dir n s =
     fold (\<lambda>i. vmm_map_page dir (of_nat i * PAGE_SIZE) (of_nat i * PAGE_SIZE)
                 (PAGE_PRESENT OR PAGE_WRITABLE)) [0..<n] s"

definition vmm_init :: "u32 \<Rightarrow> 'a kvmm_scheme \<Rightarrow> 'a kvmm_scheme" where
  "vmm_init kernel_end s =
     (let s1 = s\<lparr>kernel_end_addr := (kernel_end + PAGE_SIZE - 1) AND NOT (PAGE_SIZE - 1)\<rparr>;
          (dir_phys, s2) = pmm_alloc_frame s1;
          s3 = s2\<lparr>kernel_directory := dir_phys\<rparr>;
          s4 = s3\<lparr>mem := memset (mem s3) dir_phys 0 sizeof_page_directory\<rparr>;
          s5 = set_physical_addr dir_phys dir_phys s4;
          s6 = identity_map dir_phys 1024 s5;
          s7 = vmm_map_page dir_phys 0xB8000 0xB8000 (PAGE_PRESENT OR PAGE_WRITABLE) s6;
          s8 = s7\<lparr>current_directory := dir_phys, cr3 := physical_addr dir_phys s7\<rparr>;
          s9 = s8\<lparr>cr0 := cr0 s8 OR 0x80000000\<rparr>
      in kprintf (litln ''[VMM] Paging enabled, kernel mapped at 0x0-0x400000'') [] s9)"

definition vmm_get_kernel_directory :: "'a kvmm_scheme \<Rightarrow> u32" where
  "vmm_get_kernel_directory s = kernel_directory s"

definition copy_entry :: "u32 \<Rightarrow> nat \<Rightarrow> 'a kvmm_scheme \<Rightarrow> 'a kvmm_scheme" where
  "copy_entry dir i s =
     (let e = dir_entry (kernel_directory s) (of_nat i) s
      in if e AND PAGE_PRESENT \<noteq> 0 then set_dir_entry dir (of_nat i) e s else s)"

definition vmm_create_address_space :: "'a kvmm_scheme \<Rightarrow> u32 \<times> 'a kvmm_scheme" where
  "vmm_create_address_space s =
     (let (dir_phys, s1) = pmm_alloc_frame s
      in if dir_phys = 0 then (0, s1)
         else let s2 = s1\<lparr>mem := memset (mem s1) dir_phys 0 sizeof_page_directory\<rparr>;
                  s3 = set_physical_addr dir_phys dir_phys s2
              in (dir_phys, fold (copy_entry dir_phys) [0..<1024] s3))"

definition release_table :: "u32 \<Rightarrow> nat \<Rightarrow> 'a kvmm_scheme \<Rightarrow> 'a kvmm_scheme" where
  "release_table dir i s =
     (let e = dir_entry dir (of_nat i) s
      in if e AND PAGE_PRESENT \<noteq> 0 \<and> dir_entry (kernel_directory s) (of_nat i) s AND PAGE_PRESENT = 0
         then pmm_free_frame (table_of e) s else s)"

definition vmm_destroy_address_space :: "u32 \<Rightarrow> 'a kvmm_scheme \<Rightarrow> 'a kvmm_scheme" where
  "vmm_destroy_address_space dir s =
     (if dir = 0 \<or> dir = kernel_directory s then s
      else let s1 = fold (release_table dir) [0..<1024] s
           in pmm_free_frame (physical_addr dir s1) s1)"

definition vmm_switch_directory :: "u32 \<Rightarrow> 'a kvmm_scheme \<Rightarrow> 'a kvmm_scheme" where
  "vmm_switch_directory dir s =
     (let s1 = s\<lparr>current_directory := dir\<rparr> in s1\<lparr>cr3 := physical_addr dir s1\<rparr>)"

section \<open>What a page directory means\<close>

text \<open>The page-table entry of a page number, when its table and the entry are present.\<close>

definition vspace :: "u32 \<Rightarrow> 'a kcon_scheme \<Rightarrow> u32 \<rightharpoonup> u32" where
  "vspace dir s v =
     (let e = dir_entry dir (drop_bit 10 v) s;
          p = load32 (mem s) (entry_addr (table_of e) (v AND 0x3FF))
      in if v < 0x100000 \<and> e AND PAGE_PRESENT \<noteq> 0 \<and> p AND PAGE_PRESENT \<noteq> 0 then Some p else None)"

text \<open>
  A directory whose tables are apart: the directory and the table of every present entry are in
  use, no table is the directory or its \<^verbatim>\<open>tables_physical\<close> page, and no two entries share a table.
\<close>

definition table_at :: "u32 \<Rightarrow> u32 \<Rightarrow> 'a kcon_scheme \<Rightarrow> u32 option" where
  "table_at dir i s =
     (if dir_entry dir i s AND PAGE_PRESENT \<noteq> 0 then Some (table_of (dir_entry dir i s)) else None)"

definition in_use :: "u32 \<Rightarrow> 'a kpmm_scheme \<Rightarrow> bool" where
  "in_use a s \<longleftrightarrow> unat a div 4096 \<notin> free_set s"

definition dir_ok :: "u32 \<Rightarrow> 'a kpmm_scheme \<Rightarrow> bool" where
  "dir_ok dir s \<longleftrightarrow> dir AND 0xFFF = 0 \<and> unat dir + 8192 \<le> 2 ^ 32 \<and> in_use dir s \<and> in_use (dir + 4096) s \<and>
     (\<forall>i t. i < 1024 \<longrightarrow> table_at dir i s = Some t \<longrightarrow>
        t \<noteq> 0 \<and> t \<noteq> dir \<and> t \<noteq> dir + 4096 \<and> in_use t s \<and> (\<forall>j < 1024. j \<noteq> i \<longrightarrow> table_at dir j s \<noteq> Some t))"

section \<open>Entries in aligned pages\<close>

abbreviation (input) page_aligned :: "u32 \<Rightarrow> bool" where
  "page_aligned t \<equiv> t AND 0xFFF = 0"

lemma unat_page_offset: "unat (t AND 0xFFF :: u32) = unat t mod 4096"
proof -
  have "t AND 0xFFF = take_bit 12 t" by (simp add: take_bit_eq_mask mask_nums)
  also have "unat (take_bit 12 t) = take_bit 12 (unat t)" by (rule unsigned_take_bit_eq)
  finally show ?thesis by (simp add: take_bit_eq_mod)
qed

lemma of_unat32: "of_nat (unat (a :: u32)) = a"
  by simp

lemma page_aligned_nat: "page_aligned t \<longleftrightarrow> unat t mod 4096 = 0"
  by (metis unat_page_offset unsigned_0 unsigned_eq_0_iff)

lemma aligned_cases:
  assumes "page_aligned t" "page_aligned t'" "t \<noteq> t'"
  shows "unat t + 4096 \<le> unat t' \<or> unat t' + 4096 \<le> unat t"
proof -
  obtain q q' where q: "unat t = 4096 * q" "unat t' = 4096 * q'"
    using assms(1,2) unfolding page_aligned_nat by (metis mod_0_imp_dvd dvdE)
  then have "q \<noteq> q'" using assms(3) by (metis word_unat_eq_iff)
  then show ?thesis unfolding q by (metis add.commute linorder_neqE_nat mult_Suc_right mult_le_mono2 Suc_leI)
qed

lemma aligned_top: "page_aligned t \<Longrightarrow> unat t + 4096 \<le> 2 ^ 32"
proof -
  assume "page_aligned t"
  then obtain q where q: "unat t = 4096 * q" unfolding page_aligned_nat by (metis mod_0_imp_dvd dvdE)
  then have "4096 * q < 4096 * 1048576" using unat_lt32 [of t] by simp
  then have "q < 1048576" by simp
  then have "Suc q \<le> 1048576" by (rule Suc_leI)
  then have "4096 * Suc q \<le> 4096 * 1048576" by (rule mult_le_mono2)
  then show ?thesis using q by simp
qed

lemma unat_entry_addr:
  assumes "page_aligned t" "i < 1024"
  shows "unat (entry_addr t i) = unat t + 4 * unat i" "unat i < 1024"
proof -
  have i: "unat i < 1024" using assms(2) by (simp add: word_less_nat_alt)
  then have "unat (4 * i) = 4 * unat i" by (simp add: unat_word_ariths)
  moreover have "unat t + 4 * unat i < 2 ^ 32" using aligned_top [OF assms(1)] i by linarith
  ultimately show "unat (entry_addr t i) = unat t + 4 * unat i"
    unfolding entry_addr_def by (metis unat_add32)
  show "unat i < 1024" by (fact i)
qed

lemma load_store_entry:
  assumes "page_aligned t" "page_aligned t'" "i < 1024" "i' < 1024"
  shows "load32 (store32 m (entry_addr t i) v) (entry_addr t' i') =
    (if t = t' \<and> i = i' then v else load32 m (entry_addr t' i'))"
proof (cases "t = t' \<and> i = i'")
  case False
  note a = unat_entry_addr [OF assms(1,3)] and a' = unat_entry_addr [OF assms(2,4)]
  have "unat (entry_addr t' i') + 4 \<le> unat (entry_addr t i) \<or>
        unat (entry_addr t i) + 4 \<le> unat (entry_addr t' i')"
  proof (cases "t = t'")
    case True
    with False have "unat i \<noteq> unat i'" "unat t = unat t'" by (simp_all add: word_unat_eq_iff)
    then show ?thesis unfolding a(1) a'(1) by linarith
  next
    case False
    then show ?thesis using aligned_cases [OF assms(1,2)] a(2) a'(2) unfolding a(1) a'(1) by linarith
  qed
  moreover have "unat (entry_addr t i) + 4 \<le> 2 ^ 32" "unat (entry_addr t' i') + 4 \<le> 2 ^ 32"
    using aligned_top [OF assms(1)] aligned_top [OF assms(2)] a(2) a'(2) unfolding a(1) a'(1) by linarith+
  ultimately have "rd32 (wr32 m (unat (entry_addr t i)) v) (unat (entry_addr t' i')) =
      rd32 m (unat (entry_addr t' i'))"
    by (intro rd32_wr32_other)
  then show ?thesis using False by (simp only: of_unat32 if_False)
qed simp

lemma memset_load_entry:
  assumes "page_aligned t" "page_aligned t'" "i < 1024"
  shows "load32 (memset m t' 0 4096) (entry_addr t i) = (if t = t' then 0 else load32 m (entry_addr t i))"
proof -
  let ?a = "unat (entry_addr t i)"
  note a = unat_entry_addr [OF assms(1,3)]
  have top: "?a + 4 \<le> 2 ^ 32" using aligned_top [OF assms(1)] a(2) unfolding a(1) by linarith
  have in_page: "of_nat j - t' < 4096 \<longleftrightarrow> t = t'" if "?a \<le> j" "j < ?a + 4" for j
  proof -
    have j: "unat (of_nat j :: u32) = j" using that top by (intro unat_of_nat32) linarith
    have lo: "unat t \<le> j" "j < unat t + 4096" using that a by linarith+
    show ?thesis
    proof (cases "t = t'")
      case True
      then have "unat (of_nat j - t') = j - unat t"
        using lo j by (simp add: unat_sub word_le_nat_alt)
      then show ?thesis using True lo by (simp add: word_less_nat_alt less_diff_conv2)
    next
      case False
      then have out: "j < unat t' \<or> unat t' + 4096 \<le> j"
        using aligned_cases [OF assms(1,2)] lo by linarith
      have "4096 \<le> unat (of_nat j - t')"
        using out j aligned_top [OF assms(2)] by (auto simp: unat_sub_if')
      then show ?thesis using False by (simp add: word_less_nat_alt)
    qed
  qed
  show ?thesis
  proof (cases "t = t'")
    case True
    have "rd32 (memset m t' 0 4096) ?a = rd32 (\<lambda>_. 0) ?a"
      by (rule rd32_agree [OF top]) (simp add: memset_apply in_page True)
    then show ?thesis using True by (simp only: of_unat32) (simp add: load32_def)
  next
    case False
    have "rd32 (memset m t' 0 4096) ?a = rd32 m ?a"
      by (rule rd32_agree [OF top]) (simp add: memset_apply in_page False)
    then show ?thesis using False by (simp only: of_unat32 if_False)
  qed
qed

section \<open>Page numbers and table entries\<close>

definition vpn :: "u32 \<Rightarrow> u32" where
  "vpn virt = drop_bit 12 virt"

lemma unat_drop: "unat (drop_bit n (v :: u32)) = unat v div 2 ^ n"
  by (subst unat_drop_bit_eq) (simp add: drop_bit_eq_div)

lemma low10_less: "v AND 0x3FF < (1024 :: u32)"
proof -
  have "unat (v AND 0x3FF) = unat (take_bit 10 v)" by (simp add: take_bit_eq_mask mask_nums)
  also have "\<dots> = take_bit 10 (unat v)" by (rule unsigned_take_bit_eq)
  finally show ?thesis by (simp add: word_less_nat_alt take_bit_eq_mod)
qed

lemma drop10_less: "v < 0x100000 \<Longrightarrow> drop_bit 10 v < (1024 :: u32)"
  unfolding word_less_nat_alt unat_drop by (rule less_mult_imp_div_less) simp

lemma vpn_less: "vpn virt < 0x100000"
  unfolding word_less_nat_alt unat_drop vpn_def by (rule less_mult_imp_div_less) simp

lemma table_idx_vpn: "table_idx virt = drop_bit 10 (vpn virt)"
  by (simp add: table_idx_def vpn_def)

lemma page_idx_vpn: "page_idx virt = vpn virt AND 0x3FF"
  by (simp add: page_idx_def vpn_def)

lemma idx_less [simp]: "table_idx virt < 1024" "page_idx virt < 1024"
  by (simp_all add: table_idx_vpn page_idx_vpn drop10_less vpn_less low10_less)

lemma vpn_split:
  assumes "drop_bit 10 v = drop_bit 10 (w :: u32)" "v AND 0x3FF = w AND 0x3FF"
  shows "v = w"
proof -
  have "take_bit 10 v = take_bit 10 w" using assms(2) by (simp add: take_bit_eq_mask mask_nums)
  then show ?thesis using assms(1) by (metis bits_ident)
qed

lemma table_of_aligned [simp]: "page_aligned (table_of e)"
  by (rule bit_word_eqI) (auto simp: table_of_def mask_nums bit_simps)

lemma aligned_bits: "page_aligned t \<Longrightarrow> bit t n \<Longrightarrow> 12 \<le> n"
proof (rule ccontr)
  assume "page_aligned t" "bit t n" "\<not> 12 \<le> n"
  from this(2,3) have "bit (t AND 0xFFF) n" by (simp add: mask_nums bit_simps)
  with \<open>page_aligned t\<close> show False by simp
qed

lemma low_bits: "flags AND 0xFFFFF000 = 0 \<Longrightarrow> bit (flags :: u32) n \<Longrightarrow> n < 12"
proof (rule ccontr)
  assume "flags AND 0xFFFFF000 = 0" "bit flags n" "\<not> n < 12"
  moreover from this(2,3) have "bit (flags AND 0xFFFFF000) n"
    using bit_imp_le_length [of flags n] by (simp add: mask_nums bit_simps)
  ultimately show False by simp
qed

lemma table_of_entry:
  assumes "page_aligned t" "flags AND 0xFFFFF000 = 0"
  shows "table_of (t OR flags OR PAGE_PRESENT OR PAGE_WRITABLE) = t"
proof (rule bit_word_eqI)
  fix n assume n: "n < LENGTH(32)"
  have "bit (1 :: u32) n \<Longrightarrow> n < 12" "bit (2 :: u32) n \<Longrightarrow> n < 12"
    by (simp_all add: bit_1_iff bit_2_iff)
  then show "bit (table_of (t OR flags OR PAGE_PRESENT OR PAGE_WRITABLE)) n = bit t n"
    using aligned_bits [OF assms(1), of n] low_bits [OF assms(2), of n] n
    unfolding table_of_def mask_nums bit_and_iff bit_or_iff bit_not_iff bit_mask_iff by auto
qed

lemma or_present: "(x OR PAGE_PRESENT) AND PAGE_PRESENT \<noteq> (0 :: u32)"
  "(x OR PAGE_PRESENT OR PAGE_WRITABLE) AND PAGE_PRESENT \<noteq> (0 :: u32)"
proof -
  have "bit ((x OR PAGE_PRESENT) AND PAGE_PRESENT) 0"
    "bit ((x OR PAGE_PRESENT OR PAGE_WRITABLE) AND PAGE_PRESENT) 0" by (simp_all add: bit_simps)
  then show "(x OR PAGE_PRESENT) AND PAGE_PRESENT \<noteq> 0"
    "(x OR PAGE_PRESENT OR PAGE_WRITABLE) AND PAGE_PRESENT \<noteq> 0" by force+
qed

section \<open>Mapping a page\<close>

lemma mem_pmm [simp]:
  "mem (snd (pmm_alloc_frame s)) = mem s" "mem (pmm_free_frame a s) = mem s"
  by (simp_all add: pmm_alloc_frame_def pmm_free_frame_def bitmap_set_def bitmap_clear_def Let_def)

lemma alloc_mem: "pmm_alloc_frame s = (a, s') \<Longrightarrow> mem s' = mem s"
  using mem_pmm(1) [of s] by simp

lemma pmm_mem_upd [simp]:
  "free_set (s\<lparr>mem := m\<rparr>) = free_set s" "pmm_ok (s\<lparr>mem := m\<rparr>) = pmm_ok s"
  by (simp_all add: free_set_def pmm_ok_def bitmap_test_def)

lemma alloc_page:
  assumes "pmm_ok s" "pmm_alloc_frame s = (a, s')" "a \<noteq> 0"
  shows "page_aligned a" "\<not> in_use a s" "in_use b s' \<longleftrightarrow> in_use b s \<or> unat b div 4096 = unat a div 4096"
proof -
  obtain f where f: "f \<in> free_set s" "unat a = f * 4096" "free_set s' = free_set s - {f}"
    using frames.alloc_some [OF assms] by blast
  show "page_aligned a" unfolding page_aligned_nat f(2) by simp
  show "\<not> in_use a s" using f by (simp add: in_use_def)
  show "in_use b s' \<longleftrightarrow> in_use b s \<or> unat b div 4096 = unat a div 4096" using f by (auto simp: in_use_def)
qed

lemma dir_ok_aligned:
  assumes "dir_ok dir s" shows "page_aligned dir" "page_aligned (dir + 4096)"
proof -
  show "page_aligned dir" using assms by (simp add: dir_ok_def)
  moreover have "unat (dir + 4096) = unat dir + 4096"
    using assms by (simp add: dir_ok_def unat_word_ariths)
  ultimately show "page_aligned (dir + 4096)" by (simp add: page_aligned_nat)
qed

text \<open>The memory after a new table was entered, read entry by entry.\<close>

lemma new_table_load:
  assumes "page_aligned dir" "page_aligned (dir + 4096)" "page_aligned t" "page_aligned q" "ti < 1024" "i < 1024"
  shows "load32 (memset (store32 (store32 m (entry_addr dir ti) e) (entry_addr (dir + 4096) ti) t) t 0 4096)
      (entry_addr q i) =
    (if q = t then 0 else if q = dir + 4096 \<and> i = ti then t else if q = dir \<and> i = ti then e
     else load32 m (entry_addr q i))"
  using assms by (auto simp: memset_load_entry load_store_entry)

lemma get_or_create_present:
  "table_at dir ti s = Some t \<Longrightarrow> get_or_create_table dir ti flags s = (t, s)"
  by (auto simp: table_at_def get_or_create_table_def split: if_splits)

lemma get_or_create_new:
  assumes "table_at dir ti s = None" "pmm_alloc_frame s = (t, s1)" "t \<noteq> 0"
  shows "get_or_create_table dir ti flags s = (t, s1\<lparr>mem :=
     memset (store32 (store32 (mem s) (entry_addr dir ti) (t OR flags OR PAGE_PRESENT OR PAGE_WRITABLE))
       (entry_addr (dir + 4096) ti) t) t 0 4096\<rparr>)"
  using assms alloc_mem [OF assms(2)]
  by (simp add: table_at_def get_or_create_table_def set_dir_entry_def set_tables_physical_def split: if_splits)

lemma dir_entry_new:
  assumes "dir_ok dir s" "page_aligned t" "t \<noteq> dir" "ti < 1024" "i < 1024"
  shows "dir_entry dir i (s1\<lparr>mem := memset (store32 (store32 (mem s) (entry_addr dir ti) e)
       (entry_addr (dir + 4096) ti) t) t 0 4096\<rparr>) = (if i = ti then e else dir_entry dir i s)"
  using assms dir_ok_aligned [OF assms(1)] by (simp add: dir_entry_def new_table_load)

lemma table_at_aligned: "table_at dir i s = Some t \<Longrightarrow> page_aligned t"
  using table_of_aligned by (auto simp: table_at_def split: if_splits)

lemma table_at_in_use: "dir_ok dir s \<Longrightarrow> i < 1024 \<Longrightarrow> table_at dir i s = Some t \<Longrightarrow>
    t \<noteq> 0 \<and> t \<noteq> dir \<and> t \<noteq> dir + 4096 \<and> in_use t s \<and> page_aligned t"
  unfolding dir_ok_def using table_at_aligned by blast

lemma dir_ok_in_use: "dir_ok dir s \<Longrightarrow> in_use dir s \<and> in_use (dir + 4096) s"
  unfolding dir_ok_def by blast

lemma table_at_inj: "dir_ok dir s \<Longrightarrow> i < 1024 \<Longrightarrow> j < 1024 \<Longrightarrow> table_at dir i s = Some t \<Longrightarrow>
    table_at dir j s = Some t \<Longrightarrow> i = j"
  unfolding dir_ok_def by blast

lemma vspace_table:
  "vspace dir s v = (if v < 0x100000 then case table_at dir (drop_bit 10 v) s of
      None \<Rightarrow> None
    | Some t \<Rightarrow> let p = load32 (mem s) (entry_addr t (v AND 0x3FF)) in if p AND PAGE_PRESENT \<noteq> 0 then Some p else None
    else None)"
  by (simp add: vspace_def table_at_def Let_def)

lemma new_table:
  assumes "pmm_ok s" "dir_ok dir s" "ti < 1024" "flags AND 0xFFFFF000 = 0"
    and none: "table_at dir ti s = None" and al: "pmm_alloc_frame s = (t, s1)" "t \<noteq> 0"
    and s': "get_or_create_table dir ti flags s = (t', s')"
  shows "t' = t" "pmm_ok s'" "dir_ok dir s'" "table_at dir ti s' = Some t" "vspace dir s' = vspace dir s"
proof -
  let ?e = "t OR flags OR PAGE_PRESENT OR PAGE_WRITABLE"
  note t = alloc_page [OF assms(1) al]
  note d = dir_ok_aligned [OF assms(2)]
  have s'_eq: "s' = s1\<lparr>mem := memset (store32 (store32 (mem s) (entry_addr dir ti) ?e)
       (entry_addr (dir + 4096) ti) t) t 0 4096\<rparr>" and "t' = t"
    using get_or_create_new [OF none al, of flags] unfolding s' by blast+
  then show "t' = t" by simp
  have fresh: "t \<noteq> dir" "t \<noteq> dir + 4096" "\<And>i. i < 1024 \<Longrightarrow> table_at dir i s \<noteq> Some t"
    using t(2) dir_ok_in_use [OF assms(2)] table_at_in_use [OF assms(2)] by blast+
  have use: "in_use b s \<Longrightarrow> in_use b s'" "in_use t s'" for b
    using t(3) [of b] t(3) [of t] unfolding s'_eq in_use_def pmm_mem_upd by blast+
  have e: "?e AND PAGE_PRESENT \<noteq> 0" "table_of ?e = t"
    using or_present(2) [of "t OR flags"] table_of_entry [OF t(1) assms(4)] unfolding or.assoc by blast+
  have at: "table_at dir i s' = (if i = ti then Some t else table_at dir i s)" if "i < 1024" for i
    unfolding table_at_def s'_eq dir_entry_new [OF assms(2) t(1) fresh(1) assms(3) that] using e by simp
  then show "table_at dir ti s' = Some t" using assms(3) by simp
  have ms: "mem s' = memset (store32 (store32 (mem s) (entry_addr dir ti) ?e)
       (entry_addr (dir + 4096) ti) t) t 0 4096" unfolding s'_eq by simp
  have ld_t: "load32 (mem s') (entry_addr t (v AND 0x3FF)) = 0" for v
    unfolding ms new_table_load [OF d t(1) t(1) assms(3) low10_less] if_P [OF refl] ..
  have ld: "load32 (mem s') (entry_addr q (v AND 0x3FF)) = load32 (mem s) (entry_addr q (v AND 0x3FF))"
    if "page_aligned q" "q \<noteq> t" "q \<noteq> dir" "q \<noteq> dir + 4096" for q v
    unfolding ms new_table_load [OF d t(1) that(1) assms(3) low10_less] using that(2-4) by argo
  show "pmm_ok s'" using frames.alloc_ok [OF assms(1) al(1)] by (simp add: s'_eq)
  show "dir_ok dir s'"
    unfolding dir_ok_def
  proof (intro conjI allI impI)
    fix i u assume i: "i < 1024" and u: "table_at dir i s' = Some u"
    show "u \<noteq> 0" "u \<noteq> dir" "u \<noteq> dir + 4096" "in_use u s'"
      using table_at_in_use [OF assms(2) i, of u] u fresh(1,2) al(2) use(2) use(1) [of u]
      unfolding at [OF i] by (cases "i = ti"; simp)+
    fix j assume j: "j < 1024" "j \<noteq> i"
    show "table_at dir j s' \<noteq> Some u"
      using i u j fresh(3) [OF i] fresh(3) [OF j(1)] table_at_inj [OF assms(2) i j(1), of u]
      unfolding at [OF i] at [OF j(1)] by (cases "i = ti"; cases "j = ti") auto
  next
    show "in_use dir s'" "in_use (dir + 4096) s'" using dir_ok_in_use [OF assms(2)] use(1) by blast+
    show "page_aligned dir" by (fact d(1))
    show "unat dir + 8192 \<le> 2 ^ 32" using assms(2) unfolding dir_ok_def by blast
  qed
  show "vspace dir s' = vspace dir s"
  proof
    fix v
    show "vspace dir s' v = vspace dir s v"
    proof (cases "v < 0x100000")
      case True
      then have i: "drop_bit 10 v < 1024" by (rule drop10_less)
      show ?thesis
      proof (cases "drop_bit 10 v = ti")
        case ti: True
        have "table_at dir (drop_bit 10 v) s' = Some t" "table_at dir (drop_bit 10 v) s = None"
          using none at [OF i] unfolding ti by simp_all
        then show ?thesis unfolding vspace_table by (simp add: ld_t)
      next
        case False
        then have same: "table_at dir (drop_bit 10 v) s' = table_at dir (drop_bit 10 v) s"
          using at [OF i] by simp
        show ?thesis
        proof (cases "table_at dir (drop_bit 10 v) s")
          case None
          then show ?thesis using same by (simp add: vspace_table)
        next
          case (Some u)
          then have u: "u \<noteq> t" "u \<noteq> dir + 4096" "u \<noteq> dir" "page_aligned u"
            using fresh(3) [OF i] table_at_in_use [OF assms(2) i Some] by blast+
          then show ?thesis unfolding vspace_table same Some by (simp add: ld)
        qed
      qed
    qed (simp add: vspace_table)
  qed
qed

text \<open>Writing an entry of a table changes that page and no other.\<close>

lemma store_page:
  assumes "dir_ok dir s" "table_at dir ti s = Some t" "ti < 1024" "pi < 1024"
    and "s' = s\<lparr>mem := store32 (mem s) (entry_addr t pi) e\<rparr>"
  shows "i < 1024 \<Longrightarrow> table_at dir i s' = table_at dir i s" "dir_ok dir s'"
    "drop_bit 10 v = ti \<Longrightarrow> v AND 0x3FF = pi \<Longrightarrow> v < 0x100000 \<Longrightarrow>
           vspace dir s' = (vspace dir s)(v := if e AND PAGE_PRESENT \<noteq> 0 then Some e else None)"
proof -
  have t: "t \<noteq> dir" "page_aligned t" using table_at_in_use [OF assms(1,3,2)] by blast+
  note d = dir_ok_aligned(1) [OF assms(1)]
  have ent: "dir_entry dir i s' = dir_entry dir i s" if "i < 1024" for i
    using load_store_entry [OF t(2) d assms(4) that] t(1) by (simp add: dir_entry_def assms(5))
  then have at: "table_at dir i s' = table_at dir i s" if "i < 1024" for i
    unfolding table_at_def using that by simp
  then show "i < 1024 \<Longrightarrow> table_at dir i s' = table_at dir i s" .
  have use: "in_use b s' = in_use b s" for b by (simp add: in_use_def assms(5))
  show "dir_ok dir s'"
    unfolding dir_ok_def use
  proof (intro conjI allI impI)
    fix i u assume i: "i < 1024" and u: "table_at dir i s' = Some u"
    show "u \<noteq> 0" "u \<noteq> dir" "u \<noteq> dir + 4096" "in_use u s"
      using table_at_in_use [OF assms(1) i] u unfolding at [OF i] by blast+
    fix j assume "j < 1024" "j \<noteq> i"
    then show "table_at dir j s' \<noteq> Some u"
      using table_at_inj [OF assms(1) i] u at [OF i] at [of j] by metis
  qed (use assms(1) in \<open>unfold dir_ok_def, blast+\<close>)
  assume v: "drop_bit 10 v = ti" "v AND 0x3FF = pi" "v < 0x100000"
  show "vspace dir s' = (vspace dir s)(v := if e AND PAGE_PRESENT \<noteq> 0 then Some e else None)"
  proof
    fix w
    show "vspace dir s' w = ((vspace dir s)(v := if e AND PAGE_PRESENT \<noteq> 0 then Some e else None)) w"
    proof (cases "w < 0x100000")
      case True
      then have i: "drop_bit 10 w < 1024" by (rule drop10_less)
      show ?thesis
      proof (cases "table_at dir (drop_bit 10 w) s")
        case None
        then have "w \<noteq> v" using v assms(2) by auto
        then show ?thesis using None at [OF i] by (simp add: vspace_table)
      next
        case (Some u)
        have u: "page_aligned u" using table_at_in_use [OF assms(1) i Some] by blast
        have "u = t \<longleftrightarrow> drop_bit 10 w = ti"
          using table_at_inj [OF assms(1) i assms(3)] Some assms(2) by auto
        then have "u = t \<and> w AND 0x3FF = pi \<longleftrightarrow> w = v"
          using v(1,2) vpn_split [of w v] by (metis (no_types))
        then have "load32 (mem s') (entry_addr u (w AND 0x3FF)) =
            (if w = v then e else load32 (mem s) (entry_addr u (w AND 0x3FF)))"
          using load_store_entry [OF t(2) u assms(4) low10_less, of "mem s" e w]
          by (cases "w = v") (auto simp: assms(5))
        then show ?thesis using Some at [OF i] True v by (simp add: vspace_table)
      qed
    qed (use v(3) in \<open>auto simp: vspace_table\<close>)
  qed
qed

text \<open>
  What mapping and unmapping do to a well-formed address space: an update of one page number.
\<close>

definition pte :: "u32 \<Rightarrow> u32 \<Rightarrow> u32" where
  "pte phys flags = (phys AND 0xFFFFF000) OR (flags AND 0xFFF) OR PAGE_PRESENT"

lemma get_physical_vspace:
  "vmm_get_physical dir virt s =
     (case vspace dir s (vpn virt) of None \<Rightarrow> 0 | Some p \<Rightarrow> (p AND 0xFFFFF000) OR (virt AND 0xFFF))"
  by (simp add: vmm_get_physical_def vspace_def Let_def table_idx_vpn page_idx_vpn vpn_less)

lemma get_or_create_ok:
  assumes "pmm_ok s" "dir_ok dir s" "ti < 1024" "flags AND 0xFFFFF000 = 0"
    and "get_or_create_table dir ti flags s = (t, s')" "t \<noteq> 0"
  shows "pmm_ok s'" "dir_ok dir s'" "table_at dir ti s' = Some t" "vspace dir s' = vspace dir s"
proof -
  have "pmm_ok s' \<and> dir_ok dir s' \<and> table_at dir ti s' = Some t \<and> vspace dir s' = vspace dir s"
  proof (cases "table_at dir ti s")
    case None
    obtain a s1 where a: "pmm_alloc_frame s = (a, s1)" by (rule prod.exhaust)
    have "a \<noteq> 0"
    proof
      assume "a = 0"
      then have "get_or_create_table dir ti flags s = (0, s1)"
        using None a by (simp add: get_or_create_table_def table_at_def split: if_splits)
      then show False using assms(5,6) by simp
    qed
    from new_table [OF assms(1-4) None a this assms(5)] show ?thesis by simp
  next
    case (Some u)
    from get_or_create_present [OF this, of flags] show ?thesis using assms(1,2,5) Some by simp
  qed
  then show "pmm_ok s'" "dir_ok dir s'" "table_at dir ti s' = Some t" "vspace dir s' = vspace dir s"
    by blast+
qed

lemma pte_present: "pte phys flags AND PAGE_PRESENT \<noteq> 0"
  using or_present(1) [of "(phys AND 0xFFFFF000) OR (flags AND 0xFFF)"]
  unfolding pte_def or.assoc .

lemma pte_frame: "pte phys flags AND 0xFFFFF000 = phys AND 0xFFFFF000"
proof (rule bit_word_eqI)
  fix n assume n: "n < LENGTH(32)"
  have "bit (1 :: u32) n \<Longrightarrow> n < 12" by (simp add: bit_1_iff)
  then show "bit (pte phys flags AND 0xFFFFF000) n = bit (phys AND 0xFFFFF000) n"
    using n unfolding pte_def mask_nums bit_and_iff bit_or_iff bit_not_iff bit_mask_iff by auto
qed

lemma map_page_ok:
  assumes "pmm_ok s" "dir_ok dir s" "flags AND 0xFFFFF000 = 0"
    and "fst (get_or_create_table dir (table_idx virt) flags s) \<noteq> 0"
    and "s' = vmm_map_page dir virt phys flags s"
  shows "pmm_ok s'" "dir_ok dir s'" "vspace dir s' = (vspace dir s)(vpn virt \<mapsto> pte phys flags)"
proof -
  obtain t s1 where g: "get_or_create_table dir (table_idx virt) flags s = (t, s1)" by (rule prod.exhaust)
  with assms(4) have "t \<noteq> 0" by simp
  note 1 = get_or_create_ok [OF assms(1,2) idx_less(1) assms(3) g this]
  have s': "s' = s1\<lparr>mem := store32 (mem s1) (entry_addr t (page_idx virt)) (pte phys flags)\<rparr>"
    using g \<open>t \<noteq> 0\<close> by (simp add: assms(5) vmm_map_page_def pte_def)
  show "pmm_ok s'" using 1(1) by (simp add: s')
  show "dir_ok dir s'" by (rule store_page(2) [OF 1(2,3) idx_less s'])
  show "vspace dir s' = (vspace dir s)(vpn virt \<mapsto> pte phys flags)"
    using store_page(3) [OF 1(2,3) idx_less s' table_idx_vpn [symmetric] page_idx_vpn [symmetric] vpn_less]
    unfolding 1(4) if_P [OF pte_present] .
qed

lemma unmap_page_ok:
  assumes "pmm_ok s" "dir_ok dir s" and "s' = vmm_unmap_page dir virt s"
  shows "pmm_ok s'" "dir_ok dir s'" "vspace dir s' = (vspace dir s)(vpn virt := None)"
proof -
  have "pmm_ok s' \<and> dir_ok dir s' \<and> vspace dir s' = (vspace dir s)(vpn virt := None)"
  proof (cases "table_at dir (table_idx virt) s")
    case None
    then have s': "s' = s" by (simp add: assms(3) vmm_unmap_page_def table_at_def split: if_splits)
    have "vspace dir s (vpn virt) = None" using None by (simp add: vspace_table table_idx_vpn)
    then show ?thesis using assms(1,2) by (simp add: s' fun_upd_idem)
  next
    case (Some t)
    then have s': "s' = s\<lparr>mem := store32 (mem s) (entry_addr t (page_idx virt)) 0\<rparr>"
      by (auto simp: assms(3) vmm_unmap_page_def table_at_def split: if_splits)
    have "dir_ok dir s'" by (rule store_page(2) [OF assms(2) Some idx_less s'])
    moreover have "vspace dir s' = (vspace dir s)(vpn virt := None)"
      using store_page(3) [OF assms(2) Some idx_less s' table_idx_vpn [symmetric] page_idx_vpn [symmetric] vpn_less]
      by simp
    ultimately show ?thesis using assms(1) by (simp add: s')
  qed
  then show "pmm_ok s'" "dir_ok dir s'" "vspace dir s' = (vspace dir s)(vpn virt := None)" by blast+
qed

section \<open>A new address space\<close>

lemma memset_load_zero:
  assumes "ofs \<le> 12284"
  shows "load32 (memset m dir 0 sizeof_page_directory) (dir + ofs) = 0"
proof -
  have o: "unat ofs \<le> 12284" using assms by (simp add: word_le_nat_alt)
  have "ofs < 12288" "ofs + 1 < 12288" "ofs + 2 < 12288" "ofs + 3 < 12288"
    using o unat_add32 [of ofs 1] unat_add32 [of ofs 2] unat_add32 [of ofs 3]
    by (simp_all add: word_less_nat_alt)
  then show ?thesis by (simp add: load32_def memset_apply add.assoc)
qed

lemma memset_load_apart:
  assumes "page_aligned dir" "page_aligned q" "i < 1024" "unat dir + 12288 \<le> 2 ^ 32"
    and "q \<noteq> dir" "q \<noteq> dir + 4096" "q \<noteq> dir + 8192"
  shows "load32 (memset m dir 0 sizeof_page_directory) (entry_addr q i) = load32 m (entry_addr q i)"
proof -
  let ?a = "unat (entry_addr q i)"
  note a = unat_entry_addr [OF assms(2,3)]
  have top: "?a + 4 \<le> 2 ^ 32" using aligned_top [OF assms(2)] a(2) unfolding a(1) by linarith
  have u: "unat (dir + 4096) = unat dir + 4096" "unat (dir + 8192) = unat dir + 8192"
    using assms(4) by (simp_all add: unat_word_ariths)
  then have al: "page_aligned (dir + 4096)" "page_aligned (dir + 8192)"
    using assms(1) mod_mult_self1 [of "unat dir" 2 4096] by (simp_all add: page_aligned_nat)
  have apart: "unat q + 4096 \<le> unat dir \<or> unat dir + 12288 \<le> unat q"
    using aligned_cases [OF assms(2,1,5)] aligned_cases [OF assms(2) al(1) assms(6)]
      aligned_cases [OF assms(2) al(2) assms(7)] unfolding u by linarith
  have "rd32 (memset m dir 0 sizeof_page_directory) ?a = rd32 m ?a"
  proof (rule rd32_agree [OF top])
    fix j assume j: "?a \<le> j" "j < ?a + 4"
    have "unat (of_nat j :: u32) = j" using j top by (intro unat_of_nat32) linarith
    moreover have "j < unat dir \<or> unat dir + 12288 \<le> j" using j a apart by linarith
    ultimately have "12288 \<le> unat (of_nat j - dir)" using assms(4) by (auto simp: unat_sub_if')
    then show "memset m dir 0 sizeof_page_directory (of_nat j) = m (of_nat j)"
      by (simp add: memset_apply word_less_nat_alt)
  qed
  then show ?thesis by (simp only: of_unat32)
qed

lemma copy_entries_load:
  assumes "page_aligned d" "page_aligned (kernel_directory s)" "d \<noteq> kernel_directory s"
  shows "n \<le> 1024 \<Longrightarrow> kernel_directory (fold (copy_entry d) [0..<n] s) = kernel_directory s \<and>
    (\<forall>q i. page_aligned q \<longrightarrow> i < 1024 \<longrightarrow>
       load32 (mem (fold (copy_entry d) [0..<n] s)) (entry_addr q i) =
         (if q = d \<and> unat i < n \<and> dir_entry (kernel_directory s) i s AND PAGE_PRESENT \<noteq> 0
          then dir_entry (kernel_directory s) i s else load32 (mem s) (entry_addr q i)))"
proof (induction n)
  case (Suc n)
  define t where "t = fold (copy_entry d) [0..<n] s"
  let ?K = "kernel_directory s" and ?n = "of_nat n :: u32"
  have n: "?n < 1024" "unat ?n = n" using Suc.prems by (simp_all add: word_less_nat_alt unat_of_nat32)
  have IH: "kernel_directory t = ?K" "\<And>q i. page_aligned q \<Longrightarrow> i < 1024 \<Longrightarrow>
       load32 (mem t) (entry_addr q i) =
         (if q = d \<and> unat i < n \<and> dir_entry ?K i s AND PAGE_PRESENT \<noteq> 0
          then dir_entry ?K i s else load32 (mem s) (entry_addr q i))"
    using Suc unfolding t_def by auto
  have K: "dir_entry ?K ?n t = dir_entry ?K ?n s"
    using IH(2) [OF assms(2) n(1)] assms(3) by (simp add: dir_entry_def)
  have step: "fold (copy_entry d) [0..<Suc n] s = copy_entry d n t" by (simp add: t_def)
  have lt: "unat i < Suc n \<longleftrightarrow> unat i < n \<or> i = ?n" for i
    using n(2) by (auto simp: less_Suc_eq word_unat_eq_iff)
  show ?case
  proof (cases "dir_entry ?K ?n s AND PAGE_PRESENT = 0")
    case True
    then have "copy_entry d n t = t" by (simp add: copy_entry_def IH(1) K)
    then show ?thesis unfolding step lt using IH True by auto
  next
    case False
    then have c: "copy_entry d n t = t\<lparr>mem := store32 (mem t) (entry_addr d ?n) (dir_entry ?K ?n s)\<rparr>"
      by (simp add: copy_entry_def IH(1) K set_dir_entry_def)
    have "load32 (mem (copy_entry d n t)) (entry_addr q i) =
         (if q = d \<and> (unat i < n \<or> i = ?n) \<and> dir_entry ?K i s AND PAGE_PRESENT \<noteq> 0
          then dir_entry ?K i s else load32 (mem s) (entry_addr q i))" if "page_aligned q" "i < 1024" for q i
      using load_store_entry [OF assms(1) that(1) n(1) that(2), of "mem t"] IH(2) [OF that] False
      by (auto simp: c)
    then show ?thesis unfolding step lt using IH(1) by (simp add: c)
  qed
qed simp

lemma kprintf_vmm [simp]:
  "kernel_directory (kprintf f a s) = kernel_directory s" "current_directory (kprintf f a s) = current_directory s"
  "kernel_end_addr (kprintf f a s) = kernel_end_addr s" "kvmm.more (kprintf f a s) = kvmm.more s"
  by (subst kprintf_eq; simp)+

lemma pmm_vmm [simp]:
  "kernel_directory (snd (pmm_alloc_frame s)) = kernel_directory s"
  "kernel_directory (pmm_free_frame a s) = kernel_directory s"
  by (simp_all add: pmm_alloc_frame_def pmm_free_frame_def bitmap_set_def bitmap_clear_def Let_def)

text \<open>The three pages a \<^verbatim>\<open>page_directory_t\<close> at \<open>d\<close> occupies.\<close>

definition dir_pages :: "u32 \<Rightarrow> u32 set" where
  "dir_pages d = {d, d + 4096, d + 8192}"

lemma alloc_bound:
  assumes "pmm_ok s" "pmm_alloc_frame s = (a, s')" "a \<noteq> 0"
  shows "unat a + 12288 \<le> 2 ^ 32"
proof -
  obtain f where f: "f \<in> free_set s" "unat a = f * 4096"
    using frames.alloc_some [OF assms] by blast
  have "f < 131072" using free_set_bound [OF f(1)] assms(1) by (simp add: pmm_ok_def)
  then show ?thesis unfolding f(2) by simp
qed

lemma create_state:
  assumes "pmm_ok s" "pmm_alloc_frame s = (d, s1)" "d \<noteq> 0"
  shows "vmm_create_address_space s = (d, fold (copy_entry d) [0..<1024] (s1\<lparr>mem :=
     store32 (memset (mem s) d 0 sizeof_page_directory) (entry_addr (d + 8192) 0) d\<rparr>))"
  using assms alloc_mem [OF assms(2)]
  by (simp add: vmm_create_address_space_def set_physical_addr_def entry_addr_def del: upt_rec_numeral)

lemma create_load:
  assumes "pmm_ok s" "vmm_create_address_space s = (d, s')" "d \<noteq> 0"
    and "page_aligned (kernel_directory s)" "kernel_directory s \<notin> dir_pages d"
    and "page_aligned q" "i < 1024"
  shows "q = d \<Longrightarrow> load32 (mem s') (entry_addr q i) =
           (if dir_entry (kernel_directory s) i s AND PAGE_PRESENT \<noteq> 0 then dir_entry (kernel_directory s) i s else 0)"
    and "q \<notin> dir_pages d \<Longrightarrow> load32 (mem s') (entry_addr q i) = load32 (mem s) (entry_addr q i)"
    and "physical_addr d s' = d"
    and "load32 (mem s') (entry_addr (d + 4096) i) = 0"
proof -
  obtain a s1 where a: "pmm_alloc_frame s = (a, s1)" by (rule prod.exhaust)
  have "a \<noteq> 0" using assms(2,3) a by (auto simp: vmm_create_address_space_def)
  let ?s3 = "s1\<lparr>mem := store32 (memset (mem s) a 0 sizeof_page_directory) (entry_addr (a + 8192) 0) a\<rparr>"
  have d: "a = d" "s' = fold (copy_entry d) [0..<1024] ?s3"
    using create_state [OF assms(1) a \<open>a \<noteq> 0\<close>] assms(2) by auto
  have K3: "kernel_directory ?s3 = kernel_directory s" using pmm_vmm(1) [of s] a by simp
  have top: "unat d + 12288 \<le> 2 ^ 32" using alloc_bound [OF assms(1) a \<open>a \<noteq> 0\<close>] d(1) by simp
  have al: "page_aligned d" using alloc_page(1) [OF assms(1) a \<open>a \<noteq> 0\<close>] d(1) by simp
  have "unat (d + 8192) = unat d + 8192" using top by (simp add: unat_word_ariths)
  then have al8: "page_aligned (d + 8192)"
    using al mod_mult_self1 [of "unat d" 2 4096] by (simp add: page_aligned_nat)
  have ne: "d + 8192 \<noteq> d" by simp
  have m3: "load32 (mem ?s3) (entry_addr p j) =
      (if p = d + 8192 \<and> j = 0 then d else load32 (memset (mem s) d 0 sizeof_page_directory) (entry_addr p j))"
    if "page_aligned p" "j < 1024" for p j
    using load_store_entry [OF al8 that(1) _ that(2), of 0] d(1) by auto
  have KK: "dir_entry (kernel_directory s) j ?s3 = dir_entry (kernel_directory s) j s" if "j < 1024" for j
    using m3 [OF assms(4) that] memset_load_apart [OF al assms(4) that top] assms(5)
    by (auto simp: dir_entry_def dir_pages_def)
  have dK: "d \<noteq> kernel_directory ?s3" using assms(5) K3 by (auto simp: dir_pages_def)
  have aK: "page_aligned (kernel_directory ?s3)" using assms(4) K3 by simp
  note c = copy_entries_load [OF al aK dK, of 1024, simplified, folded d(2), THEN conjunct2, rule_format]
  have c': "load32 (mem s') (entry_addr p j) = (if p = d \<and> dir_entry (kernel_directory s) j s AND PAGE_PRESENT \<noteq> 0
      then dir_entry (kernel_directory s) j s else load32 (mem ?s3) (entry_addr p j))"
    if "page_aligned p" "j < 1024" for p j
    using c [OF that] KK [OF that(2)] K3 that(2) by (simp add: word_less_nat_alt)
  have z: "load32 (memset (mem s) d 0 sizeof_page_directory) (entry_addr d i) = 0"
    unfolding entry_addr_def by (rule memset_load_zero) (use assms(7) in \<open>simp add: word_le_nat_alt word_less_nat_alt unat_word_ariths\<close>)
  show "q = d \<Longrightarrow> load32 (mem s') (entry_addr q i) =
           (if dir_entry (kernel_directory s) i s AND PAGE_PRESENT \<noteq> 0 then dir_entry (kernel_directory s) i s else 0)"
    using c' [OF al assms(7)] m3 [OF al assms(7)] z ne by simp
  show "q \<notin> dir_pages d \<Longrightarrow> load32 (mem s') (entry_addr q i) = load32 (mem s) (entry_addr q i)"
    using c' [OF assms(6,7)] m3 [OF assms(6,7)] memset_load_apart [OF al assms(6,7) top]
    by (auto simp: dir_pages_def)
  show "physical_addr d s' = d"
    using c' [OF al8, of 0] m3 [OF al8, of 0] ne by (simp add: physical_addr_def entry_addr_def)
  have "unat (d + 4096) = unat d + 4096" using top by (simp add: unat_word_ariths)
  then have al4: "page_aligned (d + 4096)" using al by (simp add: page_aligned_nat)
  have "unat (4096 + 4 * i) \<le> 12284"
    using assms(7) by (simp add: word_less_nat_alt unat_word_ariths)
  then have "load32 (memset (mem s) d 0 sizeof_page_directory) (d + (4096 + 4 * i)) = 0"
    by (intro memset_load_zero) (simp add: word_le_nat_alt)
  then show "load32 (mem s') (entry_addr (d + 4096) i) = 0"
    using c' [OF al4 assms(7)] m3 [OF al4 assms(7)] by (simp add: entry_addr_def add.assoc)
qed

section \<open>Destroying an address space\<close>

text \<open>The frames of the tables that \<open>dir\<close> has and the kernel directory has not, among the first \<open>n\<close>.\<close>

definition private_frames :: "u32 \<Rightarrow> nat \<Rightarrow> 'a kvmm_scheme \<Rightarrow> nat set" where
  "private_frames dir n s = {f. \<exists>i < n. dir_entry dir (of_nat i) s AND PAGE_PRESENT \<noteq> 0 \<and>
     dir_entry (kernel_directory s) (of_nat i) s AND PAGE_PRESENT = 0 \<and>
     f = unat (table_of (dir_entry dir (of_nat i) s)) div 4096 \<and> f < unat (total_frames s)}"

lemma private_frames_Suc:
  "private_frames dir (Suc n) s = private_frames dir n s \<union>
     (let e = dir_entry dir (of_nat n) s; f = unat (table_of e) div 4096
      in if e AND PAGE_PRESENT \<noteq> 0 \<and> dir_entry (kernel_directory s) (of_nat n) s AND PAGE_PRESENT = 0 \<and>
            f < unat (total_frames s) then {f} else {})"
  by (auto simp: private_frames_def less_Suc_eq Let_def)

lemma release_tables:
  assumes "pmm_ok s"
  shows "let s' = fold (release_table dir) [0..<n] s in pmm_ok s' \<and> mem s' = mem s \<and>
     kernel_directory s' = kernel_directory s \<and> total_frames s' = total_frames s \<and>
     free_set s' = free_set s \<union> private_frames dir n s"
proof (induction n)
  case 0
  then show ?case using assms by (simp add: private_frames_def)
next
  case (Suc n)
  define t where "t = fold (release_table dir) [0..<n] s"
  have t: "pmm_ok t" "mem t = mem s" "kernel_directory t = kernel_directory s"
    "total_frames t = total_frames s" "free_set t = free_set s \<union> private_frames dir n s"
    using Suc unfolding t_def [symmetric] Let_def by blast+
  have step: "fold (release_table dir) [0..<Suc n] s = release_table dir n t" by (simp add: t_def)
  let ?e = "dir_entry dir (of_nat n) s"
  have e: "dir_entry q i t = dir_entry q i s" for q i by (simp add: dir_entry_def t(2))
  show ?case
  proof (cases "?e AND PAGE_PRESENT \<noteq> 0 \<and> dir_entry (kernel_directory s) (of_nat n) s AND PAGE_PRESENT = 0")
    case True
    then have r: "release_table dir n t = pmm_free_frame (table_of ?e) t"
      by (simp add: release_table_def e t(3) Let_def)
    have "free_set (pmm_free_frame (table_of ?e) t) = free_set s \<union> private_frames dir (Suc n) s"
      using pmm_free_frame_spec [OF t(1), of "table_of ?e"] True t(4,5)
      by (auto simp: private_frames_Suc Let_def)
    then show ?thesis
      unfolding step r Let_def using pmm_free_frame_spec [OF t(1), of "table_of ?e"] t by simp
  next
    case False
    then have "release_table dir n t = t" by (auto simp: release_table_def e t(3) Let_def)
    moreover have "private_frames dir (Suc n) s = private_frames dir n s"
      using False by (auto simp: private_frames_Suc Let_def)
    ultimately show ?thesis unfolding step Let_def using t by simp
  qed
qed

section \<open>Enabling paging\<close>

text \<open>
  The identity-mapped pages of a directory at \<open>d\<close> whose first table is the page after it.
\<close>

definition identity_upto :: "u32 \<Rightarrow> nat \<Rightarrow> 'a kcon_scheme \<Rightarrow> bool" where
  "identity_upto d n s \<longleftrightarrow> table_at d 0 s = Some (d + 4096) \<and> physical_addr d s = d \<and>
     (\<forall>i < n. load32 (mem s) (entry_addr (d + 4096) (of_nat i)) = pte (of_nat i * PAGE_SIZE) 3)"

lemma identity_upto_mem: "mem s' = mem s \<Longrightarrow> identity_upto d n s' = identity_upto d n s"
  by (simp add: identity_upto_def table_at_def dir_entry_def physical_addr_def)

lemma page_number_idx:
  assumes "i < 1024"
  shows "table_idx (of_nat i * PAGE_SIZE) = 0" "page_idx (of_nat i * PAGE_SIZE) = of_nat i"
proof -
  have u: "unat (of_nat i * PAGE_SIZE :: u32) = i * 4096"
    using assms by (simp add: unat_word_ariths unat_of_nat32)
  have "unat (table_idx (of_nat i * PAGE_SIZE)) = 0"
    unfolding table_idx_def unat_drop u using assms by simp
  then show "table_idx (of_nat i * PAGE_SIZE) = 0" by (simp add: unsigned_eq_0_iff)
  have "unat (page_idx (of_nat i * PAGE_SIZE)) = unat (take_bit 10 (drop_bit 12 (of_nat i * PAGE_SIZE :: u32)))"
    by (simp add: page_idx_def take_bit_eq_mask mask_nums)
  also have "\<dots> = take_bit 10 (unat (drop_bit 12 (of_nat i * PAGE_SIZE :: u32)))" by (rule unsigned_take_bit_eq)
  also have "\<dots> = i" unfolding unat_drop u using assms by (simp add: take_bit_eq_mod)
  also have "\<dots> = unat (of_nat i :: u32)" using assms by (simp add: unat_of_nat32)
  finally show "page_idx (of_nat i * PAGE_SIZE) = of_nat i" by (simp only: word_unat_eq_iff)
qed

lemma store_identity:
  assumes "page_aligned d" "unat d + 12288 \<le> 2 ^ 32" "i < 1024" "n \<le> 1024" "identity_upto d n s"
    and "s' = s\<lparr>mem := store32 (mem s) (entry_addr (d + 4096) (of_nat i)) (pte (of_nat i * PAGE_SIZE) 3)\<rparr>"
  shows "identity_upto d n s'" "i = n \<Longrightarrow> identity_upto d (Suc n) s'"
proof -
  have u: "unat (d + 4096) = unat d + 4096" "unat (d + 8192) = unat d + 8192"
    using assms(2) by (simp_all add: unat_word_ariths)
  have al: "page_aligned (d + 4096)" "page_aligned (d + 8192)"
    using assms(1) mod_mult_self1 [of "unat d" 2 4096] by (simp_all add: page_aligned_nat u)
  have i: "(of_nat i :: u32) < 1024" using assms(3) by (simp add: word_less_nat_alt unat_of_nat32)
  note ls = load_store_entry [OF al(1) _ i, of _ _ "mem s" "pte (of_nat i * PAGE_SIZE) 3"]
  have "dir_entry d 0 s' = dir_entry d 0 s" using ls [OF assms(1), of 0] by (simp add: dir_entry_def assms(6))
  moreover have "physical_addr d s' = physical_addr d s"
    using ls [OF al(2), of 0] by (simp add: physical_addr_def assms(6) entry_addr_def)
  moreover have "load32 (mem s') (entry_addr (d + 4096) (of_nat j)) =
      (if j = i then pte (of_nat i * PAGE_SIZE) 3 else load32 (mem s) (entry_addr (d + 4096) (of_nat j)))"
    if "j < 1024" for j
    using ls [OF al(1), of "of_nat j"] that assms(3)
    by (auto simp: assms(6) word_less_nat_alt unat_of_nat32 of_nat32_inj)
  ultimately show "identity_upto d n s'" "i = n \<Longrightarrow> identity_upto d (Suc n) s'"
    using assms(3-5) by (auto simp: identity_upto_def table_at_def less_Suc_eq)
qed

lemma map_identity:
  assumes "page_aligned d" "unat d + 12288 \<le> 2 ^ 32" "i < 1024" "n \<le> 1024" "identity_upto d n s"
    and "s' = vmm_map_page d (of_nat i * PAGE_SIZE) (of_nat i * PAGE_SIZE) 3 s" "d + 4096 \<noteq> 0"
  shows "identity_upto d n s'" "i = n \<Longrightarrow> identity_upto d (Suc n) s'"
proof -
  have "get_or_create_table d 0 3 s = (d + 4096, s)"
    using assms(5) by (intro get_or_create_present) (simp add: identity_upto_def)
  then have "s' = s\<lparr>mem := store32 (mem s) (entry_addr (d + 4096) (of_nat i)) (pte (of_nat i * PAGE_SIZE) 3)\<rparr>"
    using assms(7) by (simp add: assms(6) vmm_map_page_def page_number_idx [OF assms(3)] pte_def)
  from store_identity [OF assms(1-5) this]
  show "identity_upto d n s'" "i = n \<Longrightarrow> identity_upto d (Suc n) s'" by blast+
qed

lemma identity_map_Suc:
  "identity_map d (Suc n) s = vmm_map_page d (of_nat n * PAGE_SIZE) (of_nat n * PAGE_SIZE) 3 (identity_map d n s)"
  by (simp add: identity_map_def)

lemma identity_map_upto:
  assumes "page_aligned d" "unat d + 12288 \<le> 2 ^ 32" "d + 4096 \<noteq> 0" "identity_upto d 1 (identity_map d 1 s)"
  shows "Suc n \<le> 1024 \<Longrightarrow> identity_upto d (Suc n) (identity_map d (Suc n) s)"
proof (induction n)
  case 0
  then show ?case using assms(4) by simp
next
  case (Suc n)
  then have "identity_upto d (Suc n) (identity_map d (Suc n) s)" by simp
  from map_identity(2) [OF assms(1,2) _ _ this identity_map_Suc assms(3)] Suc.prems show ?case by simp
qed

lemma identity_get_physical:
  assumes "identity_upto d 1024 s" "virt < 0x400000"
  shows "vmm_get_physical d virt s = virt"
proof -
  have v: "unat virt < 0x400000" using assms(2) by (simp add: word_less_nat_alt)
  have "unat (table_idx virt) = 0" unfolding table_idx_def unat_drop using v by simp
  then have ti: "table_idx virt = 0" by (simp add: unsigned_eq_0_iff)
  have "unat (drop_bit 12 virt) < 1024" unfolding unat_drop using v by (simp add: less_mult_imp_div_less)
  moreover from this have pi: "page_idx virt = of_nat (unat (drop_bit 12 virt))"
  proof -
    assume lt: "unat (drop_bit 12 virt) < 1024"
    have "unat (take_bit 10 (drop_bit 12 virt)) = take_bit 10 (unat (drop_bit 12 virt))"
      by (rule unsigned_take_bit_eq)
    also have "\<dots> = unat (drop_bit 12 virt)" using lt by (simp add: take_bit_eq_mod)
    finally have "take_bit 10 (drop_bit 12 virt) = drop_bit 12 virt" by (simp only: word_unat_eq_iff)
    then show ?thesis by (simp add: page_idx_def take_bit_eq_mask mask_nums)
  qed
  ultimately have p: "load32 (mem s) (entry_addr (d + 4096) (page_idx virt)) =
      pte (of_nat (unat (drop_bit 12 virt)) * PAGE_SIZE) 3"
    using assms(1) unfolding identity_upto_def by metis
  have "of_nat (unat (drop_bit 12 virt)) * PAGE_SIZE = virt AND 0xFFFFF000"
  proof -
    have "drop_bit 12 virt * 2 ^ 12 = push_bit 12 (drop_bit 12 virt)" by (simp add: push_bit_eq_mult)
    also have "\<dots> = virt AND 0xFFFFF000"
      by (rule bit_word_eqI) (auto simp: mask_nums bit_simps)
    finally show ?thesis by simp
  qed
  then have f: "pte (of_nat (unat (drop_bit 12 virt)) * PAGE_SIZE) 3 AND 0xFFFFF000 = virt AND 0xFFFFF000"
    unfolding pte_frame by (simp add: and.assoc)
  have "(virt AND 0xFFFFF000) OR (virt AND 0xFFF) = virt"
    by (rule bit_word_eqI) (auto simp: mask_nums bit_simps)
  moreover have "table_at d 0 s = Some (d + 4096)" using assms(1) by (simp add: identity_upto_def)
  ultimately show ?thesis
    using p f pte_present [of "of_nat (unat (drop_bit 12 virt)) * PAGE_SIZE" 3]
    by (auto simp: vmm_get_physical_def ti table_at_def Let_def split: if_splits)
qed

lemma map_page_directory [simp]: "kernel_directory (vmm_map_page d v p fl s) = kernel_directory s"
  by (simp add: vmm_map_page_def get_or_create_table_def set_dir_entry_def set_tables_physical_def
      case_prod_unfold Let_def)

lemma identity_map_directory [simp]: "kernel_directory (identity_map d n s) = kernel_directory s"
  by (induction n) (simp_all add: identity_map_Suc, simp add: identity_map_def)

lemma first_identity:
  assumes "page_aligned d" "unat d + 12288 \<le> 2 ^ 32" "d + 4096 \<noteq> 0" "table_at d 0 s = None"
    and "physical_addr d s = d" "pmm_alloc_frame s = (d + 4096, s1)"
  shows "identity_upto d 1 (identity_map d 1 s)"
proof -
  have u: "unat (d + 4096) = unat d + 4096" "unat (d + 8192) = unat d + 8192"
    using assms(2) by (simp_all add: unat_word_ariths)
  have al: "page_aligned (d + 4096)" "page_aligned (d + 8192)"
    using assms(1) mod_mult_self1 [of "unat d" 2 4096] by (simp_all add: page_aligned_nat u)
  let ?t = "d + 4096" and ?e = "d + 4096 OR 3 OR PAGE_PRESENT OR PAGE_WRITABLE"
  define s2 where "s2 = s1\<lparr>mem := memset (store32 (store32 (mem s) (entry_addr d 0) ?e) (entry_addr ?t 0) ?t) ?t 0 4096\<rparr>"
  have g: "get_or_create_table d 0 3 s = (?t, s2)"
    unfolding s2_def by (rule get_or_create_new [OF assms(4,6,3)])
  have m2: "mem s2 = memset (store32 (store32 (mem s) (entry_addr d 0) ?e) (entry_addr ?t 0) ?t) ?t 0 4096"
    by (simp add: s2_def)
  note ld = new_table_load [OF assms(1) al(1) al(1) _ _, of _ 0 0 "mem s" ?e, folded m2]
  have "dir_entry d 0 s2 = ?e" using ld [OF assms(1)] unfolding dir_entry_def by simp
  moreover have "?e AND PAGE_PRESENT \<noteq> 0" "table_of ?e = ?t"
    using or_present(2) [of "?t OR 3"] table_of_entry [OF al(1), of 3] unfolding or.assoc by simp_all
  ultimately have "table_at d 0 s2 = Some ?t" by (simp add: table_at_def)
  moreover have "physical_addr d s2 = d"
    using ld [OF al(2)] assms(5) by (simp add: physical_addr_def entry_addr_def)
  ultimately have "identity_upto d 0 s2" by (simp add: identity_upto_def)
  moreover have "identity_map d 1 s = s2\<lparr>mem := store32 (mem s2) (entry_addr ?t (of_nat 0)) (pte (of_nat 0 * PAGE_SIZE) 3)\<rparr>"
    using g assms(3) page_number_idx [of 0] by (simp add: identity_map_def vmm_map_page_def pte_def)
  ultimately show ?thesis using store_identity(2) [OF assms(1,2), of 0 0 s2] by simp
qed

text \<open>The bookkeeping of frames does not depend on the fields of later components.\<close>

lemma pmm_vmm_upd [simp]:
  "free_set (s\<lparr>kernel_end_addr := x\<rparr>) = free_set s" "pmm_ok (s\<lparr>kernel_end_addr := x\<rparr>) = pmm_ok s"
  "free_set (s\<lparr>kernel_directory := x\<rparr>) = free_set s" "pmm_ok (s\<lparr>kernel_directory := x\<rparr>) = pmm_ok s"
  by (simp_all add: free_set_def pmm_ok_def bitmap_test_def)

lemma two_frames:
  fixes s s1 s2 :: "'a kpmm_scheme"
  assumes "pmm_ok s" "f = Min (free_set s \<inter> {..<scanned s})" "f \<in> free_set s" "Suc f \<in> free_set s"
    "Suc f < scanned s" "0 < f" "pmm_alloc_frame s = (d, s1)"
  shows "d = of_nat f * PAGE_SIZE" "page_aligned d" "unat d + 12288 \<le> 2 ^ 32" "d \<noteq> 0" "d + 4096 \<noteq> 0"
    and "pmm_ok s1" "free_set s1 = free_set s - {f}" "total_frames s1 = total_frames s"
    and "free_set s2 = free_set s1 \<Longrightarrow> pmm_ok s2 \<Longrightarrow> total_frames s2 = total_frames s1 \<Longrightarrow>
      fst (pmm_alloc_frame s2) = d + 4096"
proof -
  have ne: "free_set s \<inter> {..<scanned s} \<noteq> {}" using assms(3,5) by auto
  note spec = pmm_alloc_frame_spec [OF assms(1), unfolded assms(7)]
  show d: "d = of_nat f * PAGE_SIZE" "pmm_ok s1" "free_set s1 = free_set s - {f}" "total_frames s1 = total_frames s"
    using spec ne assms(2) by (simp_all add: Let_def)
  have f: "f < 131072" using free_set_bound [OF assms(3)] assms(1) by (simp add: pmm_ok_def)
  have u: "unat d = f * 4096" unfolding d by (rule unat_frame_addr [OF f])
  show "page_aligned d" unfolding page_aligned_nat u by simp
  show top: "unat d + 12288 \<le> 2 ^ 32" unfolding u using f by simp
  show "d \<noteq> 0" using u assms(6) by (auto simp: unsigned_eq_0_iff)
  have "unat (d + 4096) = unat d + 4096" using top by (simp add: unat_word_ariths)
  then show "d + 4096 \<noteq> 0" by auto
  {
    assume s2: "free_set s2 = free_set s1" "pmm_ok s2" "total_frames s2 = total_frames s1"
    have F: "free_set s2 \<inter> {..<scanned s2} = free_set s \<inter> {..<scanned s} - {f}"
      using s2 d by (auto simp: scanned_def)
    have "Min (free_set s2 \<inter> {..<scanned s2}) = Suc f"
    proof (rule Min_eqI)
      fix g assume "g \<in> free_set s2 \<inter> {..<scanned s2}"
      then have g: "g \<in> free_set s \<inter> {..<scanned s}" "g \<noteq> f" unfolding F by auto
      then have "f \<le> g" unfolding assms(2) by (intro Min_le) auto
      then show "Suc f \<le> g" using g(2) by simp
    qed (use assms(4,5) in \<open>auto simp: F\<close>)
    moreover have "free_set s2 \<inter> {..<scanned s2} \<noteq> {}" using assms(4,5) by (auto simp: F)
    ultimately have "fst (pmm_alloc_frame s2) = of_nat (Suc f) * PAGE_SIZE"
      using pmm_alloc_frame_spec [OF s2(2)] by (simp add: Let_def split: prod.splits)
    then show "fst (pmm_alloc_frame s2) = d + 4096" by (simp add: d(1) algebra_simps)
  }
qed

section \<open>Properties\<close>

text \<open>
  C4: For a directory whose tables are apart from each other and from the directory, mapping a page
  is an update of the address space at that page number and nowhere else, as long as a table can be
  found or allocated; the frame counters stay consistent and the directory stays well-formed, so the
  statement applies again after every call.
\<close>

theorem vmm_map_page_refines:
  assumes "pmm_ok s" "dir_ok dir s" "flags AND 0xFFFFF000 = 0"
    and "fst (get_or_create_table dir (table_idx virt) flags s) \<noteq> 0"
  shows "let s' = vmm_map_page dir virt phys flags s in pmm_ok s' \<and> dir_ok dir s' \<and>
     vspace dir s' = (vspace dir s)(vpn virt \<mapsto> pte phys flags)"
  using map_page_ok [OF assms refl] unfolding Let_def by blast

text \<open>
  Unmapping is the removal of one page from the address space; the rest and the well-formedness
  are kept, also when the page had no table.
\<close>

theorem vmm_unmap_page_refines:
  assumes "pmm_ok s" "dir_ok dir s"
  shows "let s' = vmm_unmap_page dir virt s in pmm_ok s' \<and> dir_ok dir s' \<and>
     vspace dir s' = (vspace dir s)(vpn virt := None) \<and> vmm_get_physical dir virt s' = 0"
  using unmap_page_ok [OF assms refl] unfolding Let_def get_physical_vspace by simp

text \<open>
  A page that has been mapped translates: \<^verbatim>\<open>vmm_get_physical\<close> of a mapped virtual address is the frame
  it was mapped to, with the offset in the page; every other page translates as before.
\<close>

theorem vmm_map_get_roundtrip:
  assumes "pmm_ok s" "dir_ok dir s" "flags AND 0xFFFFF000 = 0"
    and "fst (get_or_create_table dir (table_idx virt) flags s) \<noteq> 0"
  shows "let s' = vmm_map_page dir virt phys flags s in
     vmm_get_physical dir virt s' = (phys AND 0xFFFFF000) OR (virt AND 0xFFF) \<and>
     (\<forall>w. vpn w \<noteq> vpn virt \<longrightarrow> vmm_get_physical dir w s' = vmm_get_physical dir w s)"
proof -
  have "pte phys flags AND 0xFFFFF000 = phys AND 0xFFFFF000"
    by (rule pte_frame)
  then show ?thesis
    using map_page_ok(3) [OF assms refl] unfolding Let_def get_physical_vspace by simp
qed


lemma destroy_frames:
  assumes "pmm_ok s"
  shows "let s' = vmm_destroy_address_space dir s in pmm_ok s' \<and> mem s' = mem s \<and>
     free_set s' =
       (if dir = 0 \<or> dir = kernel_directory s then free_set s
        else free_set s \<union> private_frames dir 1024 s \<union>
          {f. f = unat (physical_addr dir s) div 4096 \<and> f < unat (total_frames s)})"
proof (cases "dir = 0 \<or> dir = kernel_directory s")
  case True
  then show ?thesis using assms unfolding vmm_destroy_address_space_def by (simp only: if_True Let_def simp_thms)
next
  case False
  define t where "t = fold (release_table dir) [0..<1024] s"
  have t: "pmm_ok t" "mem t = mem s" "total_frames t = total_frames s"
    "free_set t = free_set s \<union> private_frames dir 1024 s"
    using release_tables [OF assms, of dir 1024] unfolding t_def [symmetric] Let_def by blast+
  have p: "physical_addr dir t = physical_addr dir s" by (simp add: physical_addr_def t(2))
  have d: "vmm_destroy_address_space dir s = pmm_free_frame (physical_addr dir s) t"
    using False unfolding vmm_destroy_address_space_def t_def [symmetric] Let_def p by simp
  show ?thesis
    using pmm_free_frame_spec [OF t(1), of "physical_addr dir s"] False t unfolding Let_def d
    by auto
qed


text \<open>A machine with the directory at \<open>0x1000\<close> and no table yet, its free frames those from 3 on.\<close>

lemma zero_load: "load32 (\<lambda>_. 0) a = 0"
  by (simp add: load32_def)

lemma small_mem: "mem small_pmm = (\<lambda>_. 0)"
  by (simp add: small_pmm_def boot_pmm_def boot_idt_def boot_gdt_def boot_mach_def boot_con_def
      kcon.defs kmach.defs kgdt.defs kidt.defs kpmm.defs)

lemma small_table: "table_at d i small_pmm = None"
  by (simp add: table_at_def dir_entry_def small_mem zero_load)

lemma small_dir_ok: "dir_ok 0x1000 small_pmm"
  unfolding dir_ok_def small_table in_use_def small_free by simp

lemma small_alloc: "fst (pmm_alloc_frame small_pmm) = 0x3000"
  by code_simp

lemma small_create: "fst (get_or_create_table 0x1000 i flags small_pmm) \<noteq> 0"
proof -
  obtain s1 where a: "pmm_alloc_frame small_pmm = (0x3000, s1)" using small_alloc by (metis prod.collapse)
  show ?thesis using get_or_create_new [where dir = "0x1000" and ti = i and flags = flags, OF small_table a] by simp
qed

theorem vmm_map_page_refines_witness:
  "vspace 0x1000 (vmm_map_page 0x1000 0x400000 0xB8000 3 small_pmm) 0x400 = Some (pte 0xB8000 3)"
  using vmm_map_page_refines [where flags = 3 and virt = "0x400000" and phys = "0xB8000", OF small_ok small_dir_ok _ small_create]
  by (simp add: Let_def vpn_def)

theorem vmm_unmap_page_refines_witness:
  "vmm_get_physical 0x1000 0x400000 (vmm_unmap_page 0x1000 0x400000 small_pmm) = 0"
  using vmm_unmap_page_refines [OF small_ok small_dir_ok, of "0x400000"] unfolding Let_def by blast

theorem vmm_map_get_roundtrip_witness:
  "vmm_get_physical 0x1000 0x400123 (vmm_map_page 0x1000 0x400123 0xB8000 3 small_pmm) = 0xB8123"
  using vmm_map_get_roundtrip [where flags = 3 and virt = "0x400123" and phys = "0xB8000", OF small_ok small_dir_ok _ small_create]
  by (simp add: Let_def)


text \<open>
  A directory takes three pages but only one frame is allocated for it. \<^verbatim>\<open>vmm_create_address_space\<close>
  clears all three: every word of the frame that follows the new directory is 0 afterwards, whoever
  that frame belongs to.
\<close>

theorem vmm_create_clears_next_frame:
  assumes "pmm_ok s" "vmm_create_address_space s = (d, s')" "d \<noteq> 0"
    and "page_aligned (kernel_directory s)" "kernel_directory s \<notin> dir_pages d" "i < 1024"
  shows "load32 (mem s') (entry_addr (d + 4096) i) = 0"
  by (rule create_load(4) [OF assms(1-5) assms(4) assms(6)])

text \<open>Frame 3 is the only free one of 16; frame 4 is in use and holds data.\<close>

definition crowded :: kvmm where
  "crowded = (kpmm.extend boot_pmm (kvmm.fields 0x1000 0x1000 0))\<lparr>
     frame_bitmap := (\<lambda>_. 0xFF)(0 := 0xF7), total_frames := 16, used_frames := 15,
     mem := store32 (\<lambda>_. 0) 0x4000 0x12345678\<rparr>"

lemma crowded_free: "free_set crowded = {3}"
proof -
  have "\<forall>f \<in> set [0..<16]. (\<not> bitmap_test (of_nat f) crowded) = (f = 3)" by code_simp
  then have *: "(\<not> bitmap_test (of_nat f) crowded) = (f = 3)" if "f < 16" for f
    by (rule bspec) (simp only: set_upt atLeastLessThan_iff that le0 simp_thms)
  have "f < 16 \<and> \<not> bitmap_test (of_nat f) crowded \<longleftrightarrow> f = 3" for f
    using * [of f] by (cases "f < 16") auto
  moreover have "unat (total_frames crowded) = 16" by (simp add: crowded_def)
  ultimately show ?thesis unfolding free_set_def by auto
qed

lemma crowded_ok: "pmm_ok crowded"
  unfolding pmm_ok_def crowded_free by (simp add: crowded_def)

lemma crowded_kernel: "kernel_directory crowded = 0x1000"
  by (simp add: crowded_def kpmm.defs kvmm.defs)

lemma crowded_create: "fst (vmm_create_address_space crowded) = 0x3000"
proof -
  have "fst (pmm_alloc_frame crowded) = 0x3000" by code_simp
  then obtain s1 where "pmm_alloc_frame crowded = (0x3000, s1)" by (metis prod.collapse)
  from create_state [OF crowded_ok this] show ?thesis by simp
qed

theorem vmm_create_clears_next_frame_witness:
  "in_use 0x4000 crowded \<and> load32 (mem crowded) 0x4000 = 0x12345678 \<and>
   load32 (mem (snd (vmm_create_address_space crowded))) 0x4000 = 0"
proof -
  have "vmm_create_address_space crowded = (0x3000, snd (vmm_create_address_space crowded))"
    using crowded_create by (metis prod.collapse)
  from vmm_create_clears_next_frame [OF crowded_ok this, of 0]
  have "load32 (mem (snd (vmm_create_address_space crowded))) 0x4000 = 0"
    by (simp add: crowded_kernel dir_pages_def entry_addr_def)
  moreover have "load32 (mem crowded) 0x4000 = 0x12345678" by (simp add: crowded_def)
  moreover have "in_use 0x4000 crowded" by (simp add: in_use_def crowded_free)
  ultimately show ?thesis by simp
qed


text \<open>
  C5: When the lowest free frame and the one after it are free, \<^verbatim>\<open>vmm_init\<close> builds the kernel directory in
  the first and identity-maps the whole of the first 4 MiB: every address there translates to itself,
  the page-directory register holds the directory and paging is switched on.
\<close>

theorem vmm_init_identity:
  assumes "pmm_ok s" "f = Min (free_set s \<inter> {..<scanned s})" "f \<in> free_set s" "Suc f \<in> free_set s"
    and "Suc f < scanned s" "0 < f"
  shows "let s' = vmm_init kernel_end s; d = kernel_directory s' in
     d = of_nat f * PAGE_SIZE \<and> current_directory s' = d \<and> cr3 s' = d \<and> bit (cr0 s') 31 \<and>
     (\<forall>virt < 0x400000. vmm_get_physical d virt s' = virt)"
proof -
  define s1 where "s1 = s\<lparr>kernel_end_addr := (kernel_end + PAGE_SIZE - 1) AND NOT (PAGE_SIZE - 1)\<rparr>"
  obtain d s2 where a: "pmm_alloc_frame s1 = (d, s2)" by (rule prod.exhaust)
  have s1: "pmm_ok s1" "free_set s1 = free_set s" "scanned s1 = scanned s"
    using assms(1) by (simp_all add: s1_def scanned_def)
  note tf = two_frames [of s1 f d s2, unfolded s1(2,3), OF s1(1) assms(2-6) a]
  define s5 where "s5 = s2\<lparr>kernel_directory := d,
      mem := store32 (memset (mem s2) d 0 sizeof_page_directory) (d + 8192) d\<rparr>"
  have u: "unat (d + 8192) = unat d + 8192" using tf(3) by (simp add: unat_word_ariths)
  have al8: "page_aligned (d + 8192)"
    using tf(2) mod_mult_self1 [of "unat d" 2 4096] by (simp add: page_aligned_nat u)
  have "load32 (memset (mem s2) d 0 sizeof_page_directory) (entry_addr d 0) = 0"
    using memset_load_zero [of 0 "mem s2" d] by (simp add: entry_addr_def)
  then have "dir_entry d 0 s5 = 0"
    using load_store_entry [OF al8 tf(2), of 0 0] by (simp add: dir_entry_def s5_def entry_addr_def)
  then have t5: "table_at d 0 s5 = None" by (simp add: table_at_def)
  have p5: "physical_addr d s5 = d" by (simp add: physical_addr_def s5_def)
  have "fst (pmm_alloc_frame s5) = d + 4096"
    by (rule tf(9)) (use tf(6) in \<open>simp_all add: s5_def\<close>)
  then obtain s6 where "pmm_alloc_frame s5 = (d + 4096, s6)" by (metis prod.collapse)
  from first_identity [OF tf(2,3,5) t5 p5 this]
  have "identity_upto d 1024 (identity_map d 1024 s5)"
    using identity_map_upto [OF tf(2,3,5), of s5 1023] by simp
  from map_identity(1) [OF tf(2,3) _ _ this, of 184, OF _ _ refl tf(5)]
  have id7: "identity_upto d 1024 (vmm_map_page d 0xB8000 0xB8000 3 (identity_map d 1024 s5))" by simp
  define s7 where "s7 = vmm_map_page d 0xB8000 0xB8000 3 (identity_map d 1024 s5)"
  have s': "vmm_init kernel_end s = kprintf (litln ''[VMM] Paging enabled, kernel mapped at 0x0-0x400000'') []
      (s7\<lparr>current_directory := d, cr3 := physical_addr d s7, cr0 := cr0 s7 OR 0x80000000\<rparr>)"
    using a unfolding vmm_init_def s1_def [symmetric]
    by (simp add: s5_def s7_def set_physical_addr_def Let_def)
  have "kernel_directory s7 = d" by (simp add: s7_def s5_def)
  moreover have "identity_upto d 1024 (vmm_init kernel_end s)" (is "identity_upto d 1024 ?s'")
    using id7 unfolding s' s7_def [symmetric] by (rule iffD1 [OF identity_upto_mem, rotated]) simp
  moreover have "physical_addr d s7 = d" using id7 by (simp add: identity_upto_def s7_def)
  moreover have "bit (cr0 s7 OR 0x80000000) 31"
    using bit_push_bit_iff [of 31 "1 :: u32" 31] by (simp add: bit_or_iff push_bit_eq_mult)
  ultimately have "kernel_directory ?s' = d \<and> current_directory ?s' = d \<and> cr3 ?s' = d \<and> bit (cr0 ?s') 31 \<and>
      (\<forall>virt < 0x400000. vmm_get_physical d virt ?s' = virt)"
    using identity_get_physical [of d ?s'] by (simp add: s')
  then show ?thesis unfolding Let_def using tf(1) by simp
qed

theorem vmm_init_identity_witness:
  "vmm_get_physical 0x3000 0xB8123 (vmm_init 0x150000 (kpmm.extend small_pmm (kvmm.fields 0 0 0))) = 0xB8123"
proof -
  let ?s = "kpmm.extend small_pmm (kvmm.fields 0 0 0)"
  have f: "free_set ?s = {3..<13}" using small_free by (simp add: free_set_def bitmap_test_def kpmm.defs kvmm.defs)
  have ok: "pmm_ok ?s"
    using small_ok by (simp add: pmm_ok_def free_set_def bitmap_test_def kpmm.defs kvmm.defs)
  have n: "scanned ?s = 16" by (simp add: scanned_def small_pmm_def kpmm.defs kvmm.defs)
  have "free_set ?s \<inter> {..<scanned ?s} = {3..<13}" by (auto simp: f n)
  moreover have "Min {3..<13 :: nat} = 3" by (intro Min_eqI) auto
  ultimately have "3 = Min (free_set ?s \<inter> {..<scanned ?s})" by simp
  from vmm_init_identity [OF ok this _ _ _ _, of "0x150000"] f n
  have H: "kernel_directory (vmm_init 0x150000 ?s) = of_nat 3 * PAGE_SIZE \<and> (\<forall>virt < 0x400000.
      vmm_get_physical (kernel_directory (vmm_init 0x150000 ?s)) virt (vmm_init 0x150000 ?s) = virt)"
    unfolding Let_def by auto
  then have d: "kernel_directory (vmm_init 0x150000 ?s) = 0x3000" by simp
  have "\<forall>virt < 0x400000.
      vmm_get_physical (kernel_directory (vmm_init 0x150000 ?s)) virt (vmm_init 0x150000 ?s) = virt"
    using H by blast
  then have "\<forall>virt < 0x400000. vmm_get_physical 0x3000 virt (vmm_init 0x150000 ?s) = virt" by (simp only: d)
  from this [rule_format, of "0xB8123"] show ?thesis by simp
qed



end

