(* ===== verification/KHeap.thy ===== *)
theory KHeap
  imports Vmm
begin

text \<open>
  The kernel heap, \<^verbatim>\<open>kernel/memory/kheap.c\<close>: a doubly linked list of blocks inside
  \<^verbatim>\<open>heap_area\<close>, first fit, splitting on allocation and coalescing with both neighbours on
  release. A \<^verbatim>\<open>heap_block_t\<close> lies in byte memory: \<^verbatim>\<open>size\<close>, \<^verbatim>\<open>free\<close>, \<^verbatim>\<open>next\<close> and \<^verbatim>\<open>prev\<close>
  are the words at the offsets 0, 4, 8 and 12 of its 16-byte header.
\<close>

section \<open>State\<close>

record kheap = kvmm +
  heap_start :: u32
  heap_initialized :: bool

definition boot_heap :: kheap where
  "boot_heap = kvmm.extend boot_vmm (kheap.fields 0 False)"

abbreviation (input) HEAP_BLOCK_HEADER_SIZE :: u32 where
  "HEAP_BLOCK_HEADER_SIZE \<equiv> 16"

abbreviation (input) HEAP_MIN_BLOCK_SIZE :: u32 where
  "HEAP_MIN_BLOCK_SIZE \<equiv> 16"

abbreviation (input) KHEAP_SIZE :: u32 where
  "KHEAP_SIZE \<equiv> 4194304"

text \<open>The fields of a \<^verbatim>\<open>heap_block_t\<close>.\<close>

definition hb_size :: "mem \<Rightarrow> u32 \<Rightarrow> u32" where
  "hb_size m b = load32 m b"

definition hb_free :: "mem \<Rightarrow> u32 \<Rightarrow> u32" where
  "hb_free m b = load32 m (b + 4)"

definition hb_next :: "mem \<Rightarrow> u32 \<Rightarrow> u32" where
  "hb_next m b = load32 m (b + 8)"

definition hb_prev :: "mem \<Rightarrow> u32 \<Rightarrow> u32" where
  "hb_prev m b = load32 m (b + 12)"

definition set_hb_size :: "u32 \<Rightarrow> u32 \<Rightarrow> mem \<Rightarrow> mem" where
  "set_hb_size b v m = store32 m b v"

definition set_hb_free :: "u32 \<Rightarrow> u32 \<Rightarrow> mem \<Rightarrow> mem" where
  "set_hb_free b v m = store32 m (b + 4) v"

definition set_hb_next :: "u32 \<Rightarrow> u32 \<Rightarrow> mem \<Rightarrow> mem" where
  "set_hb_next b v m = store32 m (b + 8) v"

definition set_hb_prev :: "u32 \<Rightarrow> u32 \<Rightarrow> mem \<Rightarrow> mem" where
  "set_hb_prev b v m = store32 m (b + 12) v"

section \<open>Operations\<close>

definition kheap_init :: "u32 \<Rightarrow> 'a kheap_scheme \<Rightarrow> 'a kheap_scheme" where
  "kheap_init heap_area s =
     (let s1 = s\<lparr>heap_start := heap_area\<rparr>;
          m1 = set_hb_size heap_area (KHEAP_SIZE - HEAP_BLOCK_HEADER_SIZE) (mem s1);
          m2 = set_hb_free heap_area 1 m1;
          m3 = set_hb_next heap_area 0 m2;
          m4 = set_hb_prev heap_area 0 m3;
          s2 = s1\<lparr>mem := m4, heap_initialized := True\<rparr>
      in kprintf (litln ''[HEAP] Initialized: %u bytes at %x'') [VInt KHEAP_SIZE, VInt heap_area] s2)"

definition split_block :: "u32 \<Rightarrow> u32 \<Rightarrow> mem \<Rightarrow> mem" where
  "split_block block sz m =
     (if hb_size m block \<ge> sz + HEAP_BLOCK_HEADER_SIZE + HEAP_MIN_BLOCK_SIZE then
        (let new_block = block + HEAP_BLOCK_HEADER_SIZE + sz;
             m1 = set_hb_size new_block (hb_size m block - sz - HEAP_BLOCK_HEADER_SIZE) m;
             m2 = set_hb_free new_block 1 m1;
             m3 = set_hb_next new_block (hb_next m2 block) m2;
             m4 = set_hb_prev new_block block m3;
             m5 = (if hb_next m4 block \<noteq> 0 then set_hb_prev (hb_next m4 block) new_block m4 else m4);
             m6 = set_hb_next block new_block m5
         in set_hb_size block sz m6)
      else m)"

text \<open>The two halves of \<^verbatim>\<open>coalesce_block\<close>: absorbing the next block, being absorbed by the previous.\<close>

definition coalesce_next :: "u32 \<Rightarrow> mem \<Rightarrow> mem" where
  "coalesce_next block m =
     (if hb_next m block \<noteq> 0 \<and> hb_free m (hb_next m block) \<noteq> 0 then
        (let m1 = set_hb_size block (hb_size m block + (HEAP_BLOCK_HEADER_SIZE + hb_size m (hb_next m block))) m;
             m2 = set_hb_next block (hb_next m1 (hb_next m1 block)) m1
         in if hb_next m2 block \<noteq> 0 then set_hb_prev (hb_next m2 block) block m2 else m2)
      else m)"

definition coalesce_prev :: "u32 \<Rightarrow> mem \<Rightarrow> mem" where
  "coalesce_prev block m =
     (if hb_prev m block \<noteq> 0 \<and> hb_free m (hb_prev m block) \<noteq> 0 then
        (let p = hb_prev m block;
             m1 = set_hb_size p (hb_size m p + (HEAP_BLOCK_HEADER_SIZE + hb_size m block)) m;
             m2 = set_hb_next (hb_prev m1 block) (hb_next m1 block) m1
         in if hb_next m2 block \<noteq> 0 then set_hb_prev (hb_next m2 block) (hb_prev m2 block) m2 else m2)
      else m)"

definition coalesce_block :: "u32 \<Rightarrow> mem \<Rightarrow> mem" where
  "coalesce_block block m = coalesce_prev block (coalesce_next block m)"

text \<open>The search loop of \<^verbatim>\<open>kmalloc\<close>; \<open>Some 0\<close> when the list ends without a fit.\<close>

partial_function (option) heap_find :: "mem \<Rightarrow> u32 \<Rightarrow> u32 \<Rightarrow> u32 option" where
  "heap_find m cur sz =
     (if cur = 0 then Some 0
      else if hb_free m cur \<noteq> 0 \<and> hb_size m cur \<ge> sz then Some cur
      else heap_find m (hb_next m cur) sz)"

declare heap_find.simps [code]

definition round8 :: "u32 \<Rightarrow> u32" where
  "round8 sz = (sz + 7) AND NOT 7"

definition kmalloc :: "u32 \<Rightarrow> 'a kheap_scheme \<Rightarrow> (u32 \<times> 'a kheap_scheme) option" where
  "kmalloc sz s =
     (if \<not> heap_initialized s \<or> sz = 0 then Some (0, s)
      else do {
        current \<leftarrow> heap_find (mem s) (heap_start s) (round8 sz);
        if current = 0
        then Some (0, kprintf (litln ''[HEAP] ERROR: Out of kernel heap memory (requested %u)'')
                     [VInt (round8 sz)] s)
        else Some (current + HEAP_BLOCK_HEADER_SIZE,
               s\<lparr>mem := set_hb_free current 0 (split_block current (round8 sz) (mem s))\<rparr>)
      })"

definition kmalloc_aligned :: "u32 \<Rightarrow> u32 \<Rightarrow> 'a kheap_scheme \<Rightarrow> (u32 \<times> 'a kheap_scheme) option" where
  "kmalloc_aligned sz alignment s =
     do {
       (ptr, s1) \<leftarrow> kmalloc (sz + alignment) s;
       if ptr = 0 then Some (0, s1)
       else Some ((ptr + alignment - 1) AND NOT (alignment - 1), s1)
     }"

definition kfree :: "u32 \<Rightarrow> 'a kheap_scheme \<Rightarrow> 'a kheap_scheme" where
  "kfree ptr s =
     (if ptr = 0 then s
      else let block = ptr - HEAP_BLOCK_HEADER_SIZE
           in s\<lparr>mem := coalesce_block block (set_hb_free block 1 (mem s))\<rparr>)"

definition krealloc :: "u32 \<Rightarrow> u32 \<Rightarrow> 'a kheap_scheme \<Rightarrow> (u32 \<times> 'a kheap_scheme) option" where
  "krealloc ptr new_size s =
     (if ptr = 0 then kmalloc new_size s
      else if new_size = 0 then Some (0, kfree ptr s)
      else let block = ptr - HEAP_BLOCK_HEADER_SIZE
           in if hb_size (mem s) block \<ge> new_size then Some (ptr, s)
              else do {
                (new_ptr, s1) \<leftarrow> kmalloc new_size s;
                if new_ptr = 0 then Some (0, s1)
                else let s2 = s1\<lparr>mem := memcpy (mem s1) new_ptr ptr (hb_size (mem s1) block)\<rparr>
                     in Some (new_ptr, kfree ptr s2)
              })"

section \<open>The abstract heap\<close>

text \<open>
  A heap is the sequence of its blocks, each a payload size and whether it is free. First-fit
  allocation and release with coalescing on such a sequence; positions are payload offsets from
  the start of the sequence.
\<close>

type_synonym blocks = "(nat \<times> bool) list"

fun span :: "blocks \<Rightarrow> nat" where
  "span [] = 0"
| "span ((sz, fr) # bs) = 16 + sz + span bs"

definition carve :: "nat \<Rightarrow> nat \<Rightarrow> blocks" where
  "carve n sz = (if n + 32 \<le> sz then [(n, False), (sz - n - 16, True)] else [(sz, False)])"

fun amalloc :: "nat \<Rightarrow> blocks \<Rightarrow> (nat \<times> blocks) option" where
  "amalloc n [] = None"
| "amalloc n ((sz, fr) # bs) =
     (if fr \<and> n \<le> sz then Some (16, carve n sz @ bs)
      else map_option (\<lambda>(ofs, bs'). (16 + sz + ofs, (sz, fr) # bs')) (amalloc n bs))"

text \<open>Joining a free block with the free block that follows it.\<close>

fun join :: "nat \<times> bool \<Rightarrow> blocks \<Rightarrow> blocks" where
  "join (sz, True) ((sz', True) # bs) = (sz + 16 + sz', True) # bs"
| "join b bs = b # bs"

fun afree :: "nat \<Rightarrow> blocks \<Rightarrow> blocks" where
  "afree ofs [] = []"
| "afree ofs ((sz, fr) # bs) =
     (if ofs = 16 then join (sz, True) bs else join (sz, fr) (afree (ofs - (16 + sz)) bs))"

text \<open>The allocated payloads as pairs of address and size, for blocks that start at \<open>p\<close>.\<close>

fun live :: "nat \<Rightarrow> blocks \<Rightarrow> (nat \<times> nat) set" where
  "live p [] = {}"
| "live p ((sz, fr) # bs) = (if fr then {} else {(p + 16, sz)}) \<union> live (p + 16 + sz) bs"

fun no_adjacent_free :: "blocks \<Rightarrow> bool" where
  "no_adjacent_free ((sz, fr) # (sz', fr') # bs) =
     (\<not> (fr \<and> fr') \<and> no_adjacent_free ((sz', fr') # bs))"
| "no_adjacent_free bs = True"

definition blocks_ok :: "blocks \<Rightarrow> bool" where
  "blocks_ok bs \<longleftrightarrow> no_adjacent_free bs \<and> (\<forall>(sz, fr) \<in> set bs. 8 dvd sz)"

section \<open>The list in memory\<close>

definition nxt :: "nat \<Rightarrow> nat \<Rightarrow> nat" where
  "nxt e p = (if p = e then 0 else p)"

definition hblk :: "mem \<Rightarrow> nat \<Rightarrow> nat \<Rightarrow> bool \<Rightarrow> nat \<Rightarrow> nat \<Rightarrow> bool" where
  "hblk m p sz fr nx pv \<longleftrightarrow> rd32 m p = of_nat sz \<and> (rd32 m (p + 4) \<noteq> 0) = fr \<and>
     rd32 m (p + 8) = of_nat nx \<and> rd32 m (p + 12) = of_nat pv"

fun hseg :: "mem \<Rightarrow> nat \<Rightarrow> nat \<Rightarrow> nat \<Rightarrow> blocks \<Rightarrow> bool" where
  "hseg m e p pv [] = True"
| "hseg m e p pv ((sz, fr) # bs) =
     (hblk m p sz fr (nxt e (p + 16 + sz)) pv \<and> hseg m e (p + 16 + sz) p bs)"

fun lastp :: "nat \<Rightarrow> nat \<Rightarrow> blocks \<Rightarrow> nat" where
  "lastp p pv [] = pv"
| "lastp p pv ((sz, fr) # bs) = lastp (p + 16 + sz) p bs"

fun hdrs :: "nat \<Rightarrow> blocks \<Rightarrow> nat set" where
  "hdrs p [] = {}"
| "hdrs p ((sz, fr) # bs) = {p..<p + 16} \<union> hdrs (p + 16 + sz) bs"

text \<open>The blocks read back from memory, as many as \<open>n\<close>, and the invariant of the whole heap.\<close>

fun heap_blocks :: "nat \<Rightarrow> mem \<Rightarrow> nat \<Rightarrow> nat \<Rightarrow> blocks" where
  "heap_blocks 0 m e p = []"
| "heap_blocks (Suc n) m e p =
     (if e \<le> p then []
      else (unat (rd32 m p), rd32 m (p + 4) \<noteq> 0) # heap_blocks n m e (p + 16 + unat (rd32 m p)))"

definition heap_end :: "'a kheap_scheme \<Rightarrow> nat" where
  "heap_end s = unat (heap_start s) + 4194304"

definition blocks_of :: "'a kheap_scheme \<Rightarrow> blocks" where
  "blocks_of s = heap_blocks 262144 (mem s) (heap_end s) (unat (heap_start s))"

definition heap_ok :: "'a kheap_scheme \<Rightarrow> bool" where
  "heap_ok s \<longleftrightarrow> heap_initialized s \<and> 0 < unat (heap_start s) \<and> 8 dvd unat (heap_start s) \<and> heap_end s < 2 ^ 32 \<and>
     hseg (mem s) (heap_end s) (unat (heap_start s)) 0 (blocks_of s) \<and>
     span (blocks_of s) = 4194304 \<and> blocks_ok (blocks_of s)"

definition heap_live :: "'a kheap_scheme \<Rightarrow> (nat \<times> nat) set" where
  "heap_live s = live (unat (heap_start s)) (blocks_of s)"

section \<open>Sequences of blocks\<close>

lemma span_append [simp]: "span (xs @ ys) = span xs + span ys"
  by (induction xs) auto

lemma length_span: "16 * length bs \<le> span bs"
  by (induction bs) auto

lemma lastp_append [simp]: "lastp p pv (xs @ ys) = lastp (p + span xs) (lastp p pv xs) ys"
  by (induction xs arbitrary: p pv) (auto simp: add.assoc)

lemma hdrs_append [simp]: "hdrs p (xs @ ys) = hdrs p xs \<union> hdrs (p + span xs) ys"
  by (induction xs arbitrary: p) (auto simp: add.assoc)

lemma live_append [simp]: "live p (xs @ ys) = live p xs \<union> live (p + span xs) ys"
  by (induction xs arbitrary: p) (auto simp: add.assoc)

lemma hseg_append [simp]:
  "hseg m e p pv (xs @ ys) \<longleftrightarrow> hseg m e p pv xs \<and> hseg m e (p + span xs) (lastp p pv xs) ys"
  by (induction xs arbitrary: p pv) (auto simp: add.assoc)

lemma hdrs_range: "hdrs p bs \<subseteq> {p..<p + span bs}"
  by (induction bs arbitrary: p) fastforce+

lemma live_range: "(a, n) \<in> live p bs \<Longrightarrow> p + 16 \<le> a \<and> a + n \<le> p + span bs"
  by (induction bs arbitrary: p) (fastforce split: if_splits)+

lemma hblk_agree:
  assumes "\<forall>k \<in> {p..<p + 16}. m' (of_nat k) = m (of_nat k)" "p + 16 \<le> 2 ^ 32"
  shows "hblk m' p sz fr nx pv = hblk m p sz fr nx pv"
proof -
  have "rd32 m' (p + d) = rd32 m (p + d)" if "d \<le> 12" for d
    by (rule rd32_agree) (use assms that in auto)
  from this [of 0] this [of 4] this [of 8] this [of 12] show ?thesis
    unfolding hblk_def by simp
qed

lemma hseg_agree:
  "\<forall>k \<in> hdrs p bs. m' (of_nat k) = m (of_nat k) \<Longrightarrow> p + span bs \<le> 2 ^ 32 \<Longrightarrow>
   hseg m' e p pv bs = hseg m e p pv bs"
proof (induction bs arbitrary: p pv)
  case (Cons b bs)
  obtain sz fr where b: "b = (sz, fr)" by (cases b)
  have "hblk m' p sz fr (nxt e (p + 16 + sz)) pv = hblk m p sz fr (nxt e (p + 16 + sz)) pv"
    using Cons.prems by (intro hblk_agree) (auto simp: b)
  moreover have "hseg m' e (p + 16 + sz) p bs = hseg m e (p + 16 + sz) p bs"
    using Cons.prems by (intro Cons.IH) (auto simp: b)
  ultimately show ?case by (simp add: b)
qed simp

lemma hseg_keep:
  assumes "hseg m e p pv bs" "p + span bs \<le> 2 ^ 32"
    and "\<And>k. p \<le> k \<Longrightarrow> k < p + span bs \<Longrightarrow> m' (of_nat k) = m (of_nat k)"
  shows "hseg m' e p pv bs"
proof -
  have "\<forall>k \<in> hdrs p bs. m' (of_nat k) = m (of_nat k)"
    using assms(3) hdrs_range [of p bs] by auto
  from hseg_agree [OF this assms(2)] assms(1) show ?thesis by blast
qed

text \<open>The blocks are determined by the memory.\<close>

lemma heap_blocks_eq:
  "hseg m e p pv bs \<Longrightarrow> p + span bs = e \<Longrightarrow> e \<le> 2 ^ 32 \<Longrightarrow> length bs \<le> n \<Longrightarrow> heap_blocks n m e p = bs"
proof (induction bs arbitrary: p pv n)
  case Nil
  then show ?case by (cases n) auto
next
  case (Cons b bs)
  obtain sz fr where b: "b = (sz, fr)" by (cases b)
  obtain n' where n: "n = Suc n'" using Cons.prems(4) by (cases n) auto
  have "rd32 m p = of_nat sz" "(rd32 m (p + 4) \<noteq> 0) = fr" using Cons.prems(1) by (auto simp: b hblk_def)
  moreover have "unat (of_nat sz :: u32) = sz" using Cons.prems(2,3) by (intro unat_of_nat32) (simp add: b)
  moreover have "heap_blocks n' m e (p + 16 + sz) = bs"
    using Cons.prems by (intro Cons.IH [of _ p]) (auto simp: b n)
  ultimately show ?case using Cons.prems(2) by (simp add: n b)
qed

lemma amalloc_Some:
  "amalloc n bs = Some (ofs, bs') \<Longrightarrow> \<exists>xs sz ys. bs = xs @ (sz, True) # ys \<and> n \<le> sz \<and>
     (\<forall>(s, f) \<in> set xs. \<not> (f \<and> n \<le> s)) \<and> ofs = span xs + 16 \<and> bs' = xs @ carve n sz @ ys"
proof (induction bs arbitrary: ofs bs')
  case (Cons b bs)
  obtain sz fr where b: "b = (sz, fr)" by (cases b)
  show ?case
  proof (cases "fr \<and> n \<le> sz")
    case True
    then have "b # bs = [] @ (sz, True) # bs \<and> n \<le> sz \<and> (\<forall>(s, f) \<in> set []. \<not> (f \<and> n \<le> s)) \<and>
        ofs = span [] + 16 \<and> bs' = [] @ carve n sz @ bs"
      using Cons.prems by (auto simp: b)
    then show ?thesis by blast
  next
    case False
    then obtain o1 bs1 where 1: "amalloc n bs = Some (o1, bs1)" "ofs = 16 + sz + o1" "bs' = b # bs1"
      using Cons.prems by (auto simp: b)
    from Cons.IH [OF 1(1)] obtain xs s ys where 2: "bs = xs @ (s, True) # ys" "n \<le> s"
      "\<forall>(s, f) \<in> set xs. \<not> (f \<and> n \<le> s)" "o1 = span xs + 16" "bs1 = xs @ carve n s @ ys" by blast
    then have "b # bs = (b # xs) @ (s, True) # ys \<and> n \<le> s \<and> (\<forall>(s, f) \<in> set (b # xs). \<not> (f \<and> n \<le> s)) \<and>
        ofs = span (b # xs) + 16 \<and> bs' = (b # xs) @ carve n s @ ys"
      using 1 False by (auto simp: b)
    then show ?thesis by blast
  qed
qed simp

lemma amalloc_None: "amalloc n bs = None \<longleftrightarrow> (\<forall>(s, f) \<in> set bs. \<not> (f \<and> n \<le> s))"
  by (induction bs) (auto split: if_splits)

section \<open>The search\<close>

lemma hblk_fields:
  assumes "hblk m p sz fr nx pv" "sz < 2 ^ 32"
  shows "hb_size m (of_nat p) = of_nat sz" "hb_free m (of_nat p) \<noteq> 0 \<longleftrightarrow> fr"
    "hb_next m (of_nat p) = of_nat nx" "hb_prev m (of_nat p) = of_nat pv"
    "n \<le> hb_size m (of_nat p) \<longleftrightarrow> unat n \<le> sz"
  using assms by (simp_all add: hblk_def hb_size_def hb_free_def hb_next_def hb_prev_def word_le_nat_alt unat_of_nat32)

lemma heap_find_hseg:
  "hseg m e p pv bs \<Longrightarrow> p + span bs = e \<Longrightarrow> e \<le> 2 ^ 32 \<Longrightarrow> 0 < p \<Longrightarrow>
   heap_find m (of_nat (nxt e p)) n =
     Some (case amalloc (unat n) bs of None \<Rightarrow> 0 | Some (ofs, bs') \<Rightarrow> of_nat (p + ofs - 16))"
proof (induction bs arbitrary: p pv)
  case Nil
  then show ?case by (simp add: nxt_def heap_find.simps)
next
  case (Cons b bs)
  obtain sz fr where b: "b = (sz, fr)" by (cases b)
  have blk: "hblk m p sz fr (nxt e (p + 16 + sz)) pv" and seg: "hseg m e (p + 16 + sz) p bs"
    using Cons.prems(1) by (auto simp: b)
  have lt: "sz < 2 ^ 32" "p < e" "p < 2 ^ 32" using Cons.prems(2,3) by (auto simp: b)
  note f = hblk_fields [OF blk lt(1)]
  have "(of_nat p :: u32) \<noteq> 0" using of_nat32_inj [of p 0] lt(3) Cons.prems(4) by simp
  then have unf: "heap_find m (of_nat (nxt e p)) n =
      (if fr \<and> unat n \<le> sz then Some (of_nat p) else heap_find m (of_nat (nxt e (p + 16 + sz))) n)"
    using lt(2) by (subst heap_find.simps) (simp add: f(2,3,5) nxt_def [of e p] del: of_nat_add)
  show ?case
  proof (cases "fr \<and> unat n \<le> sz")
    case True
    then show ?thesis unfolding unf by (simp add: b)
  next
    case False
    have "heap_find m (of_nat (nxt e (p + 16 + sz))) n =
      Some (case amalloc (unat n) bs of None \<Rightarrow> 0 | Some (ofs, bs') \<Rightarrow> of_nat (p + 16 + sz + ofs - 16))"
      using Cons.prems by (intro Cons.IH [OF seg]) (auto simp: b)
    moreover have "p + 16 + sz + ofs - 16 = p + (16 + sz + ofs) - 16" for ofs by simp
    ultimately show ?thesis using False unfolding unf
      by (auto simp: b simp del: of_nat_add split: option.splits)
  qed
qed

section \<open>Splitting a block\<close>

text \<open>Field accesses at natural-number addresses.\<close>

lemma hb_nat:
  "hb_size m (of_nat p) = rd32 m p" "hb_free m (of_nat p) = rd32 m (p + 4)"
  "hb_next m (of_nat p) = rd32 m (p + 8)" "hb_prev m (of_nat p) = rd32 m (p + 12)"
  "set_hb_size (of_nat p) v m = wr32 m p v" "set_hb_free (of_nat p) v m = wr32 m (p + 4) v"
  "set_hb_next (of_nat p) v m = wr32 m (p + 8) v" "set_hb_prev (of_nat p) v m = wr32 m (p + 12) v"
  by (simp_all add: hb_size_def hb_free_def hb_next_def hb_prev_def set_hb_size_def set_hb_free_def
      set_hb_next_def set_hb_prev_def)

definition split_mem :: "nat \<Rightarrow> nat \<Rightarrow> nat \<Rightarrow> nat \<Rightarrow> mem \<Rightarrow> mem" where
  "split_mem B n sz nx m =
     (let N = B + 16 + n;
          m4 = wr32 (wr32 (wr32 (wr32 m N (of_nat (sz - n - 16))) (N + 4) 1) (N + 8) (of_nat nx)) (N + 12) (of_nat B);
          m5 = (if nx \<noteq> 0 then wr32 m4 (nx + 12) (of_nat N) else m4)
      in wr32 (wr32 (wr32 m5 (B + 8) (of_nat N)) B (of_nat n)) (B + 4) 0)"

lemma of_nat_nonzero: "nx < 2 ^ 32 \<Longrightarrow> (of_nat nx :: u32) \<noteq> 0 \<longleftrightarrow> nx \<noteq> 0"
  using of_nat32_inj [of nx 0] by simp

lemma split_block_eq:
  assumes blk: "hblk m B sz True nx pv" and n: "n + 32 \<le> sz" and B: "B + 16 + sz \<le> 2 ^ 32"
    and nx: "nx = 0 \<or> B + 16 + sz \<le> nx \<and> nx + 16 \<le> 2 ^ 32"
  shows "set_hb_free (of_nat B) 0 (split_block (of_nat B) (of_nat n) m) = split_mem B n sz nx m"
proof -
  let ?N = "B + 16 + n"
  have f: "rd32 m B = of_nat sz" "rd32 m (B + 8) = of_nat nx" using blk by (auto simp: hblk_def)
  have nb: "of_nat B + HEAP_BLOCK_HEADER_SIZE + of_nat n = (of_nat ?N :: u32)" by simp
  have szn: "of_nat sz - of_nat n - HEAP_BLOCK_HEADER_SIZE = (of_nat (sz - n - 16) :: u32)"
    using n by (simp add: of_nat_diff)
  have "unat (of_nat n + 16 + 16 :: u32) = n + 32"
    using n B unat_of_nat32 [of "n + 32"] by (simp add: add.assoc)
  moreover have "unat (of_nat sz :: u32) = sz" using B by (intro unat_of_nat32) simp
  ultimately have guard: "of_nat n + HEAP_BLOCK_HEADER_SIZE + HEAP_MIN_BLOCK_SIZE \<le> (of_nat sz :: u32)"
    using n by (simp add: word_le_nat_alt)
  let ?m2 = "wr32 (wr32 m ?N (of_nat (sz - n - 16))) (?N + 4) 1"
  let ?m4 = "wr32 (wr32 ?m2 (?N + 8) (of_nat nx)) (?N + 12) (of_nat B)"
  have "rd32 ?m2 (B + 8) = of_nat nx" "rd32 ?m4 (B + 8) = of_nat nx"
    using n B f(2) by (simp_all add: rd32_wr32_other del: of_nat_add)
  moreover have "nx < 2 ^ 32" using nx by auto
  ultimately show ?thesis
    using guard unfolding split_block_def Let_def split_mem_def hb_nat f nb szn
    by (simp add: hb_nat of_nat_nonzero del: of_nat_add)
qed

lemma split_mem_reads:
  assumes n: "n + 32 \<le> sz" and B: "B + 16 + sz \<le> 2 ^ 32" and pv: "rd32 m (B + 12) = of_nat pv"
    and nx: "nx = 0 \<or> B + 16 + sz \<le> nx \<and> nx + 16 \<le> 2 ^ 32"
    and m': "m' = split_mem B n sz nx m"
  shows "hblk m' B n False (B + 16 + n) pv" "hblk m' (B + 16 + n) (sz - n - 16) True nx B"
    "nx \<noteq> 0 \<Longrightarrow> rd32 m' (nx + 12) = of_nat (B + 16 + n)"
  using assms
  by (auto simp: split_mem_def hblk_def Let_def rd32_wr32_other simp del: of_nat_add)

lemma split_mem_bytes:
  assumes n: "n + 32 \<le> sz" and B: "B + 16 + sz \<le> 2 ^ 32"
    and nx: "nx = 0 \<or> B + 16 + sz \<le> nx \<and> nx + 16 \<le> 2 ^ 32"
    and k: "k < 2 ^ 32" "k \<notin> {B..<B + 12}" "k \<notin> {B + 16 + n..<B + 32 + n}" "nx \<noteq> 0 \<Longrightarrow> k \<notin> {nx + 12..<nx + 16}"
  shows "split_mem B n sz nx m (of_nat k) = m (of_nat k)"
  using assms by (auto simp: split_mem_def Let_def wr32_byte_other simp del: of_nat_add)

section \<open>Payload bytes\<close>

definition payload :: "(nat \<times> nat) set \<Rightarrow> nat set" where
  "payload L = (\<Union>(a, n) \<in> L. {a..<a + n})"

lemma payload_Un [simp]: "payload (A \<union> B) = payload A \<union> payload B" "payload {} = {}"
  "payload (insert (a, n) A) = {a..<a + n} \<union> payload A"
  by (auto simp: payload_def)

lemma payload_range: "payload (live p bs) \<subseteq> {p + 16..<p + span bs}"
  using live_range by (fastforce simp: payload_def)

lemma payload_hdrs: "payload (live p bs) \<inter> hdrs p bs = {}"
proof (induction bs arbitrary: p)
  case (Cons b bs)
  obtain sz fr where b: "b = (sz, fr)" by (cases b)
  have "payload (live (p + 16 + sz) bs) \<inter> {p..<p + 16} = {}"
    using payload_range [of "p + 16 + sz" bs] by fastforce
  moreover have "{p + 16..<p + 16 + sz} \<inter> hdrs (p + 16 + sz) bs = {}"
    using hdrs_range [of "p + 16 + sz" bs] by fastforce
  ultimately show ?case using Cons.IH [of "p + 16 + sz"] by (auto simp: b)
qed simp

lemma payload_free_block:
  "payload (live p (xs @ (sz, True) # ys)) \<inter> {p + span xs..<p + span xs + 16 + sz} = {}"
  using payload_range [of p xs] payload_range [of "p + span xs + 16 + sz" ys]
  by (fastforce simp: add.assoc)

lemma hseg_set_prev:
  assumes "hseg m e q pv ((sz, fr) # bs)" "q + span ((sz, fr) # bs) \<le> 2 ^ 32"
    and "\<forall>k \<in> hdrs q ((sz, fr) # bs) - {q + 12..<q + 16}. m' (of_nat k) = m (of_nat k)"
    and "rd32 m' (q + 12) = of_nat pv'"
  shows "hseg m' e q pv' ((sz, fr) # bs)"
proof -
  have "hdrs (q + 16 + sz) bs \<inter> {q..<q + 16} = {}"
    using hdrs_range [of "q + 16 + sz" bs] by fastforce
  then have "hseg m' e (q + 16 + sz) q bs"
    using hseg_agree [of "q + 16 + sz" bs m' m e q] assms(1-3) by fastforce
  moreover have "rd32 m' (q + d) = rd32 m (q + d)" if "d \<le> 8" for d
    by (rule rd32_agree) (use assms(2,3) that in auto)
  from this [of 0] this [of 4] this [of 8] have "hblk m' q sz fr (nxt e (q + 16 + sz)) pv'"
    using assms(1,4) by (simp add: hblk_def)
  ultimately show ?thesis by simp
qed

section \<open>Allocation refines the abstract heap\<close>

lemma carve_span: "n \<le> sz \<Longrightarrow> span (carve n sz) = 16 + sz"
  by (auto simp: carve_def)

lemma malloc_hseg:
  assumes seg: "hseg m e p pv (xs @ (sz, True) # ys)" and e: "p + span (xs @ (sz, True) # ys) = e" "e \<le> 2 ^ 32"
    and n: "n \<le> sz" and small: "sz < 2 ^ 31" and B: "B = p + span xs"
    and m': "m' = set_hb_free (of_nat B) 0 (split_block (of_nat B) (of_nat n) m)"
  shows "hseg m' e p pv (xs @ carve n sz @ ys)"
    and "k < 2 ^ 32 \<Longrightarrow> k \<notin> hdrs p (xs @ (sz, True) # ys) \<Longrightarrow> k \<notin> {B..<B + 16 + sz} \<Longrightarrow> m' (of_nat k) = m (of_nat k)"
proof -
  let ?q = "B + 16 + sz"
  let ?nx = "nxt e ?q"
  have xs: "hseg m e p pv xs" and blk: "hblk m B sz True ?nx (lastp p pv xs)" and ys: "hseg m e ?q B ys"
    using seg by (auto simp: B)
  have fin: "?q + span ys = e" and q: "?q \<le> 2 ^ 32" using e by (auto simp: B)
  have ys_nil: "ys = [] \<longleftrightarrow> ?q = e" using fin length_span [of ys] by (cases ys) auto
  have nx: "?nx = 0 \<or> ?q \<le> ?nx \<and> ?nx + 16 \<le> 2 ^ 32"
    using fin e(2) by (cases ys) (auto simp: nxt_def)
  have hx: "hdrs p xs \<subseteq> {p..<B}" using hdrs_range [of p xs] by (simp add: B)
  have hy: "hdrs ?q ys \<subseteq> {?q..<e}" using hdrs_range [of ?q ys] fin by simp
  have "hseg m' e p pv (xs @ carve n sz @ ys) \<and>
    (k < 2 ^ 32 \<longrightarrow> k \<notin> hdrs p (xs @ (sz, True) # ys) \<longrightarrow> k \<notin> {B..<?q} \<longrightarrow> m' (of_nat k) = m (of_nat k))"
  proof (cases "n + 32 \<le> sz")
    case True
    have m2: "m' = split_mem B n sz ?nx m"
      unfolding m' by (rule split_block_eq [OF blk True q nx])
    have bytes: "m' (of_nat k) = m (of_nat k)"
      if "k < 2 ^ 32" "k \<notin> {B..<?q}" "?q \<noteq> e \<Longrightarrow> k \<notin> {?q + 12..<?q + 16}" for k
      unfolding m2 by (rule split_mem_bytes [OF True q nx]) (use that True in \<open>auto simp: nxt_def\<close>)
    have pv: "rd32 m (B + 12) = of_nat (lastp p pv xs)" using blk by (simp add: hblk_def)
    note r = split_mem_reads [OF True q pv nx m2]
    have "hseg m' e p pv xs"
      using xs by (rule hseg_keep) (use q in \<open>auto simp: B intro!: bytes\<close>)
    moreover have "hseg m' e ?q (B + 16 + n) ys"
    proof (cases ys)
      case (Cons b zs)
      obtain s2 f2 where b: "b = (s2, f2)" by (cases b)
      have "?q \<noteq> e" using ys_nil Cons by simp
      then have "rd32 m' (?q + 12) = of_nat (B + 16 + n)" using r(3) e(1) by (simp add: nxt_def B del: of_nat_add)
      moreover have "\<forall>k \<in> hdrs ?q ys - {?q + 12..<?q + 16}. m' (of_nat k) = m (of_nat k)"
        using bytes hy e(2) by fastforce
      ultimately show ?thesis
        using hseg_set_prev [of m e ?q B s2 f2 zs m' "B + 16 + n"] ys fin e(2) by (simp add: Cons b)
    qed simp
    moreover have "nxt e (B + 16 + n) = B + 16 + n" using fin True by (simp add: nxt_def)
    ultimately have "hseg m' e p pv (xs @ carve n sz @ ys)"
      using r(1,2) True by (simp add: carve_def B add.assoc)
    moreover have "m' (of_nat k) = m (of_nat k)" if "k < 2 ^ 32" "k \<notin> hdrs p (xs @ (sz, True) # ys)" "k \<notin> {B..<?q}"
      using that bytes [of k] ys_nil by (cases ys) (auto simp: B)
    ultimately show ?thesis by blast
  next
    case False
    have "\<not> of_nat n + HEAP_BLOCK_HEADER_SIZE + HEAP_MIN_BLOCK_SIZE \<le> (of_nat sz :: u32)"
    proof -
      have "unat (of_nat sz :: u32) = sz" using q by (intro unat_of_nat32) simp
      moreover have "unat (of_nat n + 16 + 16 :: u32) = n + 32"
        using unat_of_nat32 [of "n + 32"] n small by (simp add: add.assoc)
      ultimately show ?thesis using False by (simp add: word_le_nat_alt)
    qed
    then have m2: "m' = wr32 m (B + 4) 0"
      using blk unfolding m' split_block_def hb_nat by (simp add: hblk_def del: of_nat_add)
    have bytes: "m' (of_nat k) = m (of_nat k)" if "k < 2 ^ 32" "k \<notin> {B + 4..<B + 8}" for k
      unfolding m2 using that q by (intro wr32_byte_other) auto
    have "hblk m' B sz False ?nx (lastp p pv xs)"
      using blk q unfolding m2 hblk_def by (simp add: rd32_wr32_other del: of_nat_add)
    moreover have "hseg m' e p pv xs"
      using xs by (rule hseg_keep) (use q in \<open>auto simp: B intro!: bytes\<close>)
    moreover have "hseg m' e ?q B ys"
      using ys by (rule hseg_keep) (use fin e(2) in \<open>auto intro!: bytes\<close>)
    ultimately show ?thesis using False bytes [of k] by (auto simp: carve_def B)
  qed
  then show "hseg m' e p pv (xs @ carve n sz @ ys)"
    and "k < 2 ^ 32 \<Longrightarrow> k \<notin> hdrs p (xs @ (sz, True) # ys) \<Longrightarrow> k \<notin> {B..<?q} \<Longrightarrow> m' (of_nat k) = m (of_nat k)"
    by blast+
qed

lemma kprintf_heap [simp]:
  "heap_start (kprintf f a s) = heap_start s" "heap_initialized (kprintf f a s) = heap_initialized s"
  "kheap.more (kprintf f a s) = kheap.more s"
  by (subst kprintf_eq; simp)+

lemma heap_okI:
  assumes "heap_initialized s" "0 < unat (heap_start s)" "8 dvd unat (heap_start s)" "heap_end s < 2 ^ 32"
    and "hseg (mem s) (heap_end s) (unat (heap_start s)) 0 bs" "span bs = 4194304" "blocks_ok bs"
  shows "heap_ok s" "blocks_of s = bs"
proof -
  show b: "blocks_of s = bs"
    unfolding blocks_of_def using length_span [of bs] assms(4-6)
    by (intro heap_blocks_eq [of _ _ _ 0]) (auto simp: heap_end_def)
  show "heap_ok s" unfolding heap_ok_def b using assms by blast
qed

lemma heap_okD:
  assumes "heap_ok s"
  shows "heap_initialized s" "0 < unat (heap_start s)" "8 dvd unat (heap_start s)" "heap_end s \<le> 2 ^ 32"
    and "hseg (mem s) (heap_end s) (unat (heap_start s)) 0 (blocks_of s)" "span (blocks_of s) = 4194304"
    and "blocks_ok (blocks_of s)" "heap_end s < 2 ^ 32"
  using assms unfolding heap_ok_def by (blast intro: less_imp_le)+

lemma no_adjacent_append:
  "no_adjacent_free (xs @ ys) \<longleftrightarrow> no_adjacent_free xs \<and> no_adjacent_free ys \<and>
     (xs \<noteq> [] \<and> ys \<noteq> [] \<longrightarrow> \<not> (snd (last xs) \<and> snd (hd ys)))"
proof (induction xs)
  case (Cons x xs)
  obtain l f where x: "x = (l, f)" by (cases x)
  show ?case
  proof (cases xs)
    case Nil
    then show ?thesis by (cases ys; cases "hd ys") (auto simp: x)
  next
    case (Cons y zs)
    then show ?thesis using Cons.IH by (cases y) (auto simp: x)
  qed
qed simp

lemma blocks_ok_carve:
  assumes "blocks_ok (xs @ (sz, True) # ys)" "8 dvd n" "n \<le> sz"
  shows "blocks_ok (xs @ carve n sz @ ys)"
proof -
  have "8 dvd sz" using assms(1) by (auto simp: blocks_ok_def)
  then have "8 dvd sz - n - 16" using assms(2) by (intro dvd_diff_nat) auto
  moreover have "no_adjacent_free (xs @ carve n sz @ ys)"
    using assms(1) unfolding blocks_ok_def no_adjacent_append
    by (cases ys; cases "n + 32 \<le> sz") (auto simp: carve_def no_adjacent_append)
  ultimately show ?thesis
    using assms(1,2) by (auto simp: blocks_ok_def carve_def)
qed

lemma unat_round8: "unat (round8 sz) = 8 * (unat (sz + 7) div 8)"
proof -
  have "round8 sz = push_bit 3 (drop_bit 3 (sz + 7))"
  proof -
    have "(7 :: u32) = mask 3" by (simp add: mask_eq_exp_minus_1)
    then have "round8 sz = (sz + 7) AND NOT (mask 3)" by (simp add: round8_def)
    also have "\<dots> = push_bit 3 (drop_bit 3 (sz + 7))"
      by (rule bit_word_eqI) (auto simp: bit_simps)
    finally show ?thesis .
  qed
  then have "round8 sz = drop_bit 3 (sz + 7) * 8" by (simp add: push_bit_eq_mult)
  moreover have "unat (drop_bit 3 (sz + 7)) = unat (sz + 7) div 8" by (subst unat_drop) simp
  moreover have "unat (sz + 7) div 8 * 8 < 2 ^ 32"
    using le_less_trans [OF div_times_less_eq_dividend unat_lt32] by simp
  ultimately show ?thesis by (simp add: unat_word_ariths mult.commute)
qed

lemma round8_ge: "unat sz \<le> 2 ^ 32 - 8 \<Longrightarrow> unat sz \<le> unat (round8 sz)"
proof -
  assume "unat sz \<le> 2 ^ 32 - 8"
  then have "unat (sz + 7) = unat sz + 7" by (simp add: unat_word_ariths)
  then show ?thesis unfolding unat_round8 by simp
qed

lemma amalloc_live:
  assumes "amalloc n bs = Some (ofs, bs')"
  shows "span bs' = span bs" "\<exists>sz. n \<le> sz \<and> live p bs' = insert (p + ofs, sz) (live p bs) \<and>
    {p + ofs..<p + ofs + sz} \<inter> payload (live p bs) = {} \<and> 16 \<le> ofs \<and> ofs + sz \<le> span bs"
proof -
  from amalloc_Some [OF assms] obtain xs sz ys where x: "bs = xs @ (sz, True) # ys" "n \<le> sz"
    "ofs = span xs + 16" "bs' = xs @ carve n sz @ ys" by blast
  show "span bs' = span bs" using x(2) by (simp add: x(1,4) carve_span)
  let ?sz = "if n + 32 \<le> sz then n else sz"
  have "live p bs' = insert (p + ofs, ?sz) (live p bs)"
    using x(2) by (auto simp: x carve_def add.assoc)
  moreover have "{p + ofs..<p + ofs + ?sz} \<inter> payload (live p bs) = {}"
    using payload_free_block [of p xs sz ys] x(2) unfolding x(1,3) by (auto split: if_splits)
  ultimately show "\<exists>sz. n \<le> sz \<and> live p bs' = insert (p + ofs, sz) (live p bs) \<and>
      {p + ofs..<p + ofs + sz} \<inter> payload (live p bs) = {} \<and> 16 \<le> ofs \<and> ofs + sz \<le> span bs"
    using x by (intro exI [of _ ?sz]) auto
qed

text \<open>The bytes an operation on the heap leaves alone: those outside it and the live payloads.\<close>

definition kept :: "'a kheap_scheme \<Rightarrow> nat set" where
  "kept s = {k. k < 2 ^ 32 \<and> (k < unat (heap_start s) \<or> heap_end s \<le> k)} \<union> payload (heap_live s)"

lemma find_blocks:
  assumes "heap_ok s"
  shows "heap_find (mem s) (heap_start s) n =
    Some (case amalloc (unat n) (blocks_of s) of None \<Rightarrow> 0 | Some (ofs, bs') \<Rightarrow> of_nat (unat (heap_start s) + ofs - 16))"
proof -
  note h = heap_okD [OF assms]
  have fin: "unat (heap_start s) + span (blocks_of s) = heap_end s" by (simp add: h(6) heap_end_def)
  then have "nxt (heap_end s) (unat (heap_start s)) = unat (heap_start s)" using h(6) by (simp add: nxt_def)
  with heap_find_hseg [OF h(5) fin h(4,2), of n] show ?thesis by simp
qed

lemma kmalloc_none:
  assumes "heap_ok s" "sz \<noteq> 0" "amalloc (unat (round8 sz)) (blocks_of s) = None"
  shows "kmalloc sz s = Some (0, kprintf (litln ''[HEAP] ERROR: Out of kernel heap memory (requested %u)'')
                     [VInt (round8 sz)] s)"
  using assms(2,3) heap_okD(1) [OF assms(1)] by (simp add: kmalloc_def find_blocks [OF assms(1)])

lemma heap_ok_mem_only:
  assumes "heap_ok s" "mem s' = mem s" "heap_start s' = heap_start s" "heap_initialized s' = heap_initialized s"
  shows "heap_ok s'" "blocks_of s' = blocks_of s"
proof -
  have e: "heap_end s' = heap_end s" by (simp add: heap_end_def assms(3))
  then show "blocks_of s' = blocks_of s" by (simp add: blocks_of_def assms)
  then show "heap_ok s'" using assms(1) unfolding heap_ok_def e assms(2-4) by simp
qed

lemma heap_kprintf [simp]:
  "blocks_of (kprintf f a s) = blocks_of s" "heap_ok (kprintf f a s) = heap_ok s"
  "heap_live (kprintf f a s) = heap_live s"
  by (simp_all add: heap_ok_def blocks_of_def heap_end_def heap_live_def)

lemma kmalloc_some:
  assumes ok: "heap_ok s" and "sz \<noteq> 0" and al: "amalloc (unat (round8 sz)) (blocks_of s) = Some (ofs, bs')"
  obtains s' where "kmalloc sz s = Some (of_nat (unat (heap_start s) + ofs), s')" "heap_ok s'" "blocks_of s' = bs'"
    "s' = s\<lparr>mem := mem s'\<rparr>" "\<forall>k \<in> kept s. mem s' (of_nat k) = mem s (of_nat k)"
proof -
  note h = heap_okD [OF ok]
  let ?p = "unat (heap_start s)" and ?n = "unat (round8 sz)"
  from amalloc_Some [OF al] obtain xs l ys where x: "blocks_of s = xs @ (l, True) # ys" "?n \<le> l"
    "ofs = span xs + 16" "bs' = xs @ carve ?n l @ ys" by blast
  let ?B = "?p + span xs"
  define m' where "m' = set_hb_free (of_nat ?B) 0 (split_block (of_nat ?B) (round8 sz) (mem s))"
  define s' where "s' = s\<lparr>mem := m'\<rparr>"
  have n: "(of_nat ?n :: u32) = round8 sz" by simp
  have fin: "?p + span (xs @ (l, True) # ys) = heap_end s" using h(6) by (simp add: x(1) heap_end_def)
  have small: "l < 2 ^ 31" using h(6) by (simp add: x(1))
  note mh = malloc_hseg [OF h(5) [unfolded x(1)] fin h(4) x(2) small refl, of m', unfolded n, OF m'_def]
  have B: "?B < 2 ^ 32" "?B \<noteq> 0" using fin h(2,4) by auto
  then have "(of_nat ?B :: u32) \<noteq> 0" using of_nat_nonzero by blast
  moreover have "of_nat ?B + HEAP_BLOCK_HEADER_SIZE = (of_nat (?p + ofs) :: u32)" by (simp add: x(3))
  moreover have "?p + ofs - 16 = ?B" by (simp add: x(3))
  ultimately have "kmalloc sz s = Some (of_nat (?p + ofs), s')"
    using assms(2) h(1) find_blocks [OF ok, of "round8 sz"] al
    by (simp add: kmalloc_def s'_def m'_def del: of_nat_add)
  moreover have "8 dvd ?n" by (simp add: unat_round8)
  then have bo: "blocks_ok bs'" unfolding x(4) by (intro blocks_ok_carve x(2) h(7) [unfolded x(1)])
  have "heap_ok s'" "blocks_of s' = bs'"
    using heap_okI [of s' bs'] h bo mh(1) amalloc_live(1) [OF al]
    by (simp_all add: s'_def heap_end_def x(4))
  moreover have "mem s' (of_nat k) = mem s (of_nat k)" if "k \<in> kept s" for k
  proof -
    have r: "hdrs ?p (blocks_of s) \<subseteq> {?p..<heap_end s}" using hdrs_range [of ?p "blocks_of s"] h(6)
      by (simp add: heap_end_def)
    have r2: "{?B..<?B + 16 + l} \<subseteq> {?p..<heap_end s}" using fin by auto
    have d: "payload (heap_live s) \<inter> hdrs ?p (blocks_of s) = {}" "payload (heap_live s) \<inter> {?B..<?B + 16 + l} = {}"
      using payload_hdrs payload_free_block unfolding heap_live_def x(1) by blast+
    have "k < 2 ^ 32"
      using that payload_range [of ?p "blocks_of s"] h(4,6) by (auto simp: kept_def heap_live_def heap_end_def)
    moreover have "k \<notin> hdrs ?p (blocks_of s) \<and> k \<notin> {?B..<?B + 16 + l}"
    proof (cases "k \<in> payload (heap_live s)")
      case True
      then show ?thesis using d by blast
    next
      case False
      then have "k \<notin> {?p..<heap_end s}" using that by (auto simp: kept_def)
      then show ?thesis using r r2 by blast
    qed
    ultimately show ?thesis using mh(2) [of k] unfolding x(1) [symmetric] s'_def by simp
  qed
  ultimately show thesis using that by (simp add: s'_def)
qed

section \<open>Merging two neighbours\<close>

definition merge_mem :: "nat \<Rightarrow> nat \<Rightarrow> nat \<Rightarrow> mem \<Rightarrow> mem" where
  "merge_mem A l nx m =
     (let m2 = wr32 (wr32 m A (of_nat l)) (A + 8) (of_nat nx)
      in if nx \<noteq> 0 then wr32 m2 (nx + 12) (of_nat A) else m2)"

lemma merge_bytes:
  assumes "A + 16 \<le> 2 ^ 32" "nx = 0 \<or> nx + 16 \<le> 2 ^ 32" "k < 2 ^ 32" "k \<notin> {A..<A + 12}"
    "nx \<noteq> 0 \<Longrightarrow> k \<notin> {nx + 12..<nx + 16}"
  shows "merge_mem A l nx m (of_nat k) = m (of_nat k)"
  using assms by (auto simp: merge_mem_def Let_def wr32_byte_other simp del: of_nat_add)

lemma merge_reads:
  assumes "A + 16 \<le> 2 ^ 32" "nx = 0 \<or> A + 16 \<le> nx \<and> nx + 16 \<le> 2 ^ 32" "m' = merge_mem A l nx m"
    and "hblk m A a fa na pv"
  shows "hblk m' A l fa nx pv" "nx \<noteq> 0 \<Longrightarrow> rd32 m' (nx + 12) = of_nat A"
  using assms by (auto simp: merge_mem_def hblk_def Let_def rd32_wr32_other simp del: of_nat_add)

lemma merge_hseg:
  assumes seg: "hseg m e p pv (xs @ (a, fa) # (b, fb) # ys)"
    and e: "p + span (xs @ (a, fa) # (b, fb) # ys) = e" "e \<le> 2 ^ 32" and A: "A = p + span xs"
    and m': "m' = merge_mem A (a + 16 + b) (nxt e (A + 32 + a + b)) m"
  shows "hseg m' e p pv (xs @ (a + 16 + b, fa) # ys)"
    and "k < 2 ^ 32 \<Longrightarrow> k \<notin> hdrs p (xs @ (a, fa) # (b, fb) # ys) \<Longrightarrow> m' (of_nat k) = m (of_nat k)"
proof -
  let ?q = "A + 32 + a + b"
  let ?nx = "nxt e ?q"
  have xs: "hseg m e p pv xs" and blk: "hblk m A a fa (nxt e (A + 16 + a)) (lastp p pv xs)"
    and ys: "hseg m e ?q (A + 16 + a) ys"
    using seg by (auto simp: A add.commute add.left_commute)
  have fin: "?q + span ys = e" using e by (auto simp: A)
  have q: "?q \<le> 2 ^ 32" "A + 16 \<le> 2 ^ 32" using fin e(2) by auto
  have nx: "?nx = 0 \<or> A + 16 \<le> ?nx \<and> ?nx + 16 \<le> 2 ^ 32"
    using fin e(2) by (cases ys) (auto simp: nxt_def)
  have ys_nil: "ys = [] \<longleftrightarrow> ?q = e" using fin by (cases ys) auto
  have bytes: "m' (of_nat k) = m (of_nat k)"
    if "k < 2 ^ 32" "k \<notin> {A..<A + 12}" "?q \<noteq> e \<Longrightarrow> k \<notin> {?q + 12..<?q + 16}" for k
    unfolding m' by (rule merge_bytes [OF q(2) _ that(1,2)]) (use nx that(3) in \<open>auto simp: nxt_def\<close>)
  note r = merge_reads [OF q(2) nx m' blk]
  have hx: "hdrs p xs \<subseteq> {p..<A}" using hdrs_range [of p xs] by (simp add: A)
  have hy: "hdrs ?q ys \<subseteq> {?q..<e}" using hdrs_range [of ?q ys] fin by simp
  have "hseg m' e p pv xs"
    using xs by (rule hseg_keep) (use q in \<open>auto simp: A intro!: bytes\<close>)
  moreover have "hseg m' e ?q A ys"
  proof (cases ys)
    case (Cons y zs)
    obtain s2 f2 where y: "y = (s2, f2)" by (cases y)
    have "?q \<noteq> e" using ys_nil Cons by simp
    then have "rd32 m' (?q + 12) = of_nat A" using r(2) by (simp add: nxt_def del: of_nat_add)
    moreover have "\<forall>k \<in> hdrs ?q ys - {?q + 12..<?q + 16}. m' (of_nat k) = m (of_nat k)"
      using bytes hy e(2) by fastforce
    ultimately show ?thesis
      using hseg_set_prev [of m e ?q "A + 16 + a" s2 f2 zs m' A] ys fin e(2) by (simp add: Cons y)
  qed simp
  moreover have "A + 16 + (a + 16 + b) = ?q" by simp
  ultimately show "hseg m' e p pv (xs @ (a + 16 + b, fa) # ys)"
    using r(1) by (simp add: A [symmetric] add.assoc add.commute add.left_commute)
  show "k < 2 ^ 32 \<Longrightarrow> k \<notin> hdrs p (xs @ (a, fa) # (b, fb) # ys) \<Longrightarrow> m' (of_nat k) = m (of_nat k)"
    using bytes [of k] ys_nil by (cases ys) (auto simp: A)
qed

text \<open>Both halves of \<^verbatim>\<open>coalesce_block\<close> are such a merge.\<close>

lemma coalesce_next_merge:
  assumes blk: "hblk m A a fa (A + 16 + a) pv" and nblk: "hblk m (A + 16 + a) b True nx pv'"
    and b: "A + 32 + a + b \<le> 2 ^ 32" "nx = 0 \<or> A + 32 + a + b \<le> nx \<and> nx + 16 \<le> 2 ^ 32"
  shows "coalesce_next (of_nat A) m = merge_mem A (a + 16 + b) nx m"
proof -
  let ?Q = "A + 16 + a"
  have f: "rd32 m A = of_nat a" "rd32 m (A + 8) = of_nat ?Q" "rd32 m ?Q = of_nat b" "rd32 m (?Q + 4) \<noteq> 0"
    "rd32 m (?Q + 8) = of_nat nx" using blk nblk by (auto simp: hblk_def)
  have "(of_nat ?Q :: u32) \<noteq> 0" using b(1) of_nat_nonzero [of ?Q] by simp
  moreover have sum: "of_nat a + (HEAP_BLOCK_HEADER_SIZE + of_nat b) = (of_nat (a + 16 + b) :: u32)" by simp
  let ?m1 = "wr32 m A (of_nat (a + 16 + b))"
  have r: "rd32 ?m1 (A + 8) = of_nat ?Q" "rd32 ?m1 (?Q + 8) = of_nat nx"
    using f b by (simp_all add: rd32_wr32_other del: of_nat_add)
  moreover have "nx < 2 ^ 32" using b(2) by auto
  ultimately show ?thesis
    unfolding coalesce_next_def Let_def merge_mem_def hb_nat f(2) f(1,3,4,5)
    using f(4) by (simp add: hb_nat sum r of_nat_nonzero del: of_nat_add)
qed

lemma coalesce_prev_merge:
  assumes blk: "hblk m A a True (A + 16 + a) pv" and nblk: "hblk m (A + 16 + a) b fb nx A"
    and b: "A + 32 + a + b \<le> 2 ^ 32" "nx = 0 \<or> A + 32 + a + b \<le> nx \<and> nx + 16 \<le> 2 ^ 32" "0 < A"
  shows "coalesce_prev (of_nat (A + 16 + a)) m = merge_mem A (a + 16 + b) nx m"
proof -
  let ?Q = "A + 16 + a"
  have f: "rd32 m A = of_nat a" "rd32 m (A + 4) \<noteq> 0" "rd32 m ?Q = of_nat b" "rd32 m (?Q + 12) = of_nat A"
    "rd32 m (?Q + 8) = of_nat nx" using blk nblk by (auto simp: hblk_def)
  have "(of_nat A :: u32) \<noteq> 0" using b(1,3) of_nat_nonzero [of A] by simp
  moreover have sum: "of_nat a + (HEAP_BLOCK_HEADER_SIZE + of_nat b) = (of_nat (a + 16 + b) :: u32)" by simp
  let ?m1 = "wr32 m A (of_nat (a + 16 + b))"
  let ?m2 = "wr32 ?m1 (A + 8) (of_nat nx)"
  have r: "rd32 ?m1 (?Q + 12) = of_nat A" "rd32 ?m1 (?Q + 8) = of_nat nx"
      "rd32 ?m2 (?Q + 12) = of_nat A" "rd32 ?m2 (?Q + 8) = of_nat nx"
    using f b by (simp_all add: rd32_wr32_other del: of_nat_add)
  moreover have "nx < 2 ^ 32" using b(2) by auto
  ultimately show ?thesis
    unfolding coalesce_prev_def Let_def merge_mem_def hb_nat f(4)
    using f(2) by (simp add: hb_nat f sum r of_nat_nonzero del: of_nat_add)
qed

lemma coalesce_next_hseg:
  assumes seg: "hseg m e p pv (xs @ (sz, True) # ys)" and e: "p + span (xs @ (sz, True) # ys) = e" "e \<le> 2 ^ 32"
    and B: "B = p + span xs" and m': "m' = coalesce_next (of_nat B) m"
  shows "hseg m' e p pv (xs @ join (sz, True) ys)"
    and "k < 2 ^ 32 \<Longrightarrow> k \<notin> hdrs p (xs @ (sz, True) # ys) \<Longrightarrow> m' (of_nat k) = m (of_nat k)"
proof -
  have blk: "hblk m B sz True (nxt e (B + 16 + sz)) (lastp p pv xs)" using seg by (simp add: B)
  have next_eq: "hb_next m (of_nat B) = of_nat (nxt e (B + 16 + sz))" using blk by (simp only: hb_nat hblk_def)
  have same: "m' = m \<Longrightarrow> join (sz, True) ys = (sz, True) # ys \<Longrightarrow> hseg m' e p pv (xs @ join (sz, True) ys) \<and>
     (k < 2 ^ 32 \<longrightarrow> k \<notin> hdrs p (xs @ (sz, True) # ys) \<longrightarrow> m' (of_nat k) = m (of_nat k))"
    using seg by simp
  have "hseg m' e p pv (xs @ join (sz, True) ys) \<and>
     (k < 2 ^ 32 \<longrightarrow> k \<notin> hdrs p (xs @ (sz, True) # ys) \<longrightarrow> m' (of_nat k) = m (of_nat k))"
  proof (cases ys)
    case Nil
    then have "nxt e (B + 16 + sz) = 0" using e by (simp add: nxt_def B)
    then show ?thesis using next_eq Nil by (intro same) (simp_all add: m' coalesce_next_def)
  next
    case (Cons y zs)
    obtain s2 f2 where y: "y = (s2, f2)" by (cases y)
    have nx: "nxt e (B + 16 + sz) = B + 16 + sz" using e by (simp add: nxt_def B Cons y)
    have nblk: "hblk m (B + 16 + sz) s2 f2 (nxt e (B + 32 + sz + s2)) B"
      using seg by (simp add: B Cons y add.assoc add.commute add.left_commute)
    show ?thesis
    proof (cases f2)
      case True
      have fin: "B + 32 + sz + s2 + span zs = e" using e by (simp add: B Cons y)
      then have nx2: "nxt e (B + 32 + sz + s2) = 0 \<or>
          B + 32 + sz + s2 \<le> nxt e (B + 32 + sz + s2) \<and> nxt e (B + 32 + sz + s2) + 16 \<le> 2 ^ 32"
        using e(2) by (cases zs) (auto simp: nxt_def)
      have "m' = merge_mem B (sz + 16 + s2) (nxt e (B + 32 + sz + s2)) m"
        unfolding m' using fin e(2) nx2 blk nblk True nx
        by (intro coalesce_next_merge [where pv = "lastp p pv xs" and pv' = B]) simp_all
      from merge_hseg [OF _ _ e(2) B this, of pv True f2 zs] seg e(1) show ?thesis
        by (simp add: Cons y True)
    next
      case False
      then have "rd32 m (B + 16 + sz + 4) = 0" using nblk by (simp add: hblk_def del: of_nat_add)
      then have "hb_free m (hb_next m (of_nat B)) = 0" unfolding next_eq nx unfolding hb_nat .
      then have "m' = m" by (simp add: m' coalesce_next_def)
      then show ?thesis using False by (intro same) (simp_all add: Cons y)
    qed
  qed
  then show "hseg m' e p pv (xs @ join (sz, True) ys)"
    and "k < 2 ^ 32 \<Longrightarrow> k \<notin> hdrs p (xs @ (sz, True) # ys) \<Longrightarrow> m' (of_nat k) = m (of_nat k)" by blast+
qed

lemma coalesce_prev_hseg:
  assumes seg: "hseg m e p pv (xs @ (s0, f0) # (sz, True) # ys)"
    and e: "p + span (xs @ (s0, f0) # (sz, True) # ys) = e" "e \<le> 2 ^ 32" and p: "0 < p"
    and B: "B = p + span xs + 16 + s0" and m': "m' = coalesce_prev (of_nat B) m"
  shows "hseg m' e p pv (xs @ join (s0, f0) ((sz, True) # ys))"
    and "k < 2 ^ 32 \<Longrightarrow> k \<notin> hdrs p (xs @ (s0, f0) # (sz, True) # ys) \<Longrightarrow> m' (of_nat k) = m (of_nat k)"
proof -
  let ?A = "p + span xs"
  have nxA: "nxt e (?A + 16 + s0) = ?A + 16 + s0" using e by (simp add: nxt_def)
  have blk: "hblk m ?A s0 f0 (?A + 16 + s0) (lastp p pv xs)" using seg nxA by simp
  have nblk: "hblk m (?A + 16 + s0) sz True (nxt e (?A + 32 + s0 + sz)) ?A"
    using seg by (simp add: add.assoc add.commute add.left_commute)
  have prev_eq: "hb_prev m (of_nat B) = of_nat ?A" using nblk unfolding B hb_nat hblk_def by blast
  have "hseg m' e p pv (xs @ join (s0, f0) ((sz, True) # ys)) \<and>
     (k < 2 ^ 32 \<longrightarrow> k \<notin> hdrs p (xs @ (s0, f0) # (sz, True) # ys) \<longrightarrow> m' (of_nat k) = m (of_nat k))"
  proof (cases f0)
    case True
    have fin: "?A + 32 + s0 + sz + span ys = e" using e by simp
    then have nx2: "nxt e (?A + 32 + s0 + sz) = 0 \<or>
        ?A + 32 + s0 + sz \<le> nxt e (?A + 32 + s0 + sz) \<and> nxt e (?A + 32 + s0 + sz) + 16 \<le> 2 ^ 32"
      using e(2) by (cases ys) (auto simp: nxt_def)
    have "m' = merge_mem ?A (s0 + 16 + sz) (nxt e (?A + 32 + s0 + sz)) m"
      unfolding m' B using fin e(2) nx2 blk nblk True p
      by (intro coalesce_prev_merge [where pv = "lastp p pv xs" and fb = True]) simp_all
    from merge_hseg [OF seg e refl this] show ?thesis by (simp add: True)
  next
    case False
    then have "rd32 m (?A + 4) = 0" using blk by (simp add: hblk_def del: of_nat_add)
    then have "hb_free m (hb_prev m (of_nat B)) = 0" unfolding prev_eq unfolding hb_nat .
    then have "m' = m" by (simp add: m' coalesce_prev_def)
    then show ?thesis using seg False by simp
  qed
  then show "hseg m' e p pv (xs @ join (s0, f0) ((sz, True) # ys))"
    and "k < 2 ^ 32 \<Longrightarrow> k \<notin> hdrs p (xs @ (s0, f0) # (sz, True) # ys) \<Longrightarrow> m' (of_nat k) = m (of_nat k)" by blast+
qed

section \<open>Release refines the abstract heap\<close>

text \<open>The sequence after releasing the block between \<open>xs\<close> and \<open>ys\<close>.\<close>

definition released :: "blocks \<Rightarrow> nat \<Rightarrow> blocks \<Rightarrow> blocks" where
  "released xs sz ys =
     (if xs = [] then join (sz, True) ys else butlast xs @ join (last xs) (join (sz, True) ys))"

lemma join_cases: obtains "join b ys = b # ys" | l fr l' zs where "b = (l, True)" "ys = (l', True) # zs"
    "join b ys = (l + 16 + l', True) # zs"
  by (cases "(b, ys)" rule: join.cases) auto

lemma join_span [simp]: "span (join b ys) = span (b # ys)"
  by (cases "(b, ys)" rule: join.cases) auto

lemma join_hdrs: "hdrs p (join b ys) \<subseteq> hdrs p (b # ys)"
  by (cases "(b, ys)" rule: join.cases) (auto simp: add.assoc)

lemma join_live [simp]: "live p (join b ys) = live p (b # ys)"
  by (cases "(b, ys)" rule: join.cases) (auto simp: add.assoc)

lemma join_ne [simp]: "join b ys \<noteq> []"
  by (cases "(b, ys)" rule: join.cases) auto

lemma join_hd [simp]: "snd (hd (join b ys)) = snd b"
  by (cases "(b, ys)" rule: join.cases) auto

lemma join_True: "\<exists>l zs. join (sz, True) ys = (l, True) # zs"
  by (cases "((sz, True), ys)" rule: join.cases) auto

lemma no_adjacent_tl: "no_adjacent_free (x # xs) \<Longrightarrow> no_adjacent_free xs"
  by (cases x; cases xs) auto

lemma afree_released:
  "no_adjacent_free (xs @ (sz, False) # ys) \<Longrightarrow> afree (span xs + 16) (xs @ (sz, fr) # ys) = released xs sz ys"
proof (induction xs)
  case Nil
  then show ?case by (simp add: released_def)
next
  case (Cons x xs)
  obtain l f where x: "x = (l, f)" by (cases x)
  have IH: "afree (span xs + 16) (xs @ (sz, fr) # ys) = released xs sz ys"
    using Cons.prems by (intro Cons.IH) (auto dest: no_adjacent_tl)
  have 1: "afree (span (x # xs) + 16) ((x # xs) @ (sz, fr) # ys) = join x (released xs sz ys)"
    using IH by (simp add: x add.commute)
  show ?case
  proof (cases xs)
    case Nil
    then show ?thesis using 1 by (simp add: released_def)
  next
    case (Cons y zs)
    have "snd (hd (released xs sz ys)) = snd y" "released xs sz ys \<noteq> []"
      unfolding Cons released_def by (cases zs; simp)+
    moreover have "\<not> (f \<and> snd y)" using Cons.prems Cons by (cases y) (auto simp: x)
    ultimately have "join x (released xs sz ys) = x # released xs sz ys"
      by (cases "(x, released xs sz ys)" rule: join.cases) (auto simp: x)
    then show ?thesis using 1 Cons by (simp add: released_def)
  qed
qed

lemma released_live:
  "live p (released xs sz ys) = live p xs \<union> live (p + span xs + 16 + sz) ys"
proof (cases xs rule: rev_cases)
  case (snoc zs z)
  then show ?thesis by (cases z) (simp add: released_def add.assoc)
qed (simp add: released_def)

lemma released_span: "span (released xs sz ys) = span xs + 16 + sz + span ys"
  by (cases xs rule: rev_cases) (auto simp: released_def)

lemma released_ok:
  assumes "blocks_ok (xs @ (sz, False) # ys)" shows "blocks_ok (released xs sz ys)"
proof -
  have jd: "\<forall>(s, f) \<in> set (join b bs). 8 dvd s" if "\<forall>(s, f) \<in> set (b # bs). 8 dvd s" for b bs
    using that by (cases "(b, bs)" rule: join.cases) (auto simp: dvd_add)
  have na: "no_adjacent_free (join b bs)" if "no_adjacent_free bs" "\<And>c cs. bs = c # cs \<Longrightarrow> snd c \<Longrightarrow>
      cs = [] \<or> \<not> snd (hd cs)" for b bs
    using that by (cases "(b, bs)" rule: join.cases; cases bs; cases "tl bs") (auto dest: no_adjacent_tl)
  have ys: "no_adjacent_free ys" "\<And>c cs. ys = c # cs \<Longrightarrow> snd c \<Longrightarrow> cs = [] \<or> \<not> snd (hd cs)"
  proof -
    show "no_adjacent_free ys" using assms no_adjacent_tl by (auto simp: blocks_ok_def no_adjacent_append)
    then show "cs = [] \<or> \<not> snd (hd cs)" if "ys = c # cs" "snd c" for c cs
      using that by (cases c; cases cs) auto
  qed
  let ?J = "join (sz, True) ys"
  have J: "no_adjacent_free ?J" by (rule na [OF ys])
  have Jd: "\<forall>(s, f) \<in> set ?J. 8 dvd s" using assms by (intro jd) (auto simp: blocks_ok_def)
  have Jtl: "cs = [] \<or> \<not> snd (hd cs)" if "?J = c # cs" for c cs
    using J that join_hd [of "(sz, True)" ys] by (cases c; cases cs) auto
  show ?thesis
  proof (cases xs rule: rev_cases)
    case Nil
    then show ?thesis using J Jd by (simp add: released_def blocks_ok_def)
  next
    case (snoc zs z)
    have "no_adjacent_free (join z ?J)" using Jtl by (intro na [OF J])
    moreover have "\<forall>(s, f) \<in> set (join z ?J). 8 dvd s"
      using Jd assms by (intro jd) (auto simp: blocks_ok_def snoc)
    moreover have "no_adjacent_free zs" "zs \<noteq> [] \<Longrightarrow> \<not> (snd (last zs) \<and> snd z)"
      using assms by (auto simp: blocks_ok_def snoc no_adjacent_append)
    ultimately show ?thesis
      using assms by (auto simp: released_def blocks_ok_def snoc no_adjacent_append)
  qed
qed

lemma free_hseg:
  assumes seg: "hseg m e p 0 (xs @ (sz, False) # ys)" and e: "p + span (xs @ (sz, False) # ys) = e" "e \<le> 2 ^ 32"
    and p: "0 < p" and B: "B = p + span xs"
    and m': "m' = coalesce_block (of_nat B) (set_hb_free (of_nat B) 1 m)"
  shows "hseg m' e p 0 (released xs sz ys)"
    and "k < 2 ^ 32 \<Longrightarrow> k \<notin> hdrs p (xs @ (sz, False) # ys) \<Longrightarrow> m' (of_nat k) = m (of_nat k)"
proof -
  define m1 where "m1 = wr32 m (B + 4) 1"
  have B32: "B + 16 \<le> 2 ^ 32" using e by (simp add: B)
  have b1: "m1 (of_nat k) = m (of_nat k)" if "k < 2 ^ 32" "k \<notin> {B + 4..<B + 8}" for k
    unfolding m1_def using that B32 by (intro wr32_byte_other) auto
  have s1: "hseg m1 e p 0 (xs @ (sz, True) # ys)"
  proof -
    have "hseg m1 e p 0 xs" by (rule hseg_keep [of m]) (use seg e in \<open>auto simp: B intro!: b1\<close>)
    moreover have "hseg m1 e (B + 16 + sz) B ys"
      by (rule hseg_keep [of m]) (use seg e in \<open>auto simp: B intro!: b1\<close>)
    moreover have "hblk m1 B sz True (nxt e (B + 16 + sz)) (lastp p 0 xs)"
      using seg B32 unfolding m1_def by (simp add: B [symmetric] hblk_def rd32_wr32_other del: of_nat_add)
    ultimately show ?thesis by (simp add: B)
  qed
  define m2 where "m2 = coalesce_next (of_nat B) m1"
  have e1: "p + span (xs @ (sz, True) # ys) = e" using e by simp
  note c1 = coalesce_next_hseg [OF s1 e1 e(2) B m2_def]
  have m'_eq: "m' = coalesce_prev (of_nat B) m2"
    unfolding m' coalesce_block_def m2_def m1_def hb_nat ..
  obtain l zs where J: "join (sz, True) ys = (l, True) # zs" using join_True by blast
  have "hseg m' e p 0 (released xs sz ys) \<and> (k < 2 ^ 32 \<longrightarrow> k \<notin> hdrs p (xs @ join (sz, True) ys) \<longrightarrow>
      m' (of_nat k) = m2 (of_nat k))"
  proof (cases xs rule: rev_cases)
    case Nil
    then have "hblk m2 B l True (nxt e (B + 16 + l)) 0" using c1(1) J by (simp add: B)
    then have "hb_prev m2 (of_nat B) = 0" unfolding hb_nat hblk_def by simp
    then have "m' = m2" by (simp add: m'_eq coalesce_prev_def)
    then show ?thesis using c1(1) Nil by (simp add: released_def)
  next
    case (snoc us u)
    obtain s0 f0 where u: "u = (s0, f0)" by (cases u)
    have sp: "p + span (us @ (s0, f0) # (l, True) # zs) = e"
      using e1 arg_cong [OF J, of span] by (simp add: snoc u)
    have "hseg m2 e p 0 (us @ (s0, f0) # (l, True) # zs)" using c1(1) by (simp add: snoc u J)
    from coalesce_prev_hseg [OF this sp e(2) p _ m'_eq] show ?thesis
      by (simp add: B snoc u J released_def add.assoc)
  qed
  moreover have "k \<notin> hdrs p (xs @ (sz, False) # ys) \<Longrightarrow> k \<notin> hdrs p (xs @ join (sz, True) ys) \<and>
      k \<notin> hdrs p (xs @ (sz, True) # ys) \<and> k \<notin> {B + 4..<B + 8}"
    using join_hdrs [of "p + span xs" "(sz, True)" ys] by (auto simp: B)
  ultimately show "hseg m' e p 0 (released xs sz ys)"
    and "k < 2 ^ 32 \<Longrightarrow> k \<notin> hdrs p (xs @ (sz, False) # ys) \<Longrightarrow> m' (of_nat k) = m (of_nat k)"
    using c1(2) [of k] b1 [of k] by auto
qed

lemma live_split:
  "(a, sz) \<in> live p bs \<Longrightarrow> \<exists>xs ys. bs = xs @ (sz, False) # ys \<and> a = p + span xs + 16"
proof (induction bs arbitrary: p)
  case (Cons b bs)
  obtain l f where b: "b = (l, f)" by (cases b)
  show ?case
  proof (cases "(a, sz) \<in> live (p + 16 + l) bs")
    case True
    from Cons.IH [OF this] obtain xs ys where "bs = xs @ (sz, False) # ys" "a = p + 16 + l + span xs + 16" by blast
    then have "b # bs = (b # xs) @ (sz, False) # ys \<and> a = p + span (b # xs) + 16" by (simp add: b)
    then show ?thesis by blast
  next
    case False
    then have "\<not> f" "a = p + 16" "sz = l" using Cons.prems by (auto simp: b split: if_splits)
    then have "b # bs = [] @ (sz, False) # bs \<and> a = p + span [] + 16" by (simp add: b)
    then show ?thesis by blast
  qed
qed simp

lemma live_released:
  assumes "bs = xs @ (sz, False) # ys" "a = p + span xs + 16"
  shows "live p (released xs sz ys) = live p bs - {(a, sz)}"
proof -
  have "(a, sz) \<notin> live p xs" using live_range [of a sz p xs] assms(2) by auto
  moreover have "(a, sz) \<notin> live (p + span xs + 16 + sz) ys"
    using live_range [of a sz "p + span xs + 16 + sz" ys] assms(2) by auto
  ultimately show ?thesis by (auto simp: released_live assms)
qed

lemma kfree_live:
  assumes ok: "heap_ok s" and a: "(a, sz) \<in> heap_live s" and s': "s' = kfree (of_nat a) s"
  shows "heap_ok s'" "blocks_of s' = afree (a - unat (heap_start s)) (blocks_of s)"
    "heap_live s' = heap_live s - {(a, sz)}" "\<exists>m. s' = s\<lparr>mem := m\<rparr>"
    "k \<in> kept s \<Longrightarrow> mem s' (of_nat k) = mem s (of_nat k)"
proof -
  note h = heap_okD [OF ok]
  let ?p = "unat (heap_start s)"
  from live_split a obtain xs ys where x: "blocks_of s = xs @ (sz, False) # ys" "a = ?p + span xs + 16"
    unfolding heap_live_def by blast
  let ?B = "?p + span xs"
  have fin: "?p + span (xs @ (sz, False) # ys) = heap_end s" using h(6) by (simp add: x(1) heap_end_def)
  have blk: "of_nat a - HEAP_BLOCK_HEADER_SIZE = (of_nat ?B :: u32)" by (simp add: x(2))
  have nz: "(of_nat a :: u32) \<noteq> 0"
  proof -
    have "a < 2 ^ 32" using fin h(8) by (simp add: x(2))
    then show ?thesis using of_nat_nonzero [of a] x(2) by simp
  qed
  define m' where "m' = coalesce_block (of_nat ?B) (set_hb_free (of_nat ?B) 1 (mem s))"
  have s'_eq: "s' = s\<lparr>mem := m'\<rparr>" unfolding s' kfree_def Let_def m'_def blk using nz by simp
  note f = free_hseg [OF h(5) [unfolded x(1)] fin h(4,2) refl m'_def]
  have "afree (a - ?p) (blocks_of s) = released xs sz ys"
    using afree_released [of xs sz ys False] h(7) by (simp add: x blocks_ok_def)
  moreover have "heap_ok s'" "blocks_of s' = released xs sz ys"
    using heap_okI [of s' "released xs sz ys"] h f(1) released_ok [OF h(7) [unfolded x(1)]] released_span [of xs sz ys]
    by (simp_all add: s'_eq heap_end_def x(1))
  ultimately show "heap_ok s'" "blocks_of s' = afree (a - ?p) (blocks_of s)"
    "heap_live s' = heap_live s - {(a, sz)}"
    using live_released [OF x] by (simp_all add: heap_live_def s'_eq)
  show "\<exists>m. s' = s\<lparr>mem := m\<rparr>" using s'_eq by blast
  assume k: "k \<in> kept s"
  have r: "hdrs ?p (blocks_of s) \<subseteq> {?p..<heap_end s}" using hdrs_range [of ?p "blocks_of s"] h(6)
    by (simp add: heap_end_def)
  have "k < 2 ^ 32"
    using k payload_range [of ?p "blocks_of s"] h(4,6) by (auto simp: kept_def heap_live_def heap_end_def)
  moreover have "k \<notin> hdrs ?p (blocks_of s)"
    using k r payload_hdrs [of ?p "blocks_of s"] by (auto simp: kept_def heap_live_def)
  ultimately show "mem s' (of_nat k) = mem s (of_nat k)" using f(2) [of k] by (simp add: s'_eq x(1))
qed

lemma kmalloc_cases:
  assumes ok: "heap_ok s" and km: "kmalloc n s = Some (a, s')"
  obtains (fail) "a = 0" "heap_ok s'" "blocks_of s' = blocks_of s" "heap_live s' = heap_live s" "mem s' = mem s"
    | (block) sz where "a \<noteq> 0" "n \<noteq> 0" "heap_ok s'" "unat (round8 n) \<le> sz" "(unat a, sz) \<notin> heap_live s"
        "heap_live s' = insert (unat a, sz) (heap_live s)" "{unat a..<unat a + sz} \<inter> payload (heap_live s) = {}"
        "8 dvd unat a" "unat (heap_start s) + 16 \<le> unat a" "unat a + sz \<le> heap_end s"
        "\<exists>m. s' = s\<lparr>mem := m\<rparr>" "\<forall>k \<in> kept s. mem s' (of_nat k) = mem s (of_nat k)"
        "afree (unat a - unat (heap_start s)) (blocks_of s') = blocks_of s"
proof (cases "n = 0")
  case True
  then show thesis using km ok fail by (simp add: kmalloc_def)
next
  case n0: False
  note h = heap_okD [OF ok]
  let ?p = "unat (heap_start s)"
  show thesis
  proof (cases "amalloc (unat (round8 n)) (blocks_of s)")
    case None
    from kmalloc_none [OF ok n0 None] km
    have s': "s' = kprintf (litln ''[HEAP] ERROR: Out of kernel heap memory (requested %u)'') [VInt (round8 n)] s"
      and "a = 0" by auto
    moreover note heap_ok_mem_only [OF ok, of s']
    ultimately show thesis using fail by (simp add: heap_live_def)
  next
    case (Some r)
    obtain ofs bs' where r: "r = (ofs, bs')" by (cases r)
    note am = Some [unfolded r]
    from kmalloc_some [OF ok n0 am] obtain t where t: "kmalloc n s = Some (of_nat (?p + ofs), t)" "heap_ok t"
      "blocks_of t = bs'" "t = s\<lparr>mem := mem t\<rparr>" "\<forall>k \<in> kept s. mem t (of_nat k) = mem s (of_nat k)" by metis
    have a: "a = of_nat (?p + ofs)" "s' = t" using t(1) km by auto
    from amalloc_live(2) [OF am, of ?p] obtain sz where sz: "unat (round8 n) \<le> sz"
      "live ?p bs' = insert (?p + ofs, sz) (live ?p (blocks_of s))"
      "{?p + ofs..<?p + ofs + sz} \<inter> payload (live ?p (blocks_of s)) = {}" "16 \<le> ofs" "ofs + sz \<le> span (blocks_of s)"
      by blast
    have top: "?p + ofs + sz \<le> heap_end s" using sz(5) h(6) by (simp add: heap_end_def)
    have ua: "unat a = ?p + ofs" unfolding a(1) using top h(8) by (intro unat_of_nat32) linarith
    then have anz: "a \<noteq> 0" using h(2) by auto
    have st: "heap_start t = heap_start s" by (subst t(4)) simp
    from amalloc_Some [OF am] obtain xs l ys where x: "blocks_of s = xs @ (l, True) # ys" "unat (round8 n) \<le> l"
      "ofs = span xs + 16" "bs' = xs @ carve (unat (round8 n)) l @ ys" by blast
    have "8 dvd span zs" if "\<forall>(s, f) \<in> set zs. 8 dvd s" for zs using that by (induction zs) auto
    then have "8 dvd span xs" using h(7) by (auto simp: blocks_ok_def x(1))
    then have al: "8 dvd unat a" unfolding ua x(3) using h(3) by auto
    have new: "(unat a, sz) \<notin> heap_live s"
    proof
      assume "(unat a, sz) \<in> heap_live s"
      then have "(unat a, sz) \<in> live ?p xs \<or> (unat a, sz) \<in> live (?p + span xs + 16 + l) ys"
        by (auto simp: heap_live_def x(1))
      then show False
        using live_range [of "unat a" sz ?p xs] live_range [of "unat a" sz "?p + span xs + 16 + l" ys] ua x(3)
        by auto
    qed
    have "afree (unat a - ?p) (blocks_of s') = blocks_of s"
    proof -
      let ?n = "unat (round8 n)"
      have na: "no_adjacent_free (blocks_of s)" "no_adjacent_free bs'"
        using h(7) heap_okD(7) [OF t(2)] t(3) by (auto simp: blocks_ok_def)
      have hd_ys: "ys \<noteq> [] \<Longrightarrow> \<not> snd (hd ys)" using na(1) unfolding x(1) no_adjacent_append
        by (cases ys; cases "hd ys") auto
      then have j: "join (c, True) ys = (c, True) # ys" for c
        by (cases "((c, True), ys)" rule: join.cases) auto
      have xl: "xs \<noteq> [] \<Longrightarrow> \<not> snd (last xs)" using na(1) unfolding x(1) no_adjacent_append by auto
      then have jl: "xs \<noteq> [] \<Longrightarrow> join (last xs) zs = last xs # zs" for zs
        by (cases "(last xs, zs)" rule: join.cases) auto
      have "released xs l ys = blocks_of s" "?n + 32 \<le> l \<Longrightarrow> released xs ?n ((l - ?n - 16, True) # ys) = blocks_of s"
        using j jl by (auto simp: released_def x(1))
      then show ?thesis
        using na(2) afree_released [of xs l ys False] afree_released [of xs ?n "(l - ?n - 16, True) # ys" False]
        by (simp add: ua a(2) t(3) x(3,4) carve_def split: if_splits)
    qed
    moreover have "\<exists>m. s' = s\<lparr>mem := m\<rparr>" using t(4) unfolding a(2) by blast
    ultimately show thesis
      using block [of sz] anz n0 sz ua al top new t(2,3,5) a(2) st by (simp add: heap_live_def)
  qed
qed

lemma kmalloc_total: "heap_ok s \<Longrightarrow> \<exists>a s'. kmalloc n s = Some (a, s')"
  using find_blocks [of s "round8 n"] by (auto simp: kmalloc_def)

section \<open>The interface of a heap\<close>

text \<open>
  What the process manager and the file system rely on: an allocation ends, and when it succeeds
  the new block is large enough and apart from every live block; live blocks keep their contents
  until they are released.
\<close>

locale heap_allocator =
  fixes alloc :: "u32 \<Rightarrow> 's \<Rightarrow> (u32 \<times> 's) option" and release :: "u32 \<Rightarrow> 's \<Rightarrow> 's"
    and blocks :: "'s \<Rightarrow> (nat \<times> nat) set" and byte :: "'s \<Rightarrow> nat \<Rightarrow> u8" and ok :: "'s \<Rightarrow> bool"
  assumes alloc_total: "ok s \<Longrightarrow> \<exists>a s'. alloc n s = Some (a, s')"
    and alloc_ok: "ok s \<Longrightarrow> alloc n s = Some (a, s') \<Longrightarrow> ok s'"
    and alloc_none: "ok s \<Longrightarrow> alloc n s = Some (0, s') \<Longrightarrow> blocks s' = blocks s"
    and alloc_some: "ok s \<Longrightarrow> alloc n s = Some (a, s') \<Longrightarrow> a \<noteq> 0 \<Longrightarrow> unat n \<le> 2 ^ 32 - 8 \<Longrightarrow>
      \<exists>sz \<ge> unat n. blocks s' = insert (unat a, sz) (blocks s) \<and> (unat a, sz) \<notin> blocks s \<and>
        {unat a..<unat a + sz} \<inter> payload (blocks s) = {}"
    and alloc_grow: "ok s \<Longrightarrow> alloc n s = Some (a, s') \<Longrightarrow> blocks s \<subseteq> blocks s'"
    and alloc_keeps: "ok s \<Longrightarrow> alloc n s = Some (a, s') \<Longrightarrow> k \<in> payload (blocks s) \<Longrightarrow> byte s' k = byte s k"
    and release_ok: "ok s \<Longrightarrow> (p, sz) \<in> blocks s \<Longrightarrow> ok (release (of_nat p) s)"
    and release_blocks: "ok s \<Longrightarrow> (p, sz) \<in> blocks s \<Longrightarrow> blocks (release (of_nat p) s) = blocks s - {(p, sz)}"
    and release_keeps: "ok s \<Longrightarrow> (p, sz) \<in> blocks s \<Longrightarrow> k \<in> payload (blocks s) \<Longrightarrow>
      byte (release (of_nat p) s) k = byte s k"
begin

inductive heap_run :: "nat \<times> nat \<Rightarrow> 's \<Rightarrow> 's \<Rightarrow> bool" for b where
  start: "heap_run b s s"
| alloc: "heap_run b s t \<Longrightarrow> alloc n t = Some (a, t') \<Longrightarrow> heap_run b s t'"
| release: "heap_run b s t \<Longrightarrow> (a, sz) \<in> blocks t \<Longrightarrow> (a, sz) \<noteq> b \<Longrightarrow> heap_run b s (release (of_nat a) t)"

lemma heap_run_keeps:
  "heap_run (a, sz) s t \<Longrightarrow> ok s \<Longrightarrow> (a, sz) \<in> blocks s \<Longrightarrow>
   ok t \<and> (a, sz) \<in> blocks t \<and> (\<forall>k \<in> {a..<a + sz}. byte t k = byte s k)"
proof (induction rule: heap_run.induct)
  case (alloc s t n c t')
  then have t: "ok t" "(a, sz) \<in> blocks t" "\<forall>k \<in> {a..<a + sz}. byte t k = byte s k" by blast+
  then have "\<forall>k \<in> {a..<a + sz}. k \<in> payload (blocks t)" by (auto simp: payload_def)
  then show ?case
    using t alloc_ok [OF t(1) alloc.hyps(2)] alloc_grow [OF t(1) alloc.hyps(2)] alloc_keeps [OF t(1) alloc.hyps(2)]
    by auto
next
  case (release s t c l)
  then have t: "ok t" "(a, sz) \<in> blocks t" "\<forall>k \<in> {a..<a + sz}. byte t k = byte s k" by blast+
  then have "\<forall>k \<in> {a..<a + sz}. k \<in> payload (blocks t)" by (auto simp: payload_def)
  then show ?case
    using t release.hyps(2,3) release_ok [OF t(1) release.hyps(2)] release_blocks [OF t(1) release.hyps(2)]
      release_keeps [OF t(1) release.hyps(2)] by auto
qed simp

end

definition heap_byte :: "'a kheap_scheme \<Rightarrow> nat \<Rightarrow> u8" where
  "heap_byte s k = mem s (of_nat k)"

lemma payload_kept: "k \<in> payload (heap_live s) \<Longrightarrow> k \<in> kept s"
  by (simp add: kept_def)

lemma kmalloc_laws:
  assumes "heap_ok s" "kmalloc n s = Some (a, s')"
  shows "heap_ok s'" "a = 0 \<Longrightarrow> heap_live s' = heap_live s" "heap_live s \<subseteq> heap_live s'"
    "k \<in> payload (heap_live s) \<Longrightarrow> heap_byte s' k = heap_byte s k"
    "a \<noteq> 0 \<Longrightarrow> unat n \<le> 2 ^ 32 - 8 \<Longrightarrow> \<exists>sz \<ge> unat n. heap_live s' = insert (unat a, sz) (heap_live s) \<and>
       (unat a, sz) \<notin> heap_live s \<and> {unat a..<unat a + sz} \<inter> payload (heap_live s) = {}"
proof -
  have "heap_ok s' \<and> (a = 0 \<longrightarrow> heap_live s' = heap_live s) \<and> heap_live s \<subseteq> heap_live s' \<and>
    (k \<in> payload (heap_live s) \<longrightarrow> heap_byte s' k = heap_byte s k) \<and>
    (a \<noteq> 0 \<longrightarrow> unat n \<le> 2 ^ 32 - 8 \<longrightarrow> (\<exists>sz \<ge> unat n. heap_live s' = insert (unat a, sz) (heap_live s) \<and>
       (unat a, sz) \<notin> heap_live s \<and> {unat a..<unat a + sz} \<inter> payload (heap_live s) = {}))"
    using assms
  proof (cases rule: kmalloc_cases)
    case fail
    then show ?thesis by (simp add: heap_byte_def)
  next
    case (block sz)
    have "unat n \<le> 2 ^ 32 - 8 \<Longrightarrow> unat n \<le> sz" using round8_ge block(4) by (blast intro: order_trans)
    moreover have "k \<in> payload (heap_live s) \<Longrightarrow> heap_byte s' k = heap_byte s k"
      unfolding heap_byte_def using block(12) payload_kept by blast
    ultimately show ?thesis using block(1,3,5,6,7) by blast
  qed
  then show "heap_ok s'" "a = 0 \<Longrightarrow> heap_live s' = heap_live s" "heap_live s \<subseteq> heap_live s'"
    "k \<in> payload (heap_live s) \<Longrightarrow> heap_byte s' k = heap_byte s k"
    "a \<noteq> 0 \<Longrightarrow> unat n \<le> 2 ^ 32 - 8 \<Longrightarrow> \<exists>sz \<ge> unat n. heap_live s' = insert (unat a, sz) (heap_live s) \<and>
       (unat a, sz) \<notin> heap_live s \<and> {unat a..<unat a + sz} \<inter> payload (heap_live s) = {}"
    by blast+
qed

lemma kfree_laws:
  assumes "heap_ok s" "(p, sz) \<in> heap_live s"
  shows "heap_ok (kfree (of_nat p) s)" "heap_live (kfree (of_nat p) s) = heap_live s - {(p, sz)}"
    "k \<in> payload (heap_live s) \<Longrightarrow> heap_byte (kfree (of_nat p) s) k = heap_byte s k"
  using kfree_live(1,3) [OF assms refl] kfree_live(5) [OF assms refl payload_kept]
  unfolding heap_byte_def by blast+

interpretation heap: heap_allocator kmalloc kfree heap_live heap_byte heap_ok
  by (rule heap_allocator.intro)
    (fact kmalloc_total kmalloc_laws kfree_laws | (erule kmalloc_laws(2), assumption, rule refl))+

lemmas heap_laws = heap.alloc_ok heap.alloc_none heap.alloc_grow heap.release_ok heap.release_blocks

section \<open>Initialisation\<close>

lemma first_block:
  "A + 16 \<le> 2 ^ 32 \<Longrightarrow>
   hblk (wr32 (wr32 (wr32 (wr32 m A 4194288) (A + 4) 1) (A + 8) 0) (A + 12) 0) A 4194288 True 0 0"
  unfolding hblk_def by (simp add: rd32_wr32_other del: of_nat_add)

lemma kheap_init_blocks:
  assumes "0 < unat a" "8 dvd unat a" "unat a + 4194304 < 2 ^ 32"
  shows "heap_ok (kheap_init a s)" "blocks_of (kheap_init a s) = [(4194288, True)]"
proof -
  let ?s = "kheap_init a s" and ?a = "unat a"
  have w: "(of_nat ?a :: u32) = a" by simp
  have m: "mem ?s = wr32 (wr32 (wr32 (wr32 (mem s) ?a 4194288) (?a + 4) 1) (?a + 8) 0) (?a + 12) 0"
    unfolding kheap_init_def Let_def
    by (simp add: set_hb_size_def set_hb_free_def set_hb_next_def set_hb_prev_def w)
  have st: "heap_start ?s = a" "heap_initialized ?s" by (simp_all add: kheap_init_def Let_def)
  have e: "heap_end ?s = ?a + 4194304" by (simp add: heap_end_def st)
  have "hblk (mem ?s) ?a 4194288 True 0 0"
    unfolding m using assms(3) by (intro first_block) simp
  then have "hseg (mem ?s) (heap_end ?s) (unat (heap_start ?s)) 0 [(4194288, True)]"
    by (simp add: e st nxt_def)
  from heap_okI [OF _ _ _ _ this] assms st e
  show "heap_ok ?s" "blocks_of ?s = [(4194288, True)]" by (simp_all add: blocks_ok_def)
qed

section \<open>Clients write only into their blocks\<close>

lemma heap_ok_write:
  assumes ok: "heap_ok s" and w: "\<And>k. k < 2 ^ 32 \<Longrightarrow> k \<notin> payload (heap_live s) \<Longrightarrow> m' (of_nat k) = mem s (of_nat k)"
  shows "heap_ok (s\<lparr>mem := m'\<rparr>)" "blocks_of (s\<lparr>mem := m'\<rparr>) = blocks_of s" "heap_live (s\<lparr>mem := m'\<rparr>) = heap_live s"
proof -
  note h = heap_okD [OF ok]
  let ?p = "unat (heap_start s)" and ?s = "s\<lparr>mem := m'\<rparr>"
  have "\<forall>k \<in> hdrs ?p (blocks_of s). m' (of_nat k) = mem s (of_nat k)"
  proof
    fix k assume k: "k \<in> hdrs ?p (blocks_of s)"
    then have "k \<in> {?p..<heap_end s}" using hdrs_range [of ?p "blocks_of s"] h(6) by (auto simp: heap_end_def)
    then have "k < 2 ^ 32" using h(8) by simp
    moreover have "k \<notin> payload (heap_live s)"
      using k payload_hdrs [of ?p "blocks_of s"] unfolding heap_live_def by blast
    ultimately show "m' (of_nat k) = mem s (of_nat k)" by (rule w)
  qed
  from hseg_agree [OF this] h(4-6) have "hseg m' (heap_end s) ?p 0 (blocks_of s)" by (simp add: heap_end_def)
  with heap_okI [of ?s "blocks_of s"] h show "heap_ok ?s" "blocks_of ?s = blocks_of s" by (simp_all add: heap_end_def)
  then show "heap_live ?s = heap_live s" by (simp add: heap_live_def)
qed

lemma live_size:
  assumes "heap_ok s" "(a, sz) \<in> heap_live s"
  shows "hb_size (mem s) (of_nat a - HEAP_BLOCK_HEADER_SIZE) = of_nat sz" "a + sz \<le> heap_end s" "16 \<le> a"
proof -
  note h = heap_okD [OF assms(1)]
  from live_split assms(2) obtain xs ys where x: "blocks_of s = xs @ (sz, False) # ys"
    "a = unat (heap_start s) + span xs + 16" unfolding heap_live_def by blast
  have "of_nat a - HEAP_BLOCK_HEADER_SIZE = (of_nat (unat (heap_start s) + span xs) :: u32)" by (simp add: x(2))
  then show "hb_size (mem s) (of_nat a - HEAP_BLOCK_HEADER_SIZE) = of_nat sz"
    using h(5) unfolding x(1) by (simp only: hb_nat hseg_append hseg.simps hblk_def)
  show "a + sz \<le> heap_end s" "16 \<le> a" using h(6) by (simp_all add: x heap_end_def)
qed

lemma memcpy_nat:
  assumes "a + l \<le> 2 ^ 32" "b + l \<le> 2 ^ 32" "{a..<a + l} \<inter> {b..<b + l} = {}" "0 < l" "k < 2 ^ 32"
  shows "memcpy m (of_nat b) (of_nat a) (of_nat l) (of_nat k) =
    (if b \<le> k \<and> k < b + l then m (of_nat (a + (k - b))) else m (of_nat k))"
proof -
  have u: "unat (of_nat a :: u32) = a" "unat (of_nat b :: u32) = b" "unat (of_nat k :: u32) = k"
    using assms by (auto intro!: unat_of_nat32)
  have ab: "a + l \<le> b \<or> b + l \<le> a" using assms(3,4) by (auto simp: disjoint_iff not_le)
  have l: "l < 2 ^ 32" using ab assms(1,2,4) by auto
  have ul: "unat (of_nat l :: u32) = l" by (rule unat_of_nat32 [OF l])
  have c1: "(of_nat l :: u32) \<le> of_nat b - of_nat a"
    unfolding word_le_nat_alt ul using ab assms(1,2,4) u by (auto simp: unat_sub_if')
  have c2: "of_nat k - of_nat b < (of_nat l :: u32) \<longleftrightarrow> b \<le> k \<and> k < b + l"
    unfolding word_less_nat_alt ul using assms(2,5) u by (auto simp: unat_sub_if')
  have c3: "b \<le> k \<Longrightarrow> of_nat a + (of_nat k - of_nat b) = (of_nat (a + (k - b)) :: u32)"
    by (simp add: of_nat_diff)
  show ?thesis
  proof (cases "b \<le> k \<and> k < b + l")
    case True
    then have "b \<le> k" by simp
    show ?thesis unfolding memcpy_apply [OF disjI1 [OF c1]] c2 c3 [OF \<open>b \<le> k\<close>] ..
  next
    case False
    then show ?thesis unfolding memcpy_apply [OF disjI1 [OF c1]] c2 by (simp only: if_False)
  qed
qed

section \<open>Properties\<close>

text \<open>
  \<^verbatim>\<open>kheap_init\<close> establishes the invariant of the heap, with one free block that fills the area and
  nothing allocated.
\<close>

theorem kheap_init_establishes:
  assumes "0 < unat heap_area" "unat heap_area mod 4096 = 0" "unat heap_area + 4194304 < 2 ^ 32"
  shows "let s' = kheap_init heap_area s in heap_ok s' \<and> blocks_of s' = [(4194288, True)] \<and> heap_live s' = {}"
proof -
  have "8 dvd unat heap_area" by (rule dvd_trans [of _ 4096]) (use assms(2) in \<open>simp_all add: dvd_eq_mod_eq_0\<close>)
  from kheap_init_blocks [OF assms(1) this assms(3), of s] show ?thesis
    unfolding Let_def heap_live_def by simp
qed

text \<open>The heap of the properties' examples: 4 MiB at \<open>0x200000\<close>, freshly initialised.\<close>

definition fresh_heap :: kheap where
  "fresh_heap = kheap_init 0x200000 boot_heap"

lemma fresh_ok: "heap_ok fresh_heap" "blocks_of fresh_heap = [(4194288, True)]" "heap_live fresh_heap = {}"
  using kheap_init_blocks [of "0x200000" boot_heap] by (simp_all add: fresh_heap_def heap_live_def)

lemma fresh_start: "heap_start fresh_heap = 0x200000"
  by (simp add: fresh_heap_def kheap_init_def Let_def)

theorem kheap_init_establishes_witness:
  "heap_ok (kheap_init 0x200000 boot_heap) \<and> heap_live (kheap_init 0x200000 boot_heap) = {}"
  using kheap_init_establishes [of "0x200000" boot_heap] unfolding Let_def by simp

text \<open>
  C9: \<^verbatim>\<open>kmalloc\<close> always returns, and it refines first fit on the sequence of blocks: the request rounded
  up to a multiple of 8 is served from the first free block that is large enough, which is split when
  the rest can hold a header and 16 bytes; when none is, it returns NULL and the heap is unchanged.
\<close>

theorem kmalloc_refines:
  assumes "heap_ok s" "n \<noteq> 0"
  shows "\<exists>a s'. kmalloc n s = Some (a, s') \<and> heap_ok s' \<and>
    (case amalloc (unat (round8 n)) (blocks_of s) of
       None \<Rightarrow> a = 0 \<and> blocks_of s' = blocks_of s \<and> mem s' = mem s
     | Some (ofs, bs') \<Rightarrow> a = heap_start s + of_nat ofs \<and> blocks_of s' = bs' \<and>
         (\<forall>k \<in> kept s. mem s' (of_nat k) = mem s (of_nat k)))"
proof (cases "amalloc (unat (round8 n)) (blocks_of s)")
  case None
  with kmalloc_none [OF assms None] assms(1) show ?thesis by simp
next
  case (Some r)
  obtain ofs bs' where r: "r = (ofs, bs')" by (cases r)
  from kmalloc_some [OF assms Some [unfolded r]] obtain s' where
    s': "kmalloc n s = Some (of_nat (unat (heap_start s) + ofs), s')" "heap_ok s'" "blocks_of s' = bs'"
    "\<forall>k \<in> kept s. mem s' (of_nat k) = mem s (of_nat k)" by metis
  then show ?thesis using Some r by simp
qed

theorem kmalloc_refines_witness:
  "\<exists>s'. kmalloc 100 fresh_heap = Some (0x200010, s') \<and> heap_ok s' \<and>
     blocks_of s' = [(104, False), (4194168, True)]"
proof -
  have "unat (round8 100) = 104" by (simp add: unat_round8)
  then show ?thesis
    using kmalloc_refines [of fresh_heap 100] fresh_ok(1) by (auto simp: fresh_ok(2) fresh_start carve_def)
qed

text \<open>
  A block handed out by \<^verbatim>\<open>kmalloc\<close> is usable: its address is a multiple of 8 inside the heap area, it
  is at least as large as requested (for requests that do not overflow the rounding), it overlaps no
  live block, and every live block keeps its contents; no other block becomes live or is lost.
\<close>

theorem kmalloc_fresh:
  assumes "heap_ok s" "kmalloc n s = Some (a, s')" "a \<noteq> 0" "unat n \<le> 2 ^ 32 - 8"
  shows "\<exists>sz. unat n \<le> sz \<and> heap_live s' = insert (unat a, sz) (heap_live s) \<and> (unat a, sz) \<notin> heap_live s \<and>
     {unat a..<unat a + sz} \<inter> payload (heap_live s) = {} \<and> unat a mod 8 = 0 \<and>
     unat (heap_start s) + 16 \<le> unat a \<and> unat a + sz \<le> heap_end s \<and>
     (\<forall>k \<in> payload (heap_live s). mem s' (of_nat k) = mem s (of_nat k))"
  using assms(1,2)
proof (cases rule: kmalloc_cases)
  case fail
  then show ?thesis using assms(3) by simp
next
  case (block sz)
  have "unat n \<le> sz" using round8_ge [OF assms(4)] block(4) by simp
  moreover have "\<forall>k \<in> payload (heap_live s). mem s' (of_nat k) = mem s (of_nat k)"
    using block(12) payload_kept by blast
  ultimately show ?thesis using block(5-10) by (auto simp: dvd_eq_mod_eq_0)
qed

lemma fresh_malloc_blocks: "\<exists>s'. kmalloc 100 fresh_heap = Some (0x200010, s') \<and> heap_ok s' \<and>
    heap_live s' = {(0x200010, 104)} \<and> blocks_of s' = [(104, False), (4194168, True)] \<and> heap_start s' = 0x200000"
proof -
  have "unat (round8 100) = 104" by (simp add: unat_round8)
  then have "amalloc (unat (round8 100)) (blocks_of fresh_heap) = Some (16, [(104, False), (4194168, True)])"
    by (simp add: fresh_ok(2) carve_def)
  from kmalloc_some [OF fresh_ok(1) _ this] obtain s' where s':
    "kmalloc 100 fresh_heap = Some (of_nat (unat (heap_start fresh_heap) + 16), s')" "heap_ok s'"
    "blocks_of s' = [(104, False), (4194168, True)]" "s' = fresh_heap\<lparr>mem := mem s'\<rparr>" by auto
  have st: "heap_start s' = 0x200000" by (subst s'(4)) (simp add: fresh_start)
  then have "heap_live s' = {(0x200010, 104)}" by (simp add: heap_live_def s'(3))
  then show ?thesis using s'(1-3) st by (simp add: fresh_start)
qed

lemma fresh_malloc: "\<exists>s'. kmalloc 100 fresh_heap = Some (0x200010, s') \<and> heap_ok s'"
  using fresh_malloc_blocks by blast

theorem kmalloc_fresh_witness:
  "\<exists>s' sz. kmalloc 100 fresh_heap = Some (0x200010, s') \<and> 100 \<le> sz \<and> heap_live s' = {(0x200010, sz)}"
proof -
  obtain s' where s': "kmalloc 100 fresh_heap = Some (0x200010, s')" using fresh_malloc by blast
  from kmalloc_fresh [OF fresh_ok(1) this] show ?thesis using s' by (auto simp: fresh_ok(3))
qed

text \<open>
  C10: Releasing a live block refines removal with coalescing on the sequence of blocks: the invariant
  is kept (in particular no two neighbours are free), exactly that block is no longer live, and all
  other live contents and all memory outside the heap are unchanged.
\<close>

theorem kfree_refines:
  assumes "heap_ok s" "(a, sz) \<in> heap_live s"
  shows "let s' = kfree (of_nat a) s in heap_ok s' \<and>
     blocks_of s' = afree (a - unat (heap_start s)) (blocks_of s) \<and> heap_live s' = heap_live s - {(a, sz)} \<and>
     (\<forall>k \<in> kept s. mem s' (of_nat k) = mem s (of_nat k))"
  using kfree_live [OF assms refl] unfolding Let_def by blast

theorem kfree_refines_witness:
  "\<exists>s' sz. kmalloc 100 fresh_heap = Some (0x200010, s') \<and> heap_live (kfree 0x200010 s') = {}"
proof -
  obtain s' where s': "kmalloc 100 fresh_heap = Some (0x200010, s')" "heap_ok s'" using fresh_malloc by blast
  from kmalloc_laws(5) [OF fresh_ok(1) s'(1)] obtain sz where sz: "heap_live s' = {(0x200010, sz)}"
    by (auto simp: fresh_ok(3))
  from kfree_refines [OF s'(2), of "0x200010" sz] show ?thesis using s'(1) sz by (auto simp: Let_def)
qed

text \<open>
  Allocating a block and releasing it again restores the heap to the same sequence of blocks, so
  repeated allocation and release never fragments it.
\<close>

theorem kmalloc_kfree_roundtrip:
  assumes "heap_ok s" "kmalloc n s = Some (a, s')" "a \<noteq> 0"
  shows "heap_ok (kfree a s') \<and> blocks_of (kfree a s') = blocks_of s"
  using assms(1,2)
proof (cases rule: kmalloc_cases)
  case fail
  then show ?thesis using assms(3) by simp
next
  case (block sz)
  have "heap_start s' = heap_start s" using block(11) by auto
  moreover have "(unat a, sz) \<in> heap_live s'" using block(6) by simp
  ultimately show ?thesis
    using kfree_live(1,2) [OF block(3), of "unat a" sz, OF _ refl] block(13) by simp
qed

theorem kmalloc_kfree_roundtrip_witness:
  "\<exists>s'. kmalloc 100 fresh_heap = Some (0x200010, s') \<and> blocks_of (kfree 0x200010 s') = [(4194288, True)]"
proof -
  obtain s' where s': "kmalloc 100 fresh_heap = Some (0x200010, s')" using fresh_malloc by blast
  from kmalloc_kfree_roundtrip [OF fresh_ok(1) this] show ?thesis using s' by (simp add: fresh_ok(2))
qed

text \<open>
  C11: Data integrity over any history: through any sequence of allocations and of releases of other
  live blocks, a live block stays live and none of its bytes changes.
\<close>

theorem heap_data_integrity:
  assumes "heap.heap_run (a, sz) s t" "heap_ok s" "(a, sz) \<in> heap_live s"
  shows "heap_ok t \<and> (a, sz) \<in> heap_live t \<and> (\<forall>k \<in> {a..<a + sz}. mem t (of_nat k) = mem s (of_nat k))"
  using heap.heap_run_keeps [OF assms] unfolding heap_byte_def .

theorem heap_data_integrity_witness:
  "\<exists>s sz t. kmalloc 100 fresh_heap = Some (0x200010, s) \<and> (0x200010, sz) \<in> heap_live s \<and>
     heap.heap_run (0x200010, sz) s t \<and> (0x200010, sz) \<in> heap_live t"
proof -
  obtain s where s: "kmalloc 100 fresh_heap = Some (0x200010, s)" "heap_ok s" using fresh_malloc by blast
  from kmalloc_laws(5) [OF fresh_ok(1) s(1)] obtain sz where sz: "(0x200010, sz) \<in> heap_live s"
    by (auto simp: fresh_ok(3))
  obtain a t where "kmalloc 50 s = Some (a, t)" using kmalloc_total [OF s(2)] by blast
  then have run: "heap.heap_run (0x200010, sz) s t" by (rule heap.heap_run.alloc [OF heap.heap_run.start])
  from heap_data_integrity [OF this s(2) sz] show ?thesis using s sz run by blast
qed

lemma krealloc_moves:
  assumes ok: "heap_ok s" and a: "(a, sz) \<in> heap_live s" and n: "sz < unat n" "unat n \<le> 2 ^ 32 - 8"
    and r: "krealloc (of_nat a) n s = Some (b, s')" "b \<noteq> 0"
  obtains l s1 where "kmalloc n s = Some (b, s1)" "unat n \<le> l" "heap_ok s'" "heap_live s' = insert (unat b, l) (heap_live s - {(a, sz)})"
    "\<And>i. i < sz \<Longrightarrow> mem s' (of_nat (unat b + i)) = mem s (of_nat (a + i))"
    "\<And>k. k \<in> payload (heap_live s) \<Longrightarrow> mem s' (of_nat k) = mem s (of_nat k)"
proof -
  note h = heap_okD [OF ok]
  note la = live_size [OF ok a]
  have sz32: "sz < 2 ^ 32" using n(1) less_trans [OF _ unat_lt32] by auto
  have a32: "a < 2 ^ 32" "0 < a" using la(2,3) h(8) by linarith+
  have nz: "(of_nat a :: u32) \<noteq> 0" using of_nat_nonzero a32 by blast
  have "unat (of_nat sz :: u32) = sz" by (rule unat_of_nat32 [OF sz32])
  then have small: "\<not> n \<le> hb_size (mem s) (of_nat a - HEAP_BLOCK_HEADER_SIZE)"
    using n(1) unfolding la(1) by (simp add: word_le_nat_alt)
  obtain c s1 where km: "kmalloc n s = Some (c, s1)" using kmalloc_total [OF ok] by blast
  have n0: "n \<noteq> 0" using n(1) by auto
  have c: "c = b" and s': "s' = kfree (of_nat a) (s1\<lparr>mem := memcpy (mem s1) b (of_nat a)
      (hb_size (mem s1) (of_nat a - HEAP_BLOCK_HEADER_SIZE))\<rparr>)"
    using r km nz small n0 by (auto simp: krealloc_def Let_def split: if_splits)
  have b0: "c \<noteq> 0" using r(2) c by simp
  from kmalloc_laws [OF ok km] b0 n(2) obtain l where l: "heap_ok s1" "unat n \<le> l"
    "heap_live s1 = insert (unat b, l) (heap_live s)" "(unat b, l) \<notin> heap_live s"
    "{unat b..<unat b + l} \<inter> payload (heap_live s) = {}"
    "\<And>k. k \<in> payload (heap_live s) \<Longrightarrow> mem s1 (of_nat k) = mem s (of_nat k)"
    unfolding c heap_byte_def by blast
  have a1: "(a, sz) \<in> heap_live s1" using a l(3) by blast
  note lb = live_size [OF l(1), of "unat b" l]
  have e1: "heap_end s1 < 2 ^ 32" by (rule heap_okD(8) [OF l(1)])
  define s2 where "s2 = s1\<lparr>mem := memcpy (mem s1) b (of_nat a) (of_nat sz)\<rparr>"
  have bl: "unat b + l \<le> 2 ^ 32" "sz \<le> l" using lb(2) l(2,3) e1 n(1) by auto
  have asz: "a + sz \<le> 2 ^ 32" using la(2) h(8) by linarith
  have pay: "{a..<a + sz} \<subseteq> payload (heap_live s)" using a by (auto simp: payload_def)
  have cp: "mem s2 (of_nat k) = (if unat b \<le> k \<and> k < unat b + sz then mem s1 (of_nat (a + (k - unat b))) else mem s1 (of_nat k))"
    if "k < 2 ^ 32" for k
  proof (cases "sz = 0")
    case True
    then show ?thesis by (auto simp: s2_def memcpy_def)
  next
    case False
    have "{a..<a + sz} \<inter> {unat b..<unat b + sz} = {}" using l(5) pay bl(2) by fastforce
    from memcpy_nat [OF asz _ this _ that, of "mem s1"] False bl show ?thesis by (simp add: s2_def)
  qed
  have w: "heap_ok s2" "heap_live s2 = heap_live s1"
    unfolding s2_def
  proof (rule heap_ok_write [OF l(1)], goal_cases)
    case (1 k)
    then show ?case using cp [OF 1(1)] bl(2) unfolding s2_def l(3) by (auto simp: payload_def)
  next
    case 2
    show ?case
    proof (rule heap_ok_write(3) [OF l(1)])
      fix k :: nat assume "k < 2 ^ 32" "k \<notin> payload (heap_live s1)"
      then show "memcpy (mem s1) b (of_nat a) (of_nat sz) (of_nat k) = mem s1 (of_nat k)"
        using cp [of k] bl(2) unfolding s2_def l(3) by (auto simp: payload_def)
    qed
  qed
  have s'2: "s' = kfree (of_nat a) s2" unfolding s' live_size(1) [OF l(1) a1] s2_def ..
  have a2: "(a, sz) \<in> heap_live s2" using a1 w(2) by simp
  note kf = kfree_live [OF w(1) a2 s'2]
  have keep2: "mem s' (of_nat k) = mem s2 (of_nat k)" if "k \<in> payload (heap_live s1)" for k
    using kf(5) [of k] that w(2) payload_kept by metis
  show thesis
  proof (rule that)
    show "kmalloc n s = Some (b, s1)" using km c by simp
    show "unat n \<le> l" by (fact l(2))
    show "heap_ok s'" by (fact kf(1))
    show "heap_live s' = insert (unat b, l) (heap_live s - {(a, sz)})" using kf(3) w(2) l(3,4) a by auto
    fix i assume i: "i < sz"
    have "unat b + i \<in> payload (heap_live s1)" using i bl(2) l(3) by (auto simp: payload_def)
    moreover have "unat b + i < 2 ^ 32" using i bl by linarith
    moreover have "a + i \<in> payload (heap_live s)" using pay i by auto
    ultimately show "mem s' (of_nat (unat b + i)) = mem s (of_nat (a + i))"
      using keep2 [of "unat b + i"] cp [of "unat b + i"] l(6) [of "a + i"] i by (simp del: of_nat_add)
  next
    fix k assume k: "k \<in> payload (heap_live s)"
    then have k1: "k \<in> payload (heap_live s1)" using l(3) by (auto simp: payload_def)
    have "k < 2 ^ 32" using k payload_range [of "unat (heap_start s)" "blocks_of s"] h(6,8)
      by (auto simp: heap_live_def heap_end_def)
    moreover have "\<not> (unat b \<le> k \<and> k < unat b + sz)" using k l(5) bl(2) by fastforce
    ultimately show "mem s' (of_nat k) = mem s (of_nat k)"
      using keep2 [OF k1] cp [of k] l(6) [OF k] by auto
  qed
qed

text \<open>
  C12: Growing a block with \<^verbatim>\<open>krealloc\<close> moves it: when it succeeds the old block is no longer live, the
  new one is at least as large as requested and starts with the old contents, and every other live
  block keeps its contents.
\<close>

theorem krealloc_grows:
  assumes "heap_ok s" "(a, sz) \<in> heap_live s" "sz < unat n" "unat n \<le> 2 ^ 32 - 8"
    and "krealloc (of_nat a) n s = Some (b, s')" "b \<noteq> 0"
  shows "heap_ok s' \<and> (\<exists>l. unat n \<le> l \<and> heap_live s' = insert (unat b, l) (heap_live s - {(a, sz)})) \<and>
     (\<forall>i < sz. mem s' (of_nat (unat b + i)) = mem s (of_nat (a + i))) \<and>
     (\<forall>k \<in> payload (heap_live s - {(a, sz)}). mem s' (of_nat k) = mem s (of_nat k))"
proof -
  from krealloc_moves [OF assms] obtain l where l: "unat n \<le> l" "heap_ok s'"
    "heap_live s' = insert (unat b, l) (heap_live s - {(a, sz)})"
    "\<And>i. i < sz \<Longrightarrow> mem s' (of_nat (unat b + i)) = mem s (of_nat (a + i))"
    "\<And>k. k \<in> payload (heap_live s) \<Longrightarrow> mem s' (of_nat k) = mem s (of_nat k)" by metis
  moreover have "payload (heap_live s - {(a, sz)}) \<subseteq> payload (heap_live s)" by (auto simp: payload_def)
  ultimately show ?thesis by blast
qed

text \<open>
  Requests above \<open>0xFFFFFFF8\<close> overflow when \<^verbatim>\<open>kmalloc\<close> rounds them up, and the rounded size is 0: the
  first free block of the heap serves them, whatever its size, where the caller expects NULL.
\<close>

theorem kmalloc_overflow_succeeds:
  assumes "heap_ok s" "0xFFFFFFF8 < n" "(l, True) \<in> set (blocks_of s)"
  shows "round8 n = 0 \<and> (\<exists>a s'. kmalloc n s = Some (a, s') \<and> a \<noteq> 0)"
proof -
  have n: "4294967288 < unat n" using assms(2) by (simp add: word_less_nat_alt)
  have "unat (n + 7) = (unat n + 7) mod 4294967296" by (simp add: unat_word_ariths)
  also have "\<dots> = (unat n + 7 - 4294967296) mod 4294967296" using n by (intro le_mod_geq) simp
  also have "\<dots> \<le> unat n + 7 - 4294967296" by (rule mod_less_eq_dividend)
  also have "\<dots> < 8" using less_imp_le [OF unat_lt32 [of n]] by arith
  finally have "unat (n + 7) div 8 = 0" by simp
  then have r: "round8 n = 0" using unat_round8 [of n] by (simp add: unsigned_eq_0_iff)
  have "amalloc (unat (round8 n)) (blocks_of s) \<noteq> None" using assms(3) unfolding amalloc_None r by auto
  then obtain ofs bs' where am: "amalloc (unat (round8 n)) (blocks_of s) = Some (ofs, bs')" by auto
  have n0: "n \<noteq> 0" using n by auto
  from kmalloc_some [OF assms(1) n0 am] obtain s' where
    s': "kmalloc n s = Some (of_nat (unat (heap_start s) + ofs), s')" by metis
  show ?thesis using assms(1) s'
  proof (cases rule: kmalloc_cases)
    case fail
    note h = heap_okD [OF assms(1)]
    have "unat (heap_start s) + ofs \<le> heap_end s"
      using amalloc_live(2) [OF am, of 0] h(6) by (auto simp: heap_end_def)
    then have "(of_nat (unat (heap_start s) + ofs) :: u32) \<noteq> 0"
      using h(2,8) by (intro iffD2 [OF of_nat_nonzero]) linarith+
    then show ?thesis using fail by blast
  qed (use r s' in auto)
qed

theorem kmalloc_overflow_succeeds_witness: "\<exists>a s'. kmalloc 0xFFFFFFFF fresh_heap = Some (a, s') \<and> a \<noteq> 0"
  using kmalloc_overflow_succeeds [OF fresh_ok(1), of "0xFFFFFFFF" 4194288] by (simp add: fresh_ok(2))

theorem krealloc_grows_witness:
  "\<exists>(s :: kheap) sz b s'. (0x200010, sz) \<in> heap_live s \<and> krealloc 0x200010 500 s = Some (b, s') \<and> heap_ok s'"
proof -
  obtain s where s: "kmalloc 100 fresh_heap = Some (0x200010, s)" "heap_ok s" "heap_live s = {(0x200010, 104)}"
    "blocks_of s = [(104, False), (4194168, True)]" and st: "heap_start s = 0x200000"
    using fresh_malloc_blocks by blast
  have km: "\<exists>b t. kmalloc 500 s = Some (b, t) \<and> b \<noteq> 0"
  proof -
    have "unat (round8 500) = 504" by (simp add: unat_round8)
    then have "amalloc (unat (round8 500)) (blocks_of s) \<noteq> None" by (simp add: s(4))
    then obtain ofs bs' where am: "amalloc (unat (round8 500)) (blocks_of s) = Some (ofs, bs')" by auto
    have "ofs = 136" using am s(4) \<open>unat (round8 500) = 504\<close> by (auto simp: carve_def)
    moreover obtain t where "kmalloc 500 s = Some (of_nat (unat (heap_start s) + ofs), t)"
      using kmalloc_some [OF s(2) _ am] by auto
    ultimately show ?thesis by (simp add: st)
  qed
  then obtain b t where "kmalloc 500 s = Some (b, t)" "b \<noteq> 0" by blast
  then obtain s' where kr: "krealloc (of_nat 0x200010) 500 s = Some (b, s')"
    using live_size(1) [OF s(2), of "0x200010" 104] s(3) by (auto simp: krealloc_def Let_def)
  from krealloc_grows [OF s(2) _ _ _ kr \<open>b \<noteq> 0\<close>, of 104] have "heap_ok s'" by (simp add: s(3))
  moreover have "(0x200010, 104) \<in> heap_live s" "krealloc 0x200010 500 s = Some (b, s')"
    using s(3) kr by simp_all
  ultimately show ?thesis by blast
qed

end
