(* ===== verification/Process.thy ===== *)
theory Process
  imports KHeap
begin

text \<open>
  Processes, \<^verbatim>\<open>kernel/process/process.c\<close>. A \<^verbatim>\<open>process_t\<close> is allocated with \<^verbatim>\<open>kmalloc\<close>; its
  fields are kept in a heap of process records indexed by the address \<^verbatim>\<open>kmalloc\<close> returned,
  beside the byte memory, so that an assignment to a field of one process is an update at one
  address. A name is the string of the characters before the terminating zero.
\<close>

section \<open>State\<close>

datatype process_state_t = PROCESS_CREATED | PROCESS_READY | PROCESS_RUNNING | PROCESS_BLOCKED | PROCESS_TERMINATED

record cpu_context_t =
  ctx_eax :: u32
  ctx_ebx :: u32
  ctx_ecx :: u32
  ctx_edx :: u32
  ctx_esi :: u32
  ctx_edi :: u32
  ctx_ebp :: u32
  ctx_esp :: u32
  ctx_eip :: u32
  ctx_eflags :: u32
  ctx_cs :: u32
  ctx_ds :: u32
  ctx_es :: u32
  ctx_fs :: u32
  ctx_gs :: u32
  ctx_ss :: u32
  ctx_cr3 :: u32

record process_t =
  p_pid :: int
  p_parent_pid :: int
  p_name :: "u8 list"
  p_state :: process_state_t
  p_priority :: u32
  p_exit_code :: u32
  p_context :: cpu_context_t
  p_page_directory :: u32
  p_kernel_stack :: u32
  p_user_stack :: u32
  p_next :: u32

abbreviation (input) sizeof_process :: u32 where
  "sizeof_process \<equiv> 168"

abbreviation (input) KERNEL_STACK_SIZE :: u32 where
  "KERNEL_STACK_SIZE \<equiv> 8192"

definition zero_context :: cpu_context_t where
  "zero_context = \<lparr>ctx_eax = 0, ctx_ebx = 0, ctx_ecx = 0, ctx_edx = 0, ctx_esi = 0, ctx_edi = 0,
     ctx_ebp = 0, ctx_esp = 0, ctx_eip = 0, ctx_eflags = 0, ctx_cs = 0, ctx_ds = 0, ctx_es = 0,
     ctx_fs = 0, ctx_gs = 0, ctx_ss = 0, ctx_cr3 = 0\<rparr>"

definition zero_process :: process_t where
  "zero_process = \<lparr>p_pid = 0, p_parent_pid = 0, p_name = [], p_state = PROCESS_CREATED, p_priority = 0,
     p_exit_code = 0, p_context = zero_context, p_page_directory = 0, p_kernel_stack = 0,
     p_user_stack = 0, p_next = 0\<rparr>"

record kproc = kheap +
  procs :: "u32 \<Rightarrow> process_t"
  process_table :: "nat \<Rightarrow> u32"
  current_process :: u32
  next_pid :: nat

definition boot_proc :: kproc where
  "boot_proc = kheap.extend boot_heap (kproc.fields (\<lambda>_. zero_process) (\<lambda>_. 0) 0 1)"

abbreviation (input) MAX_PROCESSES :: nat where
  "MAX_PROCESSES \<equiv> 256"

definition upd_proc :: "u32 \<Rightarrow> (process_t \<Rightarrow> process_t) \<Rightarrow> 'a kproc_scheme \<Rightarrow> 'a kproc_scheme" where
  "upd_proc p f s = s\<lparr>procs := (procs s)(p := f (procs s p))\<rparr>"

section \<open>Operations\<close>

definition process_get_next_pid :: "'a kproc_scheme \<Rightarrow> int \<times> 'a kproc_scheme" where
  "process_get_next_pid s =
     (case find (\<lambda>i. process_table s i = 0) [next_pid s..<MAX_PROCESSES] of
        Some i \<Rightarrow> (int i, s\<lparr>next_pid := i + 1\<rparr>)
      | None \<Rightarrow>
          (case find (\<lambda>i. process_table s i = 0) [1..<next_pid s] of
             Some i \<Rightarrow> (int i, s\<lparr>next_pid := i + 1\<rparr>)
           | None \<Rightarrow> (- 1, s)))"

text \<open>The context of a new kernel thread.\<close>

definition entry_context :: "u32 \<Rightarrow> u32 \<Rightarrow> u32 \<Rightarrow> cpu_context_t" where
  "entry_context entry kernel_stack cr3' =
     zero_context\<lparr>ctx_eip := entry, ctx_cs := KERNEL_CS, ctx_ds := KERNEL_DS, ctx_es := KERNEL_DS,
       ctx_fs := KERNEL_DS, ctx_gs := KERNEL_DS, ctx_ss := KERNEL_DS, ctx_esp := kernel_stack,
       ctx_ebp := kernel_stack, ctx_eflags := 0x202, ctx_cr3 := cr3'\<rparr>"

definition process_create ::
  "u8 list \<Rightarrow> u32 \<Rightarrow> u32 \<Rightarrow> 'a kproc_scheme \<Rightarrow> (u32 \<times> 'a kproc_scheme) option" where
  "process_create name entry priority s =
     (let (pid, s1) = process_get_next_pid s
      in if pid < 0 then Some (0, s1)
         else do {
           (proc, s2) \<leftarrow> kmalloc sizeof_process s1;
           if proc = 0 then Some (0, s2)
           else
             (let s3 = upd_proc proc (\<lambda>_. zero_process\<lparr>p_pid := pid,
                         p_parent_pid := (if current_process s2 \<noteq> 0 then p_pid (procs s2 (current_process s2)) else 0),
                         p_name := take 63 name, p_state := PROCESS_CREATED, p_priority := priority,
                         p_next := 0\<rparr>) s2;
                  (dir, s4) = vmm_create_address_space s3;
                  s5 = upd_proc proc (\<lambda>q. q\<lparr>p_page_directory := dir\<rparr>) s4
              in if dir = 0 then Some (0, kfree proc s5)
                 else do {
                   (kstack, s6) \<leftarrow> kmalloc KERNEL_STACK_SIZE s5;
                   if kstack = 0
                   then Some (0, kfree proc (vmm_destroy_address_space dir s6))
                   else
                     (let s7 = upd_proc proc (\<lambda>q. q\<lparr>p_kernel_stack := kstack + KERNEL_STACK_SIZE\<rparr>) s6;
                          s8 = (if entry \<noteq> 0
                                then upd_proc proc (\<lambda>q. q\<lparr>p_context := entry_context entry (p_kernel_stack q)
                                       (physical_addr (p_page_directory q) s7)\<rparr>) s7
                                else s7);
                          s9 = s8\<lparr>process_table := (process_table s8)(nat pid := proc)\<rparr>;
                          s10 = upd_proc proc (\<lambda>q. q\<lparr>p_state := PROCESS_READY\<rparr>) s9
                      in Some (proc, kprintf (litln ''[PROC] Created process '%s' (PID %d)'')
                                 [VStr name, VInt (of_int pid)] s10))
                 })
         })"

definition process_init :: "'a kproc_scheme \<Rightarrow> 'a kproc_scheme option" where
  "process_init s =
     (let s1 = s\<lparr>process_table := (\<lambda>_. 0), current_process := 0\<rparr>
      in do {
        (idle, s2) \<leftarrow> process_create (lit ''idle'') 0 0 s1;
        let s3 = (if idle \<noteq> 0
                  then let s4 = upd_proc idle (\<lambda>q. q\<lparr>p_pid := 0, p_state := PROCESS_RUNNING,
                                  p_page_directory := vmm_get_kernel_directory s2\<rparr>) s2
                       in s4\<lparr>current_process := idle\<rparr>
                  else s2);
        Some (kprintf (litln ''[PROC] Process manager initialized'') [] s3)
      })"

definition process_terminate :: "u32 \<Rightarrow> u32 \<Rightarrow> 'a kproc_scheme \<Rightarrow> 'a kproc_scheme" where
  "process_terminate proc exit_code s =
     (if proc = 0 then s
      else let s1 = upd_proc proc (\<lambda>q. q\<lparr>p_state := PROCESS_TERMINATED, p_exit_code := exit_code\<rparr>) s;
               pid = p_pid (procs s1 proc);
               s2 = (if pid > 0 \<and> pid < int MAX_PROCESSES
                     then s1\<lparr>process_table := (process_table s1)(nat pid := 0)\<rparr> else s1)
           in kprintf (litln ''[PROC] Process '%s' (PID %d) terminated with code %d'')
                [VStr (p_name (procs s2 proc)), VInt (of_int pid), VInt exit_code] s2)"

definition process_get_current :: "'a kproc_scheme \<Rightarrow> u32" where
  "process_get_current s = current_process s"

definition process_get_by_pid :: "int \<Rightarrow> 'a kproc_scheme \<Rightarrow> u32" where
  "process_get_by_pid pid s =
     (if pid < 0 \<or> pid \<ge> int MAX_PROCESSES then 0 else process_table s (nat pid))"

text \<open>
  The invariant of the table: the search cursor is in range, slot 0 is never used, and every
  entry is a live block of the heap holding a process that carries its slot as its identifier.
\<close>

definition proc_block :: "u32 \<Rightarrow> 'a kproc_scheme \<Rightarrow> bool" where
  "proc_block p s \<longleftrightarrow> (\<exists>n \<ge> 168. (unat p, n) \<in> heap_live s)"

definition table_ok :: "'a kproc_scheme \<Rightarrow> bool" where
  "table_ok s \<longleftrightarrow> 1 \<le> next_pid s \<and> next_pid s \<le> MAX_PROCESSES \<and> process_table s 0 = 0 \<and>
     (\<forall>i < MAX_PROCESSES. process_table s i \<noteq> 0 \<longrightarrow>
        proc_block (process_table s i) s \<and> p_pid (procs s (process_table s i)) = int i)"

text \<open>The resources a new process needs: an identifier, two blocks of the heap and a frame.\<close>

definition can_create :: "'a kproc_scheme \<Rightarrow> bool" where
  "can_create s \<longleftrightarrow> (\<exists>i. 1 \<le> i \<and> i < MAX_PROCESSES \<and> process_table s i = 0) \<and>
     (case amalloc 168 (blocks_of s) of None \<Rightarrow> False | Some (ofs, bs) \<Rightarrow> amalloc 8192 bs \<noteq> None) \<and>
     free_set s \<inter> {..<scanned s} \<noteq> {}"

section \<open>What the other components leave alone\<close>

lemma kprintf_proc [simp]:
  "procs (kprintf f a s) = procs s" "process_table (kprintf f a s) = process_table s"
  "current_process (kprintf f a s) = current_process s" "next_pid (kprintf f a s) = next_pid s"
  "kproc.more (kprintf f a s) = kproc.more s"
  by (subst kprintf_eq; simp)+

lemma upd_proc_simps [simp]:
  "procs (upd_proc p f s) = (procs s)(p := f (procs s p))" "process_table (upd_proc p f s) = process_table s"
  "current_process (upd_proc p f s) = current_process s" "next_pid (upd_proc p f s) = next_pid s"
  "kproc.more (upd_proc p f s) = kproc.more s" "mem (upd_proc p f s) = mem s"
  "kernel_directory (upd_proc p f s) = kernel_directory s" "heap_start (upd_proc p f s) = heap_start s"
  "heap_initialized (upd_proc p f s) = heap_initialized s" "total_frames (upd_proc p f s) = total_frames s"
  "used_frames (upd_proc p f s) = used_frames s" "frame_bitmap (upd_proc p f s) = frame_bitmap s"
  by (simp_all add: upd_proc_def)

lemma more_proc:
  assumes "kheap.more s' = kheap.more s"
  shows "procs s' = procs s" "process_table s' = process_table s" "current_process s' = current_process s"
    "next_pid s' = next_pid s" "kproc.more s' = kproc.more s"
  using assms by (cases s; cases s'; simp)+

lemma more_heap:
  assumes "kvmm.more s' = kvmm.more s"
  shows "heap_start s' = heap_start s" "heap_initialized s' = heap_initialized s" "kheap.more s' = kheap.more s"
  using assms by (cases s; cases s'; simp)+

lemma pmm_more [simp]:
  "kvmm.more (snd (pmm_alloc_frame s)) = kvmm.more s" "kvmm.more (pmm_free_frame a s) = kvmm.more s"
  by (simp_all add: pmm_alloc_frame_def pmm_free_frame_def bitmap_set_def bitmap_clear_def Let_def)

lemma copy_entry_frame:
  "kvmm.more (fold (copy_entry d) is s) = kvmm.more s"
  "kernel_directory (fold (copy_entry d) is s) = kernel_directory s"
  "free_set (fold (copy_entry d) is s) = free_set s" "pmm_ok (fold (copy_entry d) is s) = pmm_ok s"
  "total_frames (fold (copy_entry d) is s) = total_frames s"
  by (induction "is" arbitrary: s) (simp_all add: copy_entry_def set_dir_entry_def Let_def)

lemma copy_entry_bytes:
  assumes "\<forall>i \<in> set is. i < 1024" "12288 \<le> unat (x - d)"
  shows "mem (fold (copy_entry d) is s) x = mem s x"
  using assms
proof (induction "is" arbitrary: s)
  case (Cons i "is")
  have i: "unat (4 * of_nat i :: u32) = 4 * i" using Cons.prems(1) by (simp add: unat_word_ariths unat_of_nat32)
  have "unat (x - entry_addr d (of_nat i)) = unat (x - d) - 4 * i"
  proof -
    have e: "x - entry_addr d (of_nat i) = (x - d) - 4 * of_nat i" by (simp add: entry_addr_def)
    have le: "(4 * of_nat i :: u32) \<le> x - d" using Cons.prems i by (simp add: word_le_nat_alt)
    show ?thesis unfolding e unat_sub [OF le] i ..
  qed
  moreover have "i < 1024" using Cons.prems(1) by simp
  ultimately have "\<not> x - entry_addr d (of_nat i) < 4" using Cons.prems(2) by (simp add: word_less_nat_alt)
  then have "mem (copy_entry d i s) x = mem s x"
    by (simp add: copy_entry_def set_dir_entry_def Let_def store32_other)
  then show ?case using Cons by simp
qed simp

lemma destroy_more:
  "kvmm.more (vmm_destroy_address_space d s) = kvmm.more s"
proof -
  have "kvmm.more (fold (release_table d) is s) = kvmm.more s" for "is"
    by (induction "is" arbitrary: s) (simp_all add: release_table_def Let_def)
  then show ?thesis by (simp add: vmm_destroy_address_space_def Let_def del: upt_rec_numeral)
qed

lemma kmalloc_state:
  assumes "kmalloc n s = Some (a, s')"
  obtains m where "s' = s\<lparr>mem := m\<rparr>" | f xs where "s' = kprintf f xs s"
proof -
  have "(\<exists>m. s' = s\<lparr>mem := m\<rparr>) \<or> (\<exists>f xs. s' = kprintf f xs s)"
    using assms unfolding kmalloc_def
    by (auto simp: Let_def split: if_splits Option.bind_splits intro: exI [of _ "mem s"])
  then show thesis using that by blast
qed

lemma kmalloc_more:
  assumes "kmalloc n s = Some (a, s')"
  shows "kheap.more s' = kheap.more s" "kernel_directory s' = kernel_directory s" "free_set s' = free_set s"
    "pmm_ok s' = pmm_ok s" "heap_start s' = heap_start s" "scanned s' = scanned s" "total_frames s' = total_frames s"
  using assms by (rule kmalloc_state; simp add: free_set_def pmm_ok_def bitmap_test_def scanned_def)+

lemma kfree_more [simp]:
  "kheap.more (kfree p s) = kheap.more s" "kernel_directory (kfree p s) = kernel_directory s"
  "free_set (kfree p s) = free_set s" "pmm_ok (kfree p s) = pmm_ok s" "heap_start (kfree p s) = heap_start s"
  by (simp_all add: kfree_def Let_def)


lemma heap_ok_agree:
  assumes ok: "heap_ok s" and e: "heap_start s' = heap_start s" "heap_initialized s' = heap_initialized s"
    and m: "\<And>k. unat (heap_start s) \<le> k \<Longrightarrow> k < heap_end s \<Longrightarrow> mem s' (of_nat k) = mem s (of_nat k)"
  shows "heap_ok s'" "blocks_of s' = blocks_of s" "heap_live s' = heap_live s"
proof -
  note h = heap_okD [OF ok]
  have E: "heap_end s' = heap_end s" by (simp add: heap_end_def e(1))
  have fin: "unat (heap_start s) + span (blocks_of s) = heap_end s" by (simp add: h(6) heap_end_def)
  have "hseg (mem s') (heap_end s) (unat (heap_start s)) 0 (blocks_of s)"
    by (rule hseg_keep [OF h(5)]) (use fin h(4) m in auto)
  with heap_okI [of s' "blocks_of s"] h show "heap_ok s'" and b: "blocks_of s' = blocks_of s"
    by (simp_all add: E e)
  then show "heap_live s' = heap_live s" by (simp add: heap_live_def e(1))
qed

lemma upd_heap [simp]:
  "heap_ok (upd_proc p f s) = heap_ok s" "blocks_of (upd_proc p f s) = blocks_of s"
  "heap_live (upd_proc p f s) = heap_live s" "free_set (upd_proc p f s) = free_set s"
  "pmm_ok (upd_proc p f s) = pmm_ok s" "heap_end (upd_proc p f s) = heap_end s"
  "dir_entry d i (upd_proc p f s) = dir_entry d i s" "physical_addr d (upd_proc p f s) = physical_addr d s"
  by (simp_all add: heap_ok_def blocks_of_def heap_end_def heap_live_def free_set_def pmm_ok_def bitmap_test_def
      dir_entry_def physical_addr_def)

lemma proc_fields_heap [simp]:
  "heap_ok (s\<lparr>next_pid := n\<rparr>) = heap_ok s" "blocks_of (s\<lparr>next_pid := n\<rparr>) = blocks_of s"
  "heap_live (s\<lparr>next_pid := n\<rparr>) = heap_live s" "free_set (s\<lparr>next_pid := n\<rparr>) = free_set s"
  "pmm_ok (s\<lparr>next_pid := n\<rparr>) = pmm_ok s" "scanned (s\<lparr>next_pid := n\<rparr>) = scanned s"
  "heap_ok (s\<lparr>process_table := pt\<rparr>) = heap_ok s" "blocks_of (s\<lparr>process_table := pt\<rparr>) = blocks_of s"
  "heap_live (s\<lparr>process_table := pt\<rparr>) = heap_live s" "free_set (s\<lparr>process_table := pt\<rparr>) = free_set s"
  "pmm_ok (s\<lparr>process_table := pt\<rparr>) = pmm_ok s"
  "heap_ok (s\<lparr>procs := ps\<rparr>) = heap_ok s" "blocks_of (s\<lparr>procs := ps\<rparr>) = blocks_of s"
  "heap_live (s\<lparr>procs := ps\<rparr>) = heap_live s" "free_set (s\<lparr>procs := ps\<rparr>) = free_set s"
  "pmm_ok (s\<lparr>procs := ps\<rparr>) = pmm_ok s"
  "heap_ok (s\<lparr>current_process := cp\<rparr>) = heap_ok s" "blocks_of (s\<lparr>current_process := cp\<rparr>) = blocks_of s"
  "heap_live (s\<lparr>current_process := cp\<rparr>) = heap_live s" "free_set (s\<lparr>current_process := cp\<rparr>) = free_set s"
  "pmm_ok (s\<lparr>current_process := cp\<rparr>) = pmm_ok s" "scanned (s\<lparr>current_process := cp\<rparr>) = scanned s"
  "scanned (s\<lparr>process_table := pt\<rparr>) = scanned s"
  "free_set (kprintf fm xs s) = free_set s" "pmm_ok (kprintf fm xs s) = pmm_ok s"
  by (simp_all add: heap_ok_def blocks_of_def heap_end_def heap_live_def free_set_def pmm_ok_def bitmap_test_def
      scanned_def)

text \<open>
  The memory a process is made of: the heap and the kernel's directory lie outside the frames the
  frame allocator may hand out and outside the two pages that follow each of them, which the
  creation of a directory clears as well.
\<close>

definition spaces_apart :: "'a kheap_scheme \<Rightarrow> bool" where
  "spaces_apart s \<longleftrightarrow> heap_ok s \<and> pmm_ok s \<and> 0 \<notin> free_set s \<and> page_aligned (kernel_directory s) \<and>
     (unat (kernel_directory s) + 4096 \<le> unat (heap_start s) \<or> heap_end s \<le> unat (kernel_directory s)) \<and>
     (\<forall>f \<in> free_set s. (f * 4096 + 12288 \<le> unat (heap_start s) \<or> heap_end s \<le> f * 4096) \<and>
        kernel_directory s \<notin> dir_pages (of_nat (f * 4096)))"

lemma spaces_apartD:
  assumes "spaces_apart s"
  shows "heap_ok s" "pmm_ok s" "0 \<notin> free_set s" "page_aligned (kernel_directory s)"
    "unat (kernel_directory s) + 4096 \<le> unat (heap_start s) \<or> heap_end s \<le> unat (kernel_directory s)"
    "f \<in> free_set s \<Longrightarrow> f * 4096 + 12288 \<le> unat (heap_start s) \<or> heap_end s \<le> f * 4096"
    "f \<in> free_set s \<Longrightarrow> kernel_directory s \<notin> dir_pages (of_nat (f * 4096))"
  using assms unfolding spaces_apart_def by blast+

lemma spaces_apart_keep:
  assumes "spaces_apart s" "heap_ok s'" "pmm_ok s'" "free_set s' \<subseteq> free_set s" "kernel_directory s' = kernel_directory s"
    "heap_start s' = heap_start s"
  shows "spaces_apart s'"
proof -
  have "heap_end s' = heap_end s" by (simp add: heap_end_def assms(6))
  then show ?thesis using assms unfolding spaces_apart_def by auto
qed

lemma create_space:
  assumes sp: "spaces_apart s" and c: "vmm_create_address_space s = (d, s')"
  shows "kvmm.more s' = kvmm.more s" "kernel_directory s' = kernel_directory s" "spaces_apart s'"
    "blocks_of s' = blocks_of s" "heap_live s' = heap_live s"
    "d = 0 \<Longrightarrow> free_set s' = free_set s"
    "d \<noteq> 0 \<Longrightarrow> \<exists>f \<in> free_set s. unat d = f * 4096 \<and> free_set s' = free_set s - {f}"
    "d = 0 \<longleftrightarrow> free_set s \<inter> {..<scanned s} = {}" "total_frames s' = total_frames s"
proof -
  note S = spaces_apartD [OF sp]
  obtain a s1 where a: "pmm_alloc_frame s = (a, s1)" by (rule prod.exhaust)
  have s1: "kvmm.more s1 = kvmm.more s" "kernel_directory s1 = kernel_directory s" "mem s1 = mem s" "pmm_ok s1"
    "total_frames s1 = total_frames s"
    using pmm_alloc_frame_spec [OF S(2)] pmm_more(1) [of s] pmm_vmm(1) [of s] alloc_mem [OF a] frames.alloc_ok [OF S(2) a] a by simp_all
  have a0: "a = 0 \<longleftrightarrow> free_set s \<inter> {..<scanned s} = {}"
  proof
    show "a = 0" if "free_set s \<inter> {..<scanned s} = {}" by (rule alloc_frame_fail(1) [OF S(2) that a])
    show "free_set s \<inter> {..<scanned s} = {}" if "a = 0"
    proof (rule ccontr)
      assume "free_set s \<inter> {..<scanned s} \<noteq> {}"
      from alloc_frame_frame(1,2) [OF S(2) this a refl] \<open>a = 0\<close> S(3) show False by simp
    qed
  qed
  have ad: "a = d" using c a by (auto simp: vmm_create_address_space_def split: if_splits)
  have z: "s' = s1" if "a = 0" using c a that by (simp add: vmm_create_address_space_def)
  have nz: "s' = fold (copy_entry a) [0..<1024] (s1\<lparr>mem :=
     store32 (memset (mem s) a 0 sizeof_page_directory) (entry_addr (a + 8192) 0) a\<rparr>)" if "a \<noteq> 0"
    using create_state [OF S(2) a that] c by simp
  show M: "kvmm.more s' = kvmm.more s" and K: "kernel_directory s' = kernel_directory s"
    using z nz s1 by (cases "a = 0"; simp add: copy_entry_frame del: upt_rec_numeral)+
  show "total_frames s' = total_frames s"
    using z nz s1 by (cases "a = 0"; simp add: copy_entry_frame del: upt_rec_numeral)
  have P: "pmm_ok s'" using z nz s1 by (cases "a = 0"; simp add: copy_entry_frame del: upt_rec_numeral)
  have F: "free_set s' = free_set s1" using z nz by (cases "a = 0"; simp add: copy_entry_frame del: upt_rec_numeral)
  show F0: "free_set s' = free_set s" if "d = 0"
    using alloc_frame_zero [OF S(2) _ S(3)] a that ad F by simp
  show F1: "\<exists>f \<in> free_set s. unat d = f * 4096 \<and> free_set s' = free_set s - {f}" if "d \<noteq> 0"
    using alloc_frame_nonzero [OF S(2) a] that ad F by simp
  show "d = 0 \<longleftrightarrow> free_set s \<inter> {..<scanned s} = {}" using a0 ad by simp
  have keep: "mem s' (of_nat k) = mem s (of_nat k)" if k: "unat (heap_start s) \<le> k" "k < heap_end s" for k
  proof (cases "a = 0")
    case False
    then obtain f where f: "f \<in> free_set s" "unat a = f * 4096" using F1 ad by blast
    have k32: "unat (of_nat k :: u32) = k" using k(2) heap_okD(8) [OF S(1)] by (simp add: unat_of_nat32)
    have top: "unat a + 12288 \<le> 2 ^ 32" by (rule alloc_bound [OF S(2) a False])
    have far: "12288 \<le> unat (of_nat k - a)"
    proof (cases "unat a \<le> k")
      case True
      then have "unat (of_nat k - a) = k - unat a" using k32 by (simp add: unat_sub word_le_nat_alt)
      then show ?thesis using S(6) [OF f(1)] k f(2) True by linarith
    next
      case False
      then have "unat (of_nat k - a) = 2 ^ 32 + k - unat a"
        using unat_sub_if' [of "of_nat k" a] k32 by simp
      then show ?thesis using top by linarith
    qed
    have "\<not> of_nat k - (a + 8192) < 4"
    proof -
      have e: "of_nat k - (a + 8192) = (of_nat k - a) - 8192" by simp
      have le: "(8192 :: u32) \<le> of_nat k - a" using far by (simp add: word_le_nat_alt)
      have "unat (of_nat k - (a + 8192)) = unat (of_nat k - a) - 8192"
        unfolding e unat_sub [OF le] by simp
      then show ?thesis using far by (simp add: word_less_nat_alt)
    qed
    moreover have "\<not> of_nat k - a < sizeof_page_directory" using far by (simp add: word_less_nat_alt)
    moreover have "mem (fold (copy_entry a) [0..<1024] t) (of_nat k) = mem t (of_nat k)" for t :: "'a kheap_scheme"
      by (rule copy_entry_bytes [OF _ far]) simp
    ultimately show ?thesis unfolding nz [OF False]
      by (simp add: store32_other memset_apply entry_addr_def del: upt_rec_numeral)
  qed (simp add: z s1)
  have H: "heap_ok s'" "blocks_of s' = blocks_of s" "heap_live s' = heap_live s"
    by (rule heap_ok_agree [OF S(1) more_heap(1,2) [OF M] keep]; assumption)+
  have "free_set s' \<subseteq> free_set s" using F0 F1 by (cases "d = 0") auto
  from spaces_apart_keep [OF sp H(1) P this K more_heap(1) [OF M]] show "spaces_apart s'" .
  show "blocks_of s' = blocks_of s" "heap_live s' = heap_live s" by (rule H)+
qed


text \<open>An allocation from the heap keeps every word outside it.\<close>

lemma kmalloc_outside:
  assumes "heap_ok s" "kmalloc n s = Some (a, s')"
    and "unat x + 4 \<le> unat (heap_start s) \<or> heap_end s \<le> unat x" "unat x + 4 \<le> 2 ^ 32"
  shows "load32 (mem s') x = load32 (mem s) x"
proof -
  have b: "mem s' (of_nat k) = mem s (of_nat k)" if "k \<in> kept s" for k
    using assms(1,2) that by (cases rule: kmalloc_cases) auto
  have "mem s' (x + of_nat j) = mem s (x + of_nat j)" if "j < 4" for j
  proof -
    have "unat x + j \<in> kept s" using assms(3,4) that by (auto simp: kept_def)
    from b [OF this] show ?thesis by simp
  qed
  from this [of 0] this [of 1] this [of 2] this [of 3] show ?thesis by (simp add: load32_def)
qed

text \<open>A directory that was just created has no table of its own: destroying it gives back one frame.\<close>

lemma destroy_created:
  assumes sp: "spaces_apart s" and c: "vmm_create_address_space s = (d, s1)" and "d \<noteq> 0"
    and t: "kmalloc n (upd_proc p g s1) = Some (a, s2)"
  shows "free_set (vmm_destroy_address_space d s2) = free_set s" "pmm_ok (vmm_destroy_address_space d s2)"
    "mem (vmm_destroy_address_space d s2) = mem s2"
    "kernel_directory (vmm_destroy_address_space d s2) = kernel_directory s2" "physical_addr d s2 = d"
proof -
  note S = spaces_apartD [OF sp] and C = create_space [OF sp c]
  obtain f where f: "f \<in> free_set s" "unat d = f * 4096" "free_set s1 = free_set s - {f}"
    using C(7) assms(3) by blast
  have d: "d = of_nat (f * 4096)" using f(2) by (metis of_unat32)
  have fb: "f < unat (total_frames s)" "unat (total_frames s) \<le> 131072"
    using free_set_bound [OF f(1)] S(2) by (simp_all add: pmm_ok_def)
  then have top: "unat d + 12288 \<le> 2 ^ 32" unfolding f(2) by simp
  have al: "page_aligned d" unfolding page_aligned_nat f(2) by simp
  have hd: "unat d + 12288 \<le> unat (heap_start s) \<or> heap_end s \<le> unat d" using S(6) [OF f(1)] f(2) by simp
  have kd: "kernel_directory s \<notin> dir_pages d" using S(7) [OF f(1)] d by simp
  have s2: "free_set s2 = free_set s - {f}" "pmm_ok s2" "kernel_directory s2 = kernel_directory s"
    "total_frames s2 = total_frames s"
    using kmalloc_more [OF t] spaces_apartD(2) [OF C(3)] f(3) C(2,9) by simp_all
  have ok1: "heap_ok (upd_proc p g s1)" using spaces_apartD(1) [OF C(3)] by simp
  have hs: "heap_start (upd_proc p g s1) = heap_start s" "heap_end (upd_proc p g s1) = heap_end s"
    using more_heap(1) [OF C(1)] by (simp_all add: heap_end_def)
  note out = kmalloc_outside [OF ok1 t, unfolded hs, simplified upd_proc_simps]
  have e: "dir_entry q i s2 = dir_entry q i s1"
    if "page_aligned q" "i < 1024" "unat q + 4096 \<le> unat (heap_start s) \<or> heap_end s \<le> unat q" for q i
  proof -
    note a = unat_entry_addr [OF that(1,2)] aligned_top [OF that(1)]
    show ?thesis unfolding dir_entry_def by (rule out) (use a that(3) in linarith)+
  qed
  have "unat (d + 8192) = unat d + 8192" using top by (simp add: unat_word_ariths)
  then have "physical_addr d s2 = physical_addr d s1"
    unfolding physical_addr_def using out [of "d + 8192"] hd top by auto
  then show ph: "physical_addr d s2 = d" using create_load(3) [OF S(2) c assms(3) S(4) kd al, of 0] by simp
  have "dir_entry (kernel_directory s) i s2 AND PAGE_PRESENT \<noteq> 0"
    if i: "i < 1024" and p: "dir_entry d i s2 AND PAGE_PRESENT \<noteq> 0" for i
  proof -
    note l = create_load [OF S(2) c assms(3) S(4) kd]
    have "dir_entry d i s2 = dir_entry d i s1" by (rule e [OF al i]) (use hd in auto)
    moreover have "dir_entry (kernel_directory s) i s2 = dir_entry (kernel_directory s) i s"
      unfolding e [OF S(4) i S(5)] unfolding dir_entry_def by (rule l(2) [OF S(4) i kd])
    ultimately show ?thesis using p l(1) [OF al i refl] unfolding dir_entry_def [of d i s1] by (auto split: if_splits)
  qed
  then have "private_frames d 1024 s2 = {}"
    unfolding private_frames_def s2 by (auto simp: word_less_nat_alt unat_of_nat32)
  moreover have "d \<noteq> kernel_directory s2" using kd s2(3) by (auto simp: dir_pages_def)
  ultimately show "free_set (vmm_destroy_address_space d s2) = free_set s" "pmm_ok (vmm_destroy_address_space d s2)"
    "mem (vmm_destroy_address_space d s2) = mem s2"
    using destroy_frames [OF s2(2), of d] assms(3) f(1,2) fb(1) unfolding Let_def ph s2 by auto
  have "kernel_directory (fold (release_table d) is s2) = kernel_directory s2" for "is"
    by (induction "is" arbitrary: s2) (simp_all add: release_table_def Let_def)
  then show "kernel_directory (vmm_destroy_address_space d s2) = kernel_directory s2"
    by (simp add: vmm_destroy_address_space_def Let_def del: upt_rec_numeral)
qed

section \<open>Identifiers\<close>

lemma find_first:
  assumes "find P [a..<b] = Some i" shows "a \<le> i" "i < b" "P i" "\<forall>j. a \<le> j \<longrightarrow> j < i \<longrightarrow> \<not> P j"
proof -
  from assms obtain k where k: "k < b - a" "P (a + k)" "i = a + k" "\<forall>j<k. \<not> P (a + j)"
    by (auto simp: find_Some_iff)
  show "a \<le> i" "i < b" "P i" using k by auto
  show "\<forall>j. a \<le> j \<longrightarrow> j < i \<longrightarrow> \<not> P j"
  proof (intro allI impI)
    fix j assume "a \<le> j" "j < i"
    then show "\<not> P j" using k(3) k(4) [rule_format, of "j - a"] by simp
  qed
qed

lemma next_pid_cases:
  assumes "1 \<le> next_pid s" "next_pid s \<le> MAX_PROCESSES" "process_get_next_pid s = (pid, s')"
  obtains (full) "pid = - 1" "s' = s" "\<forall>i. 1 \<le> i \<longrightarrow> i < MAX_PROCESSES \<longrightarrow> process_table s i \<noteq> 0"
    | (free) i where "pid = int i" "1 \<le> i" "i < MAX_PROCESSES" "process_table s i = 0" "s' = s\<lparr>next_pid := i + 1\<rparr>"
proof (cases "find (\<lambda>i. process_table s i = 0) [next_pid s..<MAX_PROCESSES]")
  case None
  show thesis
  proof (cases "find (\<lambda>i. process_table s i = 0) [1..<next_pid s]")
    case n: None
    have "process_table s i \<noteq> 0" if "1 \<le> i" "i < MAX_PROCESSES" for i
      using None n that by (cases "i < next_pid s") (auto simp: find_None_iff)
    then show thesis using full None n assms(3) by (simp add: process_get_next_pid_def)
  next
    case (Some i)
    from find_first [OF this] assms None Some show thesis
      by (intro free [of i]) (auto simp: process_get_next_pid_def)
  qed
next
  case (Some i)
  from find_first [OF this] assms Some show thesis
    by (intro free [of i]) (auto simp: process_get_next_pid_def)
qed


section \<open>Creation\<close>

lemma kmalloc_iff:
  assumes "heap_ok s" "n \<noteq> 0" "kmalloc n s = Some (a, s')"
  shows "a = 0 \<longleftrightarrow> amalloc (unat (round8 n)) (blocks_of s) = None"
    "amalloc (unat (round8 n)) (blocks_of s) = Some (ofs, bs) \<Longrightarrow> blocks_of s' = bs"
proof -
  have s: "of_nat (unat (heap_start s) + ofs) = a \<and> blocks_of s' = bs \<and> a \<noteq> 0"
    if al: "amalloc (unat (round8 n)) (blocks_of s) = Some (ofs, bs)" for ofs bs
  proof -
    obtain t where t: "kmalloc n s = Some (of_nat (unat (heap_start s) + ofs), t)" "blocks_of t = bs"
      using kmalloc_some [OF assms(1,2) al] by metis
    have "ofs + 16 \<le> 4194304 + 16"
      using amalloc_Some [OF al] heap_okD(6) [OF assms(1)] by auto
    then have "unat (heap_start s) + ofs < 2 ^ 32" using heap_okD(8) [OF assms(1)] by (simp add: heap_end_def)
    then show ?thesis using t assms(3) of_nat_nonzero [of "unat (heap_start s) + ofs"] heap_okD(2) [OF assms(1)] by auto
  qed
  show "a = 0 \<longleftrightarrow> amalloc (unat (round8 n)) (blocks_of s) = None"
    using kmalloc_none [OF assms(1,2)] s assms(3) by (cases "amalloc (unat (round8 n)) (blocks_of s)") auto
  show "amalloc (unat (round8 n)) (blocks_of s) = Some (ofs, bs) \<Longrightarrow> blocks_of s' = bs" using s by blast
qed

lemma round8_proc: "unat (round8 168) = 168" "unat (round8 8192) = 8192"
  by (simp_all add: unat_round8)

lemma kmalloc_space:
  assumes "spaces_apart s" "kmalloc n s = Some (a, s')"
  shows "spaces_apart s'"
  by (rule spaces_apart_keep [OF assms(1)])
    (use assms kmalloc_more [OF assms(2)] kmalloc_laws(1) [OF spaces_apartD(1) assms(2)] spaces_apartD(2) in auto)

lemma table_ok_keep:
  assumes "table_ok s" "process_table s' = process_table s" "1 \<le> next_pid s'" "next_pid s' \<le> MAX_PROCESSES"
    and "heap_live s \<subseteq> heap_live s'" "\<And>q. proc_block q s \<Longrightarrow> procs s' q = procs s q"
  shows "table_ok s'"
proof -
  have "proc_block q s \<Longrightarrow> proc_block q s'" for q using assms(5) unfolding proc_block_def by blast
  then show ?thesis using assms(1-4,6) unfolding table_ok_def by simp
qed


lemma kmalloc_block:
  assumes "heap_ok s" "kmalloc n s = Some (a, s')" "a \<noteq> 0" "unat n \<le> 2 ^ 32 - 8"
  obtains sz where "unat n \<le> sz" "heap_live s' = insert (unat a, sz) (heap_live s)" "(unat a, sz) \<notin> heap_live s"
    "{unat a..<unat a + sz} \<inter> payload (heap_live s) = {}"
  using kmalloc_laws(5) [OF assms] by blast

lemma not_live_block:
  assumes "{unat p..<unat p + n} \<inter> payload (heap_live s) = {}" "168 \<le> n"
  shows "\<not> proc_block p s"
proof
  assume "proc_block p s"
  then obtain m where "168 \<le> m" "(unat p, m) \<in> heap_live s" by (auto simp: proc_block_def)
  then have "unat p \<in> payload (heap_live s)" unfolding payload_def
    by (intro UN_I [of "(unat p, m)"]) simp_all
  moreover have "unat p \<in> {unat p..<unat p + n}" using assms(2) by simp
  ultimately show False using assms(1) by blast
qed

text \<open>The record of a process before it has its memory, and after.\<close>

definition blank_process :: "int \<Rightarrow> u8 list \<Rightarrow> u32 \<Rightarrow> 'a kproc_scheme \<Rightarrow> process_t" where
  "blank_process pid name priority s = zero_process\<lparr>p_pid := pid,
     p_parent_pid := (if current_process s \<noteq> 0 then p_pid (procs s (current_process s)) else 0),
     p_name := take 63 name, p_state := PROCESS_CREATED, p_priority := priority, p_next := 0\<rparr>"

definition ready_process ::
  "int \<Rightarrow> u8 list \<Rightarrow> u32 \<Rightarrow> u32 \<Rightarrow> u32 \<Rightarrow> u32 \<Rightarrow> 'a kproc_scheme \<Rightarrow> process_t" where
  "ready_process pid name entry priority dir kstack s = (blank_process pid name priority s)\<lparr>p_state := PROCESS_READY,
     p_page_directory := dir, p_kernel_stack := kstack + KERNEL_STACK_SIZE,
     p_context := (if entry \<noteq> 0 then entry_context entry (kstack + KERNEL_STACK_SIZE) dir else zero_context)\<rparr>"

lemma process_create_stages:
  assumes "process_get_next_pid s = (pid, s1)" "0 \<le> pid" "kmalloc sizeof_process s1 = Some (p, s2)" "p \<noteq> 0"
    and "vmm_create_address_space (upd_proc p (\<lambda>_. blank_process pid name priority s2) s2) = (d, s4)"
  shows "d = 0 \<Longrightarrow> process_create name entry priority s =
      Some (0, kfree p (upd_proc p (\<lambda>q. q\<lparr>p_page_directory := d\<rparr>) s4))"
    and "d \<noteq> 0 \<Longrightarrow> kmalloc KERNEL_STACK_SIZE (upd_proc p (\<lambda>q. q\<lparr>p_page_directory := d\<rparr>) s4) = Some (0, s6) \<Longrightarrow>
      process_create name entry priority s = Some (0, kfree p (vmm_destroy_address_space d s6))"
    and "d \<noteq> 0 \<Longrightarrow> kmalloc KERNEL_STACK_SIZE (upd_proc p (\<lambda>q. q\<lparr>p_page_directory := d\<rparr>) s4) = Some (k, s6) \<Longrightarrow>
      k \<noteq> 0 \<Longrightarrow> procs s4 p = blank_process pid name priority s2 \<Longrightarrow> physical_addr d s6 = d \<Longrightarrow>
      \<exists>f xs. process_create name entry priority s = Some (p, kprintf f xs
        (s6\<lparr>procs := (procs s6)(p := ready_process pid name entry priority d k s2),
            process_table := (process_table s6)(nat pid := p)\<rparr>))"
proof -
  have g: "\<not> pid < 0" using assms(2) by simp
  note b = assms(5) [unfolded blank_process_def]
  note st = process_create_def assms(1,3,4) g b prod.case Let_def if_False if_True Option.bind.bind_lunit
  show "d = 0 \<Longrightarrow> process_create name entry priority s =
      Some (0, kfree p (upd_proc p (\<lambda>q. q\<lparr>p_page_directory := d\<rparr>) s4))"
    by (simp only: st simp_thms)
  show "d \<noteq> 0 \<Longrightarrow> kmalloc KERNEL_STACK_SIZE (upd_proc p (\<lambda>q. q\<lparr>p_page_directory := d\<rparr>) s4) = Some (0, s6) \<Longrightarrow>
      process_create name entry priority s = Some (0, kfree p (vmm_destroy_address_space d s6))"
    by (simp only: st simp_thms)
  assume d: "d \<noteq> 0" and k: "kmalloc KERNEL_STACK_SIZE (upd_proc p (\<lambda>q. q\<lparr>p_page_directory := d\<rparr>) s4) = Some (k, s6)"
    "k \<noteq> 0" and p4: "procs s4 p = blank_process pid name priority s2" and ph: "physical_addr d s6 = d"
  let ?s7 = "upd_proc p (\<lambda>q. q\<lparr>p_kernel_stack := k + KERNEL_STACK_SIZE\<rparr>) s6"
  let ?s8 = "if entry \<noteq> 0 then upd_proc p (\<lambda>q. q\<lparr>p_context := entry_context entry (p_kernel_stack q)
       (physical_addr (p_page_directory q) ?s7)\<rparr>) ?s7 else ?s7"
  let ?s10 = "upd_proc p (\<lambda>q. q\<lparr>p_state := PROCESS_READY\<rparr>) (?s8\<lparr>process_table := (process_table ?s8)(nat pid := p)\<rparr>)"
  have "process_create name entry priority s = Some (p, kprintf (litln ''[PROC] Created process '%s' (PID %d)'')
       [VStr name, VInt (of_int pid)] ?s10)"
    using d k by (simp only: st simp_thms)
  moreover have p6: "procs s6 p = (blank_process pid name priority s2)\<lparr>p_page_directory := d\<rparr>"
    using more_proc(1) [OF kmalloc_more(1) [OF k(1)]] p4 by simp
  have "?s10 = s6\<lparr>procs := (procs s6)(p := ready_process pid name entry priority d k s2),
            process_table := (process_table s6)(nat pid := p)\<rparr>"
    using ph by (simp add: upd_proc_def p6 ready_process_def blank_process_def zero_process_def physical_addr_def)
  ultimately show "\<exists>f xs. process_create name entry priority s = Some (p, kprintf f xs
        (s6\<lparr>procs := (procs s6)(p := ready_process pid name entry priority d k s2),
            process_table := (process_table s6)(nat pid := p)\<rparr>))"
    by (intro exI) (simp only:)
qed


lemma kfree_undo:
  assumes "heap_ok t" "heap_live t = insert (unat p, n) L" "(unat p, n) \<notin> L"
  shows "heap_ok (kfree p t)" "heap_live (kfree p t) = L"
  using kfree_laws(1,2) [OF assms(1), of "unat p" n] assms(2,3) by auto

lemma spaces_apart_upd [simp]:
  "spaces_apart (upd_proc p f s) = spaces_apart s" "spaces_apart (kprintf fm xs s) = spaces_apart s"
  "spaces_apart (s\<lparr>procs := ps\<rparr>) = spaces_apart s" "spaces_apart (s\<lparr>process_table := pt\<rparr>) = spaces_apart s"
  "spaces_apart (s\<lparr>current_process := cp\<rparr>) = spaces_apart s"
  by (simp_all add: spaces_apart_def heap_end_def)

lemma scanned_simps [simp]: "scanned (upd_proc p f s) = scanned s"
  by (simp add: scanned_def)

lemma process_create_outcome:
  assumes sp: "spaces_apart s" and tab: "table_ok s"
  obtains (failed) s' where "process_create name entry priority s = Some (0, s')" "\<not> can_create s" "spaces_apart s'"
      "heap_live s' = heap_live s" "free_set s' = free_set s" "process_table s' = process_table s"
      "current_process s' = current_process s" "1 \<le> next_pid s'" "next_pid s' \<le> MAX_PROCESSES"
      "\<forall>q. proc_block q s \<longrightarrow> procs s' q = procs s q"
    | (created) p i d k f n1 n2 s' where "process_create name entry priority s = Some (p, s')" "p \<noteq> 0" "can_create s"
      "fst (process_get_next_pid s) = int i" "spaces_apart s'" "1 \<le> i" "i < MAX_PROCESSES" "process_table s i = 0" "process_table s' = (process_table s)(i := p)"
      "current_process s' = current_process s" "next_pid s' = i + 1" "kernel_directory s' = kernel_directory s"
      "procs s' = (procs s)(p := ready_process (int i) name entry priority d k s)" "\<not> proc_block p s"
      "heap_live s' = {(unat p, n1), (unat k, n2)} \<union> heap_live s" "168 \<le> n1" "8192 \<le> n2"
      "{unat p..<unat p + n1} \<inter> payload (heap_live s) = {}"
      "{unat k..<unat k + n2} \<inter> payload (insert (unat p, n1) (heap_live s)) = {}"
      "f \<in> free_set s" "unat d = f * 4096" "free_set s' = free_set s - {f}"
proof -
  note S = spaces_apartD [OF sp]
  have T: "1 \<le> next_pid s" "next_pid s \<le> MAX_PROCESSES" using tab by (simp_all add: table_ok_def)
  obtain pid s1 where g: "process_get_next_pid s = (pid, s1)" by (rule prod.exhaust)
  show thesis using T g
  proof (cases rule: next_pid_cases)
    case full
    then have "process_create name entry priority s = Some (0, s)" by (simp add: process_create_def g)
    then show thesis using full sp T by (intro failed [of s]) (auto simp: can_create_def)
  next
    case (free i)
    have sp1: "spaces_apart s1" using sp by (simp add: free(5) spaces_apart_def heap_end_def)
    note S1 = spaces_apartD [OF sp1]
    obtain p s2 where k1: "kmalloc sizeof_process s1 = Some (p, s2)" using kmalloc_total [OF S1(1)] by blast
    note m1 = kmalloc_more [OF k1] and q1 = more_proc [OF kmalloc_more(1) [OF k1]]
      and i1 = kmalloc_iff [OF S1(1) _ k1, unfolded round8_proc, simplified]
    show thesis
    proof (cases "p = 0")
      case True
      then have "process_create name entry priority s = Some (0, s2)" using free(1) k1 by (simp add: process_create_def g)
      moreover have "\<not> can_create s" using i1(1) True free(5) by (simp add: can_create_def)
      ultimately show thesis using kmalloc_space [OF sp1 k1] kmalloc_laws(2) [OF S1(1) k1] True m1 q1 free
        by (intro failed [of s2]) auto
    next
      case False
      obtain n1 where n1: "168 \<le> n1" "heap_live s2 = insert (unat p, n1) (heap_live s)" "(unat p, n1) \<notin> heap_live s"
        "{unat p..<unat p + n1} \<inter> payload (heap_live s) = {}"
        using kmalloc_block [OF S1(1) k1 False] free(5) by auto
      let ?s3 = "upd_proc p (\<lambda>_. blank_process pid name priority s2) s2"
      have sp3: "spaces_apart ?s3" using kmalloc_space [OF sp1 k1] by simp
      obtain d s4 where c: "vmm_create_address_space ?s3 = (d, s4)" by (rule prod.exhaust)
      note C = create_space [OF sp3 c] and q4 = more_proc [OF more_heap(3) [OF create_space(1) [OF sp3 c]]]
        and st = process_create_stages [OF g _ k1 False c, where entry = entry, unfolded free(1), OF of_nat_0_le_iff]
      let ?s5 = "upd_proc p (\<lambda>q. q\<lparr>p_page_directory := d\<rparr>) s4"
      have np: "\<not> proc_block p s" by (rule not_live_block [OF n1(4,1)])
      have L4: "heap_live s4 = insert (unat p, n1) (heap_live s)" using C(5) n1(2) by simp
      show thesis
      proof (cases "d = 0")
        case d0: True
        have H: "heap_ok (kfree p ?s5)" "heap_live (kfree p ?s5) = heap_live s"
          using kfree_undo [of ?s5, OF _ _ n1(3)] spaces_apartD(1) [OF C(3)] L4 by simp_all
        have "\<not> can_create s" using C(8) d0 m1(3,6) free(5) by (simp add: can_create_def)
        moreover have "spaces_apart (kfree p ?s5)"
          by (rule spaces_apart_keep [OF sp H(1)])
            (use spaces_apartD(2) [OF C(3)] C(2) C(6) [OF d0] m1 free(5) more_heap(1) [OF C(1)] in auto)
        moreover have "procs (kfree p ?s5) q = procs s q" if "proc_block q s" for q
          using np that more_proc(1) [of "kfree p ?s5" ?s5] q4(1) q1(1) free(5) by auto
        ultimately show thesis
          using st(1) [OF d0] H more_proc(2-4) [of "kfree p ?s5" ?s5] q4(2-4) q1(2-4) free C(6) [OF d0] m1(3)
          by (intro failed [of "kfree p ?s5"]) auto
      next
        case d0: False
        obtain f where f: "f \<in> free_set s" "unat d = f * 4096" "free_set s4 = free_set s - {f}"
          using C(7) [OF d0] m1(3) free(5) by auto
        have sp5: "spaces_apart ?s5" using C(3) by simp
        obtain k s6 where k2: "kmalloc KERNEL_STACK_SIZE ?s5 = Some (k, s6)"
          using kmalloc_total [OF spaces_apartD(1) [OF sp5]] by blast
        note m2 = kmalloc_more [OF k2] and q2 = more_proc [OF kmalloc_more(1) [OF k2]]
          and i2 = kmalloc_iff [OF spaces_apartD(1) [OF sp5] _ k2, unfolded round8_proc, simplified]
          and D = destroy_created [OF sp3 c d0 k2] and sp6 = kmalloc_space [OF sp5 k2]
        have can: "can_create s \<longleftrightarrow> k \<noteq> 0"
          using i1 i2 C(4,8) d0 False free m1(3,6) by (auto simp: can_create_def split: option.splits)
        show thesis
        proof (cases "k = 0")
          case k0: True
          let ?t = "vmm_destroy_address_space d s6"
          note M = more_heap [OF destroy_more [of d s6]]
          have hk: "heap_ok ?t" "heap_live ?t = heap_live s6"
            using heap_ok_agree [OF spaces_apartD(1) [OF sp6] M(1,2)] D(3) by simp_all
          have H: "heap_ok (kfree p ?t)" "heap_live (kfree p ?t) = heap_live s"
            using kfree_undo [OF hk(1) _ n1(3)] hk(2) kmalloc_laws(2) [OF spaces_apartD(1) [OF sp5] k2] k0 L4 by auto
          have F: "free_set (kfree p ?t) = free_set s" using D(1) m1(3) free(5) by simp
          have "spaces_apart (kfree p ?t)"
            by (rule spaces_apart_keep [OF sp H(1)])
              (use D(2,4) F C(2) m1 m2 free(5) M(1) more_heap(1) [OF C(1)] in auto)
          moreover have "procs (kfree p ?t) q = procs s q" if "proc_block q s" for q
            using np that more_proc(1) [of "kfree p ?t" s6] M(3) q2(1) q4(1) q1(1) free(5) by auto
          ultimately show thesis
            using st(2) [OF d0] k2 k0 can H F more_proc(2-4) [of "kfree p ?t" s6] M(3) q2(2-4) q4(2-4) q1(2-4) free
            by (intro failed [of "kfree p ?t"]) auto
        next
          case k0: False
          obtain n2 where n2': "unat KERNEL_STACK_SIZE \<le> n2" "heap_live s6 = insert (unat k, n2) (heap_live ?s5)"
            "{unat k..<unat k + n2} \<inter> payload (heap_live ?s5) = {}"
            by (rule kmalloc_block [OF spaces_apartD(1) [OF sp5] k2 k0]) simp_all
          have n2: "8192 \<le> n2" "heap_live s6 = insert (unat k, n2) (insert (unat p, n1) (heap_live s))"
            "{unat k..<unat k + n2} \<inter> payload (insert (unat p, n1) (heap_live s)) = {}"
            using n2' unfolding upd_heap L4 by simp_all
          have "procs s4 p = blank_process (int i) name priority s2" using q4(1) by (simp add: free(1))
          from st(3) [OF d0 k2 k0 this D(5), unfolded nat_int] obtain fm xs where r: "process_create name entry priority s = Some (p, kprintf fm xs
            (s6\<lparr>procs := (procs s6)(p := ready_process (int i) name entry priority d k s2),
              process_table := (process_table s6)(i := p)\<rparr>))" (is "_ = Some (p, ?s')") by blast
          have rp: "ready_process (int i) name entry priority d k s2 = ready_process (int i) name entry priority d k s"
            using q1(1,3) free(5) by (simp add: ready_process_def blank_process_def)
          have pid: "fst (process_get_next_pid s) = int i" using g free(1) by simp
          have kd: "kernel_directory ?s' = kernel_directory s" using m1(2) m2(2) C(2) free(5) by simp
          have P: "procs ?s' = (procs s)(p := ready_process (int i) name entry priority d k s)"
            using q2(1) q4(1) q1(1) free(5) by (simp add: rp)
          have "process_table ?s' = (process_table s)(i := p)" "current_process ?s' = current_process s" "next_pid ?s' = i + 1"
            using q2(2-4) q4(2-4) q1(2-4) free(5) by simp_all
          moreover have "spaces_apart ?s'" using sp6 by simp
          moreover have "heap_live ?s' = {(unat p, n1), (unat k, n2)} \<union> heap_live s" using n2(2) by auto
          moreover have "free_set ?s' = free_set s - {f}" using f(3) m2(3) by simp
          moreover have "can_create s" using can k0 by simp
          ultimately show thesis
            by (intro created [OF r False _ pid _ free(2-4) _ _ _ kd P np _ n1(1) n2(1) n1(4) n2(3) f(1,2)])
        qed
      qed
    qed
  qed
qed


section \<open>Properties\<close>

text \<open>A machine with a fresh heap, ten free frames and no process.\<close>

definition fresh_proc :: kproc where
  "fresh_proc = kheap_init 0x200000 (boot_proc\<lparr>frame_bitmap := frame_bitmap small_pmm,
     total_frames := total_frames small_pmm, used_frames := used_frames small_pmm, kernel_directory := 0x1000\<rparr>)"

lemma init_fields:
  "heap_start (kheap_init a s) = a" "kernel_directory (kheap_init a s) = kernel_directory s"
  "free_set (kheap_init a s) = free_set s" "pmm_ok (kheap_init a s) = pmm_ok s"
  "total_frames (kheap_init a s) = total_frames s" "kheap.more (kheap_init a s) = kheap.more s"
  "used_frames (kheap_init a s) = used_frames s" "frame_bitmap (kheap_init a s) = frame_bitmap s"
  by (simp_all add: kheap_init_def Let_def free_set_def pmm_ok_def bitmap_test_def)

lemma fresh_proc_frames: "free_set fresh_proc = {3..<13}" "pmm_ok fresh_proc" "scanned fresh_proc = 16"
proof -
  have "free_set fresh_proc = free_set small_pmm" "pmm_ok fresh_proc = pmm_ok small_pmm"
    by (simp_all add: fresh_proc_def init_fields free_set_def pmm_ok_def bitmap_test_def)
  then show "free_set fresh_proc = {3..<13}" "pmm_ok fresh_proc" using small_free small_ok by simp_all
  show "scanned fresh_proc = 16" by (simp add: scanned_def fresh_proc_def init_fields small_pmm_def)
qed

lemma fresh_proc_heap: "heap_ok fresh_proc" "blocks_of fresh_proc = [(4194288, True)]" "heap_live fresh_proc = {}"
  "heap_start fresh_proc = 0x200000" "kernel_directory fresh_proc = 0x1000"
  by (simp_all add: fresh_proc_def heap_live_def init_fields kheap_init_blocks)

lemma fresh_proc_table: "process_table fresh_proc = (\<lambda>_. 0)" "next_pid fresh_proc = 1" "current_process fresh_proc = 0"
proof -
  have "kheap.more fresh_proc = kheap.more boot_proc" by (simp add: fresh_proc_def init_fields)
  note more_proc [OF this]
  moreover have "process_table boot_proc = (\<lambda>_. 0)" "next_pid boot_proc = 1" "current_process boot_proc = 0"
    by (simp_all add: boot_proc_def kproc.defs kheap.defs)
  ultimately show "process_table fresh_proc = (\<lambda>_. 0)" "next_pid fresh_proc = 1" "current_process fresh_proc = 0"
    by simp_all
qed

lemma fresh_proc_ok: "spaces_apart fresh_proc" "table_ok fresh_proc" "can_create fresh_proc"
proof -
  have "kernel_directory fresh_proc \<notin> dir_pages (of_nat (f * 4096))" if "f \<in> {3..<13}" for f
  proof -
    from that have "f = 3 \<or> f = 4 \<or> f = 5 \<or> f = 6 \<or> f = 7 \<or> f = 8 \<or> f = 9 \<or> f = 10 \<or> f = 11 \<or> f = 12" by (simp; arith)
    then show ?thesis by (auto simp: dir_pages_def fresh_proc_heap)
  qed
  then show "spaces_apart fresh_proc"
    unfolding spaces_apart_def fresh_proc_frames fresh_proc_heap
    by (auto simp: fresh_proc_heap fresh_proc_frames heap_end_def page_aligned_nat)
  show "table_ok fresh_proc" by (simp add: table_ok_def fresh_proc_table)
  have "\<exists>i. 1 \<le> i \<and> i < MAX_PROCESSES \<and> process_table fresh_proc i = 0"
    by (rule exI [of _ 1]) (simp add: fresh_proc_table)
  then show "can_create fresh_proc"
    by (auto simp: can_create_def fresh_proc_heap fresh_proc_frames carve_def disjoint_iff intro: exI [of _ 3])
qed

lemma process_created:
  assumes "spaces_apart s" "table_ok s" "can_create s"
  shows "\<exists>p i d k f n1 n2 s'. process_create name entry priority s = Some (p, s') \<and> p \<noteq> 0 \<and>
     fst (process_get_next_pid s) = int i \<and> 1 \<le> i \<and> i < MAX_PROCESSES \<and> process_table s i = 0 \<and> process_table s' = (process_table s)(i := p) \<and>
     procs s' = (procs s)(p := ready_process (int i) name entry priority d k s) \<and>
     heap_live s' = {(unat p, n1), (unat k, n2)} \<union> heap_live s \<and> 168 \<le> n1 \<and> 8192 \<le> n2 \<and>
     {unat p..<unat p + n1} \<inter> payload (heap_live s) = {} \<and>
     {unat k..<unat k + n2} \<inter> payload (insert (unat p, n1) (heap_live s)) = {} \<and>
     f \<in> free_set s \<and> unat d = f * 4096 \<and> free_set s' = free_set s - {f} \<and> spaces_apart s' \<and> table_ok s'"
  using assms(1,2)
proof (cases rule: process_create_outcome [where name = name and entry = entry and priority = priority])
  case (failed s')
  then show ?thesis using assms(3) by blast
next
  case (created p i d k f n1 n2 s')
  have "proc_block p s'" using created(15,16) unfolding proc_block_def by auto
  moreover have "proc_block q s \<Longrightarrow> proc_block q s'" for q using created(15) unfolding proc_block_def by blast
  moreover have "p_pid (ready_process (int i) name entry priority d k s) = int i"
    by (simp add: ready_process_def blank_process_def)
  ultimately have "table_ok s'"
    using assms(2) created(6-9,11,13,14) unfolding table_ok_def by auto
  then show ?thesis using created by blast
qed




definition no_frames :: kproc where
  "no_frames = fresh_proc\<lparr>frame_bitmap := (\<lambda>_. 0xFF), used_frames := 16\<rparr>"

lemma no_frames_ok: "spaces_apart no_frames" "table_ok no_frames" "\<not> can_create no_frames" "heap_live no_frames = {}"
proof -
  have "heap_ok no_frames" "heap_live no_frames = {}"
    using fresh_proc_heap(1,3) by (simp_all add: no_frames_def heap_ok_def blocks_of_def heap_end_def heap_live_def)
  have "bitmap_test (of_nat f) no_frames" if "f < 16" for f
  proof -
    have "\<forall>f \<in> set [0..<16]. bitmap_test (of_nat f) (boot_pmm\<lparr>frame_bitmap := \<lambda>_. 0xFF\<rparr>)" by code_simp
    then show ?thesis using that by (simp add: bitmap_test_def no_frames_def del: upt_rec_numeral)
  qed
  moreover have "unat (total_frames no_frames) = 16" "unat (used_frames no_frames) = 16"
    by (simp_all add: no_frames_def fresh_proc_def init_fields small_pmm_def)
  ultimately have F: "free_set no_frames = {}" "pmm_ok no_frames" by (auto simp: free_set_def pmm_ok_def)
  show "heap_live no_frames = {}" by fact
  show "spaces_apart no_frames"
    using \<open>heap_ok no_frames\<close> F fresh_proc_ok(1) unfolding spaces_apart_def
    by (simp add: no_frames_def heap_end_def)
  show "table_ok no_frames" using fresh_proc_table by (simp add: table_ok_def no_frames_def)
  show "\<not> can_create no_frames" by (simp add: can_create_def F)
qed



text \<open>
  \<^verbatim>\<open>process_get_next_pid\<close> finds an identifier whenever there is one: it returns -1 exactly when the slots 1 to 255
  are all taken, and otherwise an identifier in that range whose slot is free, wherever the cursor stands.
\<close>

theorem process_get_next_pid_complete:
  assumes "1 \<le> next_pid s" "next_pid s \<le> MAX_PROCESSES"
  shows "case process_get_next_pid s of (pid, s') \<Rightarrow>
     (pid = - 1 \<longleftrightarrow> (\<forall>i \<in> {1..<MAX_PROCESSES}. process_table s i \<noteq> 0)) \<and>
     (pid \<noteq> - 1 \<longrightarrow> 1 \<le> pid \<and> pid < int MAX_PROCESSES \<and> process_get_by_pid pid s = 0) \<and>
     process_table s' = process_table s \<and> 1 \<le> next_pid s' \<and> next_pid s' \<le> MAX_PROCESSES"
proof -
  obtain pid s' where g: "process_get_next_pid s = (pid, s')" by (rule prod.exhaust)
  show ?thesis using assms g
    by (cases rule: next_pid_cases) (use assms in \<open>auto simp: g process_get_by_pid_def\<close>)
qed

theorem process_get_next_pid_complete_witness: "fst (process_get_next_pid fresh_proc) \<noteq> - 1"
proof -
  have "\<not> (\<forall>i \<in> {1..<MAX_PROCESSES}. process_table fresh_proc i \<noteq> 0)"
    by (auto simp: fresh_proc_table intro: bexI [of _ 1])
  then show ?thesis using process_get_next_pid_complete [of fresh_proc]
    by (auto simp: fresh_proc_table case_prod_beta)
qed

lemma terminate_simps:
  assumes "p \<noteq> 0"
  shows "process_table (process_terminate p c s) =
      (let pid = p_pid (procs s p) in if pid > 0 \<and> pid < int MAX_PROCESSES then (process_table s)(nat pid := 0) else process_table s)"
    "procs (process_terminate p c s) = (procs s)(p := (procs s p)\<lparr>p_state := PROCESS_TERMINATED, p_exit_code := c\<rparr>)"
    "next_pid (process_terminate p c s) = next_pid s" "current_process (process_terminate p c s) = current_process s"
    "heap_live (process_terminate p c s) = heap_live s" "free_set (process_terminate p c s) = free_set s"
  using assms by (simp_all add: process_terminate_def Let_def)

text \<open>
  Terminating a process of the table clears its slot, so that its identifier can be given out again, marks the record
  and keeps the invariant and every other entry. Nothing of it is released: the heap blocks of the
  record and of the stack stay live and the frames of its address space stay in use.
\<close>

theorem process_terminate_leaks:
  assumes "table_ok s" "process_table s i = p" "p \<noteq> 0" "i < MAX_PROCESSES"
  shows "let s' = process_terminate p c s in table_ok s' \<and> process_table s' = (process_table s)(i := 0) \<and>
     process_get_by_pid (int i) s' = 0 \<and> fst (process_get_next_pid s') \<noteq> - 1 \<and>
     p_state (procs s' p) = PROCESS_TERMINATED \<and> p_exit_code (procs s' p) = c \<and>
     heap_live s' = heap_live s \<and> free_set s' = free_set s"
proof -
  let ?s' = "process_terminate p c s"
  have i: "p_pid (procs s p) = int i" "process_table s 0 = 0" using assms unfolding table_ok_def by auto
  then have i0: "i \<noteq> 0" using assms(2,3) by (cases i) auto
  note T = terminate_simps [OF assms(3), of c s]
  have pt: "process_table ?s' = (process_table s)(i := 0)" using T(1) i(1) i0 assms(4) by simp
  have b: "proc_block q ?s' = proc_block q s" for q by (simp add: proc_block_def T(5))
  have "table_ok ?s'" using assms(1) unfolding table_ok_def b pt T(2,3) by auto
  moreover have "fst (process_get_next_pid ?s') \<noteq> - 1"
  proof -
    obtain pid s2 where g: "process_get_next_pid ?s' = (pid, s2)" by (rule prod.exhaust)
    have "1 \<le> next_pid ?s'" "next_pid ?s' \<le> MAX_PROCESSES" using assms(1) T(3) by (simp_all add: table_ok_def)
    then have "pid \<noteq> - 1" using g
    proof (cases rule: next_pid_cases)
      case full
      then show ?thesis using i0 assms(4) pt by (auto dest: spec [of _ i])
    qed simp
    then show ?thesis by (simp add: g)
  qed
  ultimately show ?thesis unfolding Let_def using pt T assms(4) by (simp add: process_get_by_pid_def)
qed

theorem process_terminate_leaks_witness:
  "\<exists>(s :: kproc) p. p \<noteq> 0 \<and> process_get_by_pid 1 s = p \<and> process_get_by_pid 1 (process_terminate p 3 s) = 0 \<and>
     heap_live (process_terminate p 3 s) \<noteq> {}"
proof -
  have n: "fst (process_get_next_pid fresh_proc) = 1"
    by (simp add: process_get_next_pid_def fresh_proc_table upt_conv_Cons)
  show ?thesis using process_created [OF fresh_proc_ok, of "lit ''init''" "0x100400" 1]
  proof (elim exE conjE, goal_cases)
    case (1 p i d k f n1 n2 s')
    then have "i = 1" using n by simp
    then have "process_table s' 1 = p" "(unat p, n1) \<in> heap_live s'" using 1(7,9) by simp_all
    then show ?case using process_terminate_leaks [of s' 1 p 3] 1(2,18)
      by (intro exI [of _ s'] exI [of _ p]) (auto simp: Let_def process_get_by_pid_def)
  qed
qed

text \<open>
  C19: Initialisation creates the idle process through \<^verbatim>\<open>process_create\<close> and then renumbers it: it sits in slot 1 of the
  table while its own identifier is 0. So identifier 1 resolves to a process that reports 0, identifier 0
  resolves to nothing, the table violates its invariant from the start, and terminating the idle process
  does not clear its slot.
\<close>

theorem process_init_misfiles_idle:
  assumes "spaces_apart s" "next_pid s = 1" "can_create (s\<lparr>process_table := (\<lambda>_. 0)\<rparr>)"
  shows "\<exists>idle s'. process_init s = Some s' \<and> idle \<noteq> 0 \<and> process_get_current s' = idle \<and>
     p_state (procs s' idle) = PROCESS_RUNNING \<and> p_page_directory (procs s' idle) = vmm_get_kernel_directory s \<and>
     process_get_by_pid 1 s' = idle \<and> p_pid (procs s' idle) = 0 \<and> process_get_by_pid 0 s' = 0 \<and>
     \<not> table_ok s' \<and> process_get_by_pid 1 (process_terminate idle c s') = idle"
proof -
  let ?s1 = "s\<lparr>process_table := (\<lambda>_. 0), current_process := 0\<rparr>"
  have sp: "spaces_apart ?s1" using assms(1) by simp
  have tab: "table_ok ?s1" using assms(2) by (simp add: table_ok_def)
  have can: "can_create ?s1" using assms(3) by (simp add: can_create_def)
  show ?thesis using sp tab
  proof (cases rule: process_create_outcome [where name = "lit ''idle''" and entry = 0 and priority = 0])
    case (failed s')
    then show ?thesis using can by blast
  next
    case (created p i d k f n1 n2 s2)
    have "i = 1" using created(4) assms(2) by (simp add: process_get_next_pid_def upt_conv_Cons)
    let ?s' = "kprintf (litln ''[PROC] Process manager initialized'') []
      ((upd_proc p (\<lambda>q. q\<lparr>p_pid := 0, p_state := PROCESS_RUNNING, p_page_directory := vmm_get_kernel_directory s2\<rparr>) s2)
        \<lparr>current_process := p\<rparr>)"
    have "process_init s = Some ?s'"
      using created(1,2) by (simp only: process_init_def Let_def Option.bind.bind_lunit prod.case simp_thms if_True)
    moreover have "process_table ?s' = (\<lambda>_. 0)(1 := p)" using created(9) \<open>i = 1\<close> by simp
    moreover have "p_pid (procs ?s' p) = 0" "p_state (procs ?s' p) = PROCESS_RUNNING" "current_process ?s' = p"
      "p_page_directory (procs ?s' p) = vmm_get_kernel_directory s"
      using created(12) by (simp_all add: vmm_get_kernel_directory_def)
    moreover have "\<not> table_ok ?s'"
    proof
      assume "table_ok ?s'"
      then have "p_pid (procs ?s' (process_table ?s' 1)) = int 1"
        using calculation(2) created(2) unfolding table_ok_def by (auto dest: spec [of _ 1])
      then show False using calculation(2,3) by simp
    qed
    moreover have "process_table (process_terminate p c ?s') = process_table ?s'"
      using terminate_simps(1) [OF created(2), of c ?s'] calculation(3) by simp
    ultimately show ?thesis using created(2)
      by (intro exI [of _ p] exI [of _ ?s']) (simp add: process_get_by_pid_def process_get_current_def)
  qed
qed

theorem process_init_misfiles_idle_witness:
  "\<exists>idle s'. process_init fresh_proc = Some s' \<and> idle \<noteq> 0 \<and> process_get_by_pid 1 s' = idle \<and> p_pid (procs s' idle) = 0"
proof -
  have "can_create (fresh_proc\<lparr>process_table := (\<lambda>_. 0)\<rparr>)"
    using fresh_proc_ok(3) by (simp add: can_create_def fresh_proc_table)
  from process_init_misfiles_idle [OF fresh_proc_ok(1) fresh_proc_table(2) this] show ?thesis by blast
qed

end
