(* ===== verification/Fifo.thy ===== *)
theory Fifo
  imports Prelude
begin

text \<open>
  The interface of a first-in first-out queue, as the ready queue of the scheduler and the ring buffer of the
  keyboard provide it: a representation relation between states and lists, a condition under which
  an element may be put, and the two operations. What a client relies on is proved once here, for
  every interleaving of the two operations.
\<close>

locale fifo_queue =
  fixes queue :: "'s \<Rightarrow> 'a list \<Rightarrow> bool"
    and room :: "'a \<Rightarrow> 'a list \<Rightarrow> bool"
    and put :: "'a \<Rightarrow> 's \<Rightarrow> 's"
    and get :: "'s \<Rightarrow> 'a \<times> 's"
  assumes put_end: "queue s xs \<Longrightarrow> room x xs \<Longrightarrow> queue (put x s) (xs @ [x])"
    and get_front: "queue s (x # xs) \<Longrightarrow> queue (snd (get s)) xs"
    and get_value: "queue s (x # xs) \<Longrightarrow> fst (get s) = x"
begin

text \<open>A history of the queue: what was put in, what came out, in this order, from a contents to a contents.\<close>

inductive fifo_run :: "'s \<Rightarrow> 'a list \<Rightarrow> 'a list \<Rightarrow> 'a list \<Rightarrow> 'a list \<Rightarrow> 's \<Rightarrow> bool" where
  start: "queue s xs \<Longrightarrow> fifo_run s xs [] [] xs s"
| put: "fifo_run s xs ins outs ys t \<Longrightarrow> room x ys \<Longrightarrow> fifo_run s xs (ins @ [x]) outs (ys @ [x]) (put x t)"
| get: "fifo_run s xs ins outs (y # ys) t \<Longrightarrow> fifo_run s xs ins (outs @ [fst (get t)]) ys (snd (get t))"

lemma fifo_run_order: "fifo_run s xs ins outs ys t \<Longrightarrow> queue t ys \<and> outs @ ys = xs @ ins"
proof (induction rule: fifo_run.induct)
  case (put s xs ins outs ys t x)
  then show ?case using put_end [of t ys x] by simp
next
  case (get s xs ins outs y ys t)
  then have q: "queue t (y # ys)" "outs @ y # ys = xs @ ins" by simp_all
  have "queue (snd (get t)) ys" by (rule get_front [OF q(1)])
  then show ?case using get_value [OF q(1)] q(2) by simp
qed simp

end

end
