(* ===== verification/Scheduler.thy ===== *)
theory Scheduler
  imports Process Fifo
begin

text \<open>
  The round-robin scheduler, \<^verbatim>\<open>kernel/process/scheduler.c\<close>. The ready queue is a singly linked list
  through the \<^verbatim>\<open>next\<close> fields of the process records. The model reads it as a list of addresses, shows that
  adding, removing and taking the head refine the list operations, and follows the queue
  through sequences of timer ticks. The switch itself is the effect of the inline assembly on the
  stack pointer, the instruction pointer, the two contexts and the words pushed.
\<close>

unbundle bit_operations_syntax

section \<open>State\<close>

record ksched = kproc +
  ready_queue_head :: u32
  ready_queue_tail :: u32
  ticks_remaining :: u32
  scheduler_enabled :: bool
  switch_label :: u32

text \<open>
  The last field is the address of the local label in \<^verbatim>\<open>context_switch\<close>, which the linker fixes and no
  operation changes.
\<close>

definition boot_sched :: ksched where
  "boot_sched = kproc.extend boot_proc (ksched.fields 0 0 0 False 0x101000)"

abbreviation (input) SCHEDULER_QUANTUM :: u32 where
  "SCHEDULER_QUANTUM \<equiv> 20"

section \<open>Operations\<close>

definition scheduler_init :: "'a ksched_scheme \<Rightarrow> 'a ksched_scheme" where
  "scheduler_init s =
     kprintf (litln ''[SCHED] Round-robin scheduler initialized (quantum=%d ticks)'') [VInt SCHEDULER_QUANTUM]
       (s\<lparr>ready_queue_head := 0, ready_queue_tail := 0, ticks_remaining := SCHEDULER_QUANTUM,
          scheduler_enabled := True\<rparr>)"

definition set_next :: "u32 \<Rightarrow> u32 \<Rightarrow> 'a kproc_scheme \<Rightarrow> 'a kproc_scheme" where
  "set_next p n s = upd_proc p (\<lambda>q. q\<lparr>p_next := n\<rparr>) s"

definition set_state :: "u32 \<Rightarrow> process_state_t \<Rightarrow> 'a kproc_scheme \<Rightarrow> 'a kproc_scheme" where
  "set_state p st s = upd_proc p (\<lambda>q. q\<lparr>p_state := st\<rparr>) s"

definition scheduler_add :: "u32 \<Rightarrow> 'a ksched_scheme \<Rightarrow> 'a ksched_scheme" where
  "scheduler_add proc s =
     (if proc = 0 then s
      else let s1 = set_next proc 0 s
           in if ready_queue_head s1 = 0 then s1\<lparr>ready_queue_head := proc, ready_queue_tail := proc\<rparr>
              else (set_next (ready_queue_tail s1) proc s1)\<lparr>ready_queue_tail := proc\<rparr>)"

text \<open>The search for the predecessor; it need not end on a cyclic list.\<close>

partial_function (option) find_prev :: "u32 \<Rightarrow> u32 \<Rightarrow> (u32 \<Rightarrow> process_t) \<Rightarrow> u32 option" where
  "find_prev proc prev ps =
     (if prev \<noteq> 0 \<and> p_next (ps prev) \<noteq> proc then find_prev proc (p_next (ps prev)) ps else Some prev)"

declare find_prev.simps [code]

definition scheduler_remove :: "u32 \<Rightarrow> 'a ksched_scheme \<Rightarrow> 'a ksched_scheme option" where
  "scheduler_remove proc s =
     (if proc = 0 then Some s
      else if ready_queue_head s = proc then
        (let s1 = s\<lparr>ready_queue_head := p_next (procs s proc)\<rparr>;
             s2 = (if ready_queue_head s1 = 0 then s1\<lparr>ready_queue_tail := 0\<rparr> else s1)
         in Some (set_next proc 0 s2))
      else do {
        prev \<leftarrow> find_prev proc (ready_queue_head s) (procs s);
        if prev \<noteq> 0 then
          (let s1 = set_next prev (p_next (procs s proc)) s;
               s2 = (if ready_queue_tail s1 = proc then s1\<lparr>ready_queue_tail := prev\<rparr> else s1)
           in Some (set_next proc 0 s2))
        else Some s
      })"

text \<open>
  The inline assembly. The return address it leaves for the previous process is the label, where
  the resumed process pops its frame pointer.
\<close>

definition pushl :: "u32 \<Rightarrow> 'a kmach_scheme \<Rightarrow> 'a kmach_scheme" where
  "pushl v s = s\<lparr>cpu_esp := cpu_esp s - 4, mem := store32 (mem s) (cpu_esp s - 4) v\<rparr>"

definition set_ctx :: "u32 \<Rightarrow> (cpu_context_t \<Rightarrow> cpu_context_t) \<Rightarrow> 'a kproc_scheme \<Rightarrow> 'a kproc_scheme" where
  "set_ctx p f s = upd_proc p (\<lambda>q. q\<lparr>p_context := f (p_context q)\<rparr>) s"

definition switch_asm :: "u32 \<Rightarrow> u32 \<Rightarrow> 'a ksched_scheme \<Rightarrow> 'a ksched_scheme" where
  "switch_asm prev next s =
     (let s1 = pushl (cpu_ebp s) s;
          s2 = set_ctx prev (\<lambda>c. c\<lparr>ctx_esp := cpu_esp s1\<rparr>) s1;
          s3 = s2\<lparr>cpu_esp := ctx_esp (p_context (procs s2 next))\<rparr>;
          s4 = set_ctx prev (\<lambda>c. c\<lparr>ctx_eip := switch_label s3\<rparr>) s3;
          s5 = pushl (ctx_eip (p_context (procs s4 next))) s4
      in s5\<lparr>cpu_eip := load32 (mem s5) (cpu_esp s5), cpu_esp := cpu_esp s5 + 4\<rparr>)"

definition switch_resume :: "'a ksched_scheme \<Rightarrow> 'a ksched_scheme" where
  "switch_resume s = s\<lparr>cpu_ebp := load32 (mem s) (cpu_esp s), cpu_esp := cpu_esp s + 4\<rparr>"

definition context_switch :: "u32 \<Rightarrow> u32 \<Rightarrow> 'a ksched_scheme \<Rightarrow> 'a ksched_scheme" where
  "context_switch prev next s =
     (if prev = next then s
      else let s1 = tss_set_kernel_stack (p_kernel_stack (procs s next)) s;
               s2 = (if p_page_directory (procs s1 next) \<noteq> 0
                     then vmm_switch_directory (p_page_directory (procs s1 next)) s1 else s1)
           in switch_asm prev next s2)"

text \<open>The code that \<^verbatim>\<open>scheduler_tick\<close> and \<^verbatim>\<open>scheduler_yield\<close> share: take the head, requeue the current process, switch.\<close>

definition take_head :: "'a ksched_scheme \<Rightarrow> 'a ksched_scheme" where
  "take_head s =
     (let s1 = s\<lparr>ready_queue_head := p_next (procs s (ready_queue_head s))\<rparr>
      in if ready_queue_head s1 = 0 then s1\<lparr>ready_queue_tail := 0\<rparr> else s1)"

definition requeue_current :: "u32 \<Rightarrow> 'a ksched_scheme \<Rightarrow> 'a ksched_scheme" where
  "requeue_current current s =
     (if p_state (procs s current) = PROCESS_RUNNING
      then scheduler_add current (set_state current PROCESS_READY s) else s)"

definition run_next :: "u32 \<Rightarrow> u32 \<Rightarrow> 'a ksched_scheme \<Rightarrow> 'a ksched_scheme" where
  "run_next current next s =
     context_switch current next (set_state next PROCESS_RUNNING (requeue_current current (take_head s)))"

definition scheduler_tick :: "registers_t \<Rightarrow> 'a ksched_scheme \<Rightarrow> 'a ksched_scheme" where
  "scheduler_tick regs s =
     (if \<not> scheduler_enabled s then s
      else if ticks_remaining s > 0 then s\<lparr>ticks_remaining := ticks_remaining s - 1\<rparr>
      else let s1 = s\<lparr>ticks_remaining := SCHEDULER_QUANTUM\<rparr>;
               current = process_get_current s1
           in if current = 0 then s1
              else if ready_queue_head s1 = 0 then s1
              else let next = ready_queue_head s1
                   in if next = current then s1 else run_next current next s1)"

definition scheduler_yield :: "'a ksched_scheme \<Rightarrow> 'a ksched_scheme" where
  "scheduler_yield s =
     (let current = process_get_current s
      in if current = 0 \<or> ready_queue_head s = 0 then s
         else let s1 = s\<lparr>ticks_remaining := SCHEDULER_QUANTUM\<rparr>
              in run_next current (ready_queue_head s1) s1)"

definition scheduler_block_current :: "process_state_t \<Rightarrow> 'a ksched_scheme \<Rightarrow> 'a ksched_scheme" where
  "scheduler_block_current reason s =
     (let current = process_get_current s
      in if current = 0 then s else scheduler_yield (set_state current reason s))"

definition scheduler_unblock :: "u32 \<Rightarrow> 'a ksched_scheme \<Rightarrow> 'a ksched_scheme" where
  "scheduler_unblock proc s =
     (if proc = 0 then s else scheduler_add proc (set_state proc PROCESS_READY s))"

section \<open>The ready queue as a list\<close>

fun lpath :: "(u32 \<Rightarrow> u32) \<Rightarrow> u32 \<Rightarrow> u32 list \<Rightarrow> bool" where
  "lpath nx p [] \<longleftrightarrow> p = 0"
| "lpath nx p (x # xs) \<longleftrightarrow> p = x \<and> x \<noteq> 0 \<and> lpath nx (nx x) xs"

definition nexts :: "'a kproc_scheme \<Rightarrow> u32 \<Rightarrow> u32" where
  "nexts s p = p_next (procs s p)"

definition ready :: "'a ksched_scheme \<Rightarrow> u32 list \<Rightarrow> bool" where
  "ready s xs \<longleftrightarrow> lpath (nexts s) (ready_queue_head s) xs \<and> distinct xs \<and>
     (xs \<noteq> [] \<longrightarrow> ready_queue_tail s = last xs) \<and> (xs = [] \<longrightarrow> ready_queue_tail s = 0)"

lemma kprintf_sched [simp]:
  "ready_queue_head (kprintf f a s) = ready_queue_head s" "ready_queue_tail (kprintf f a s) = ready_queue_tail s"
  "ticks_remaining (kprintf f a s) = ticks_remaining s" "scheduler_enabled (kprintf f a s) = scheduler_enabled s"
  "switch_label (kprintf f a s) = switch_label s" "ksched.more (kprintf f a s) = ksched.more s"
  by (subst kprintf_eq; simp)+

lemma upd_proc_sched [simp]:
  "ready_queue_head (upd_proc p f s) = ready_queue_head s" "ready_queue_tail (upd_proc p f s) = ready_queue_tail s"
  "ticks_remaining (upd_proc p f s) = ticks_remaining s" "scheduler_enabled (upd_proc p f s) = scheduler_enabled s"
  "switch_label (upd_proc p f s) = switch_label s" "ksched.more (upd_proc p f s) = ksched.more s"
  "cpu_esp (upd_proc p f s) = cpu_esp s" "cpu_ebp (upd_proc p f s) = cpu_ebp s" "cpu_eip (upd_proc p f s) = cpu_eip s"
  by (simp_all add: upd_proc_def)

lemma lpath_cong: "\<forall>x \<in> set xs. nx x = nx' x \<Longrightarrow> lpath nx p xs = lpath nx' p xs"
  by (induction xs arbitrary: p) auto

lemma lpath_nz: "lpath nx p xs \<Longrightarrow> 0 \<notin> set xs"
  by (induction xs arbitrary: p) auto



lemma lpath_snoc:
  "lpath nx h xs \<Longrightarrow> distinct xs \<Longrightarrow> xs \<noteq> [] \<Longrightarrow> p \<noteq> 0 \<Longrightarrow> nx' p = 0 \<Longrightarrow> nx' (last xs) = p \<Longrightarrow>
   \<forall>x \<in> set xs. x \<noteq> last xs \<longrightarrow> nx' x = nx x \<Longrightarrow> lpath nx' h (xs @ [p])"
proof (induction xs arbitrary: h)
  case (Cons x xs)
  show ?case
  proof (cases "xs = []")
    case False
    then have "x \<noteq> last xs" using Cons.prems(2) by (metis distinct.simps(2) last_in_set)
    then show ?thesis using Cons False by simp
  qed (use Cons.prems in simp)
qed simp

lemma lpath_end: "lpath nx h (xs @ [p]) \<Longrightarrow> nx p = 0"
  by (induction xs arbitrary: h) auto

lemma nexts_upd [simp]: "nexts (upd_proc p f s) = (nexts s)(p := p_next (f (procs s p)))"
  by (auto simp: nexts_def)

lemma nexts_sched [simp]:
  "nexts (s\<lparr>ready_queue_head := h\<rparr>) = nexts s" "nexts (s\<lparr>ready_queue_tail := h\<rparr>) = nexts s"
  "nexts (s\<lparr>ticks_remaining := tr\<rparr>) = nexts s"
  by (auto simp: nexts_def)

lemma ready_nz: "ready s xs \<Longrightarrow> 0 \<notin> set xs"
  by (auto simp: ready_def dest: lpath_nz)

lemma ready_head: "ready s xs \<Longrightarrow> ready_queue_head s = (case xs of [] \<Rightarrow> 0 | x # _ \<Rightarrow> x)"
  by (cases xs) (simp_all add: ready_def)

lemma ready_add:
  assumes "ready s xs" "p \<noteq> 0" "p \<notin> set xs"
  shows "ready (scheduler_add p s) (xs @ [p])"
proof (cases "xs = []")
  case True
  then show ?thesis using assms by (simp add: ready_def scheduler_add_def set_next_def Let_def)
next
  case False
  have h: "ready_queue_head s \<noteq> 0" using ready_nz [OF assms(1)] ready_head [OF assms(1)] False by (cases xs) auto
  have t: "ready_queue_tail s = last xs" using assms(1) False by (simp add: ready_def)
  have lp: "last xs \<noteq> p" using False assms(3) by (metis last_in_set)
  have n: "nexts (scheduler_add p s) = (nexts s)(p := 0, last xs := p)"
    using h assms(2) t lp by (simp add: scheduler_add_def Let_def set_next_def)
  have "lpath (nexts (scheduler_add p s)) (ready_queue_head s) (xs @ [p])"
    by (rule lpath_snoc [of "nexts s"]) (use assms False lp in \<open>auto simp: ready_def n\<close>)
  moreover have "ready_queue_head (scheduler_add p s) = ready_queue_head s" "ready_queue_tail (scheduler_add p s) = p"
    using h assms(2) by (simp_all add: scheduler_add_def Let_def set_next_def)
  ultimately show ?thesis using assms unfolding ready_def by simp
qed

lemma ready_take:
  assumes "ready s (x # xs)"
  shows "ready (take_head s) xs"
proof -
  have l: "lpath (nexts s) (nexts s x) xs" "ready_queue_head s = x" "xs \<noteq> [] \<longrightarrow> ready_queue_tail s = last xs"
    using assms by (auto simp: ready_def)
  have "nexts s x = 0 \<longleftrightarrow> xs = []" using l(1) by (cases xs) auto
  then show ?thesis using assms l by (auto simp: ready_def take_head_def Let_def nexts_def)
qed

lemma find_prev_absent:
  "lpath (\<lambda>q. p_next (ps q)) h xs \<Longrightarrow> p \<noteq> 0 \<Longrightarrow> p \<notin> set (tl xs) \<Longrightarrow> find_prev p h ps = Some 0"
proof (induction xs arbitrary: h)
  case Nil
  then show ?case by (simp add: find_prev.simps)
next
  case (Cons x xs)
  have "p_next (ps x) \<noteq> p" using Cons.prems by (cases xs) auto
  moreover have "find_prev p (p_next (ps x)) ps = Some 0" using Cons by (cases xs) auto
  ultimately show ?case using Cons.prems by (simp add: find_prev.simps [of p x])
qed

lemma find_prev_found:
  "lpath (\<lambda>q. p_next (ps q)) h (xs @ a # p # ys) \<Longrightarrow> distinct (xs @ a # p # ys) \<Longrightarrow> find_prev p h ps = Some a"
proof (induction xs arbitrary: h)
  case Nil
  then show ?case by (simp add: find_prev.simps)
next
  case (Cons x xs)
  have "p_next (ps x) \<noteq> p" using Cons.prems by (cases xs) auto
  then show ?case using Cons by (simp add: find_prev.simps [of p x])
qed

lemma lpath_delete:
  "lpath nx h (xs @ a # p # ys) \<Longrightarrow> distinct (xs @ a # p # ys) \<Longrightarrow> nx' a = nx p \<Longrightarrow>
   \<forall>x. x \<noteq> a \<longrightarrow> x \<noteq> p \<longrightarrow> nx' x = nx x \<Longrightarrow> lpath nx' h (xs @ a # ys)"
proof (induction xs arbitrary: h)
  case Nil
  then have "\<forall>y \<in> set ys. nx y = nx' y" by auto
  then show ?case using Nil lpath_cong [of ys nx nx'] by auto
qed auto

lemma ready_remove:
  assumes "ready s xs" "p \<noteq> 0"
  shows "\<exists>s'. scheduler_remove p s = Some s' \<and> ready s' (remove1 p xs)"
proof (cases "ready_queue_head s = p")
  case True
  then obtain ys where xs: "xs = p # ys" using ready_head [OF assms(1)] assms(2) by (cases xs) auto
  have t: "ready (take_head s) ys" "p \<notin> set ys" using ready_take assms(1) by (auto simp: xs ready_def)
  have "scheduler_remove p s = Some (set_next p 0 (take_head s))"
    using True assms(2) by (simp add: scheduler_remove_def take_head_def Let_def)
  moreover have "ready (set_next p 0 (take_head s)) ys"
  proof -
    have "lpath ((nexts (take_head s))(p := 0)) h ys = lpath (nexts (take_head s)) h ys" for h
      by (rule lpath_cong) (use t(2) in auto)
    then show ?thesis using t by (simp add: ready_def set_next_def)
  qed
  ultimately show ?thesis by (simp add: xs)
next
  case False
  have P: "lpath (\<lambda>q. p_next (procs s q)) (ready_queue_head s) xs" "distinct xs"
    using assms(1) by (simp_all add: ready_def nexts_def [abs_def])
  show ?thesis
  proof (cases "p \<in> set xs")
    case absent: False
    then have "find_prev p (ready_queue_head s) (procs s) = Some 0"
      using find_prev_absent [OF P(1) assms(2)] by (cases xs) auto
    then show ?thesis using False absent assms by (simp add: scheduler_remove_def remove1_idem)
  next
    case True
    then obtain us ys where "xs = us @ p # ys" "us \<noteq> []"
      using False ready_head [OF assms(1)] by (metis append_Nil list.simps(5) split_list)
    then obtain zs a where xs: "xs = zs @ a # p # ys" by (metis append.assoc append_Cons append_Nil rev_exhaust)
    have f: "find_prev p (ready_queue_head s) (procs s) = Some a"
      using find_prev_found P unfolding xs by blast
    have a: "a \<noteq> 0" "a \<noteq> p" using ready_nz [OF assms(1)] P(2) by (auto simp: xs)
    define s2 where "s2 = (if ready_queue_tail s = p then (set_next a (nexts s p) s)\<lparr>ready_queue_tail := a\<rparr>
      else set_next a (nexts s p) s)"
    have r: "scheduler_remove p s = Some (set_next p 0 s2)"
      using False assms(2) f a by (simp add: scheduler_remove_def Let_def s2_def nexts_def set_next_def)
    have "nexts (set_next p 0 s2) = (nexts s)(a := nexts s p, p := 0)"
      by (simp add: s2_def set_next_def)
    then have "lpath (nexts (set_next p 0 s2)) (ready_queue_head s) (zs @ a # ys)"
      using lpath_delete [of "nexts s" "ready_queue_head s" zs a p ys] P a(2)
      by (simp add: xs nexts_def [abs_def])
    moreover have "ready_queue_tail s = p \<longleftrightarrow> ys = []"
      using assms(1) P(2) by (auto simp: ready_def xs)
    moreover have "ys \<noteq> [] \<longrightarrow> ready_queue_tail s = last ys" using assms(1) by (simp add: ready_def xs)
    ultimately have "ready (set_next p 0 s2) (zs @ a # ys)"
      using P(2) by (auto simp: ready_def s2_def set_next_def xs)
    moreover have "remove1 p xs = zs @ a # ys" using P(2) by (auto simp: xs remove1_append)
    ultimately show ?thesis using r by simp
  qed
qed


section \<open>The switch\<close>

text \<open>What the switch leaves alone: the queue, the states, everything but the two words it saves in the context of the previous process.\<close>

lemma switch_frame [simp]:
  "ready_queue_head (context_switch a b s) = ready_queue_head s" "ready_queue_tail (context_switch a b s) = ready_queue_tail s"
  "ticks_remaining (context_switch a b s) = ticks_remaining s" "scheduler_enabled (context_switch a b s) = scheduler_enabled s"
  "current_process (context_switch a b s) = current_process s" "nexts (context_switch a b s) = nexts s"
  "p_state (procs (context_switch a b s) q) = p_state (procs s q)" "process_table (context_switch a b s) = process_table s"
  "switch_label (context_switch a b s) = switch_label s"
  by (auto simp: context_switch_def switch_asm_def set_ctx_def pushl_def tss_set_kernel_stack_def
      vmm_switch_directory_def Let_def upd_proc_def nexts_def)

lemma switch_cpu:
  assumes "a \<noteq> b"
  shows "cpu_esp (context_switch a b s) = ctx_esp (p_context (procs s b))"
    "cpu_eip (context_switch a b s) = ctx_eip (p_context (procs s b))"
    "cpu_ebp (context_switch a b s) = cpu_ebp s"
    "p_context (procs (context_switch a b s) a) = (p_context (procs s a))\<lparr>ctx_esp := cpu_esp s - 4, ctx_eip := switch_label s\<rparr>"
    "mem (context_switch a b s) = store32 (store32 (mem s) (cpu_esp s - 4) (cpu_ebp s))
       (ctx_esp (p_context (procs s b)) - 4) (ctx_eip (p_context (procs s b)))"
    "q \<noteq> a \<Longrightarrow> procs (context_switch a b s) q = procs s q"
    "tss_esp0 (tss (context_switch a b s)) = p_kernel_stack (procs s b)"
  using assms
  by (auto simp: context_switch_def switch_asm_def set_ctx_def pushl_def tss_set_kernel_stack_def
      vmm_switch_directory_def Let_def upd_proc_def)

section \<open>One scheduling decision\<close>

lemma add_simps [simp]:
  "ticks_remaining (scheduler_add p s) = ticks_remaining s" "scheduler_enabled (scheduler_add p s) = scheduler_enabled s"
  "current_process (scheduler_add p s) = current_process s" "p_state (procs (scheduler_add p s) q) = p_state (procs s q)"
  "p_context (procs (scheduler_add p s) q) = p_context (procs s q)"
  "cpu_esp (scheduler_add p s) = cpu_esp s" "cpu_ebp (scheduler_add p s) = cpu_ebp s" "cpu_eip (scheduler_add p s) = cpu_eip s"
  "mem (scheduler_add p s) = mem s" "switch_label (scheduler_add p s) = switch_label s"
  "p_kernel_stack (procs (scheduler_add p s) q) = p_kernel_stack (procs s q)"
  by (auto simp: scheduler_add_def set_next_def Let_def)

lemma take_simps [simp]:
  "ticks_remaining (take_head s) = ticks_remaining s" "scheduler_enabled (take_head s) = scheduler_enabled s"
  "current_process (take_head s) = current_process s" "procs (take_head s) = procs s"
  "cpu_esp (take_head s) = cpu_esp s" "cpu_ebp (take_head s) = cpu_ebp s" "cpu_eip (take_head s) = cpu_eip s"
  "mem (take_head s) = mem s" "switch_label (take_head s) = switch_label s"
  by (auto simp: take_head_def Let_def)

lemma ready_state [simp]: "ready (set_state p st s) xs = ready s xs"
proof -
  have "nexts (set_state p st s) = nexts s" by (auto simp: set_state_def nexts_def)
  then show ?thesis by (simp add: ready_def set_state_def)
qed

lemma set_state_simps [simp]:
  "ticks_remaining (set_state p st s) = ticks_remaining s" "scheduler_enabled (set_state p st s) = scheduler_enabled s"
  "current_process (set_state p st s) = current_process s" "ready_queue_head (set_state p st s) = ready_queue_head s"
  "p_state (procs (set_state p st s) q) = (if q = p then st else p_state (procs s q))"
  "p_context (procs (set_state p st s) q) = p_context (procs s q)"
  "cpu_esp (set_state p st s) = cpu_esp s" "cpu_ebp (set_state p st s) = cpu_ebp s" "cpu_eip (set_state p st s) = cpu_eip s"
  "mem (set_state p st s) = mem s" "switch_label (set_state p st s) = switch_label s"
  "p_kernel_stack (procs (set_state p st s) q) = p_kernel_stack (procs s q)"
  by (auto simp: set_state_def)

lemma requeue_simps [simp]:
  "ticks_remaining (requeue_current p s) = ticks_remaining s" "scheduler_enabled (requeue_current p s) = scheduler_enabled s"
  "current_process (requeue_current p s) = current_process s"
  "p_state (procs (requeue_current p s) q) =
     (if q = p \<and> p_state (procs s p) = PROCESS_RUNNING then PROCESS_READY else p_state (procs s q))"
  "p_context (procs (requeue_current p s) q) = p_context (procs s q)"
  "cpu_esp (requeue_current p s) = cpu_esp s" "cpu_ebp (requeue_current p s) = cpu_ebp s" "cpu_eip (requeue_current p s) = cpu_eip s"
  "mem (requeue_current p s) = mem s" "switch_label (requeue_current p s) = switch_label s"
  "p_kernel_stack (procs (requeue_current p s) q) = p_kernel_stack (procs s q)"
  by (auto simp: requeue_current_def)

text \<open>The queue after a decision: the head leaves it, and the current process joins its end while it is running.\<close>

definition rotated :: "u32 \<Rightarrow> bool \<Rightarrow> u32 list \<Rightarrow> u32 list" where
  "rotated cur running xs = tl xs @ (if running then [cur] else [])"

lemma ready_switch [simp]: "ready (context_switch a b s) xs = ready s xs"
  by (simp add: ready_def)

lemma run_next_ready:
  assumes "ready s (n # xs)" "cur \<noteq> 0" "p_state (procs s cur) = PROCESS_RUNNING \<longrightarrow> cur \<notin> set xs"
  shows "ready (run_next cur n s) (rotated cur (p_state (procs s cur) = PROCESS_RUNNING) (n # xs))"
proof -
  have "ready (requeue_current cur (take_head s)) (rotated cur (p_state (procs s cur) = PROCESS_RUNNING) (n # xs))"
    using ready_take [OF assms(1)] assms(2,3) ready_add [of "set_state cur PROCESS_READY (take_head s)" xs cur]
    by (simp add: requeue_current_def rotated_def)
  then show ?thesis by (simp add: run_next_def)
qed

lemma run_next_simps [simp]:
  "ticks_remaining (run_next c n s) = ticks_remaining s" "scheduler_enabled (run_next c n s) = scheduler_enabled s"
  "current_process (run_next c n s) = current_process s" "switch_label (run_next c n s) = switch_label s"
  "p_state (procs (run_next c n s) q) = (if q = n then PROCESS_RUNNING
     else if q = c \<and> p_state (procs s c) = PROCESS_RUNNING then PROCESS_READY else p_state (procs s q))"
  by (simp_all add: run_next_def)

lemma run_next_cpu:
  assumes "c \<noteq> n"
  shows "cpu_esp (run_next c n s) = ctx_esp (p_context (procs s n))" "cpu_eip (run_next c n s) = ctx_eip (p_context (procs s n))"
    "ctx_esp (p_context (procs (run_next c n s) c)) = cpu_esp s - 4"
    "ctx_eip (p_context (procs (run_next c n s) c)) = switch_label s"
  using assms by (simp_all add: run_next_def switch_cpu)


section \<open>Ticks\<close>

abbreviation (input) ticks :: "registers_t \<Rightarrow> nat \<Rightarrow> 'a ksched_scheme \<Rightarrow> 'a ksched_scheme" where
  "ticks regs n s \<equiv> (scheduler_tick regs ^^ n) s"

lemma ticks_add: "ticks regs (m + n) s = ticks regs m (ticks regs n s)"
  by (simp add: funpow_add)

lemma ticks_quantum: "ticks regs (21 * length (x # xs)) s = ticks regs (21 * length xs) (ticks regs 21 s)"
proof -
  have "21 * length (x # xs) = 21 * length xs + 21" by simp
  then show ?thesis by (simp only: ticks_add)
qed

lemma ready_ticks [simp]: "ready (s\<lparr>ticks_remaining := tr\<rparr>) xs = ready s xs"
  by (simp add: ready_def)

lemma ticks_count:
  assumes "scheduler_enabled s" "n \<le> unat (ticks_remaining s)"
  shows "ticks regs n s = s\<lparr>ticks_remaining := ticks_remaining s - of_nat n\<rparr>"
  using assms(2)
proof (induction n)
  case (Suc n)
  then have IH: "ticks regs n s = s\<lparr>ticks_remaining := ticks_remaining s - of_nat n\<rparr>" by simp
  have "n < 4294967296" using Suc_le_lessD [OF Suc.prems] unat_lt32 [of "ticks_remaining s"] by (rule less_trans)
  then have "unat (of_nat n :: u32) = n" by (simp add: unat_of_nat32)
  then have "of_nat n < ticks_remaining s" using Suc.prems by (simp add: word_less_nat_alt)
  then have "ticks_remaining s - of_nat n > 0" by (simp add: word_gt_0)
  then have "scheduler_tick regs (s\<lparr>ticks_remaining := ticks_remaining s - of_nat n\<rparr>) =
      s\<lparr>ticks_remaining := ticks_remaining s - of_nat n - 1\<rparr>"
    using assms(1) by (simp add: scheduler_tick_def)
  then show ?case using IH by (simp add: diff_diff_eq add.commute)
qed simp

text \<open>A quantum that has run down, and the 21 ticks up to the next one.\<close>

definition expired :: "u32 \<Rightarrow> u32 list \<Rightarrow> 'a ksched_scheme \<Rightarrow> bool" where
  "expired cur xs s \<longleftrightarrow> scheduler_enabled s \<and> ticks_remaining s = 0 \<and> current_process s = cur \<and> cur \<noteq> 0 \<and> ready s xs"

lemma quantum:
  assumes "expired cur (n # xs) s" "n \<noteq> cur" "p_state (procs s cur) = PROCESS_RUNNING \<longrightarrow> cur \<notin> set xs"
  defines "s1 \<equiv> run_next cur n (s\<lparr>ticks_remaining := SCHEDULER_QUANTUM\<rparr>)"
  shows "ticks regs 21 s = s1\<lparr>ticks_remaining := 0\<rparr>"
    "expired cur (rotated cur (p_state (procs s cur) = PROCESS_RUNNING) (n # xs)) (s1\<lparr>ticks_remaining := 0\<rparr>)"
proof -
  have h: "ready_queue_head s = n" "n \<noteq> 0" using assms(1) ready_head [of s "n # xs"] ready_nz [of s "n # xs"]
    by (auto simp: expired_def)
  have t: "scheduler_tick regs s = s1"
    using assms(1,2) h by (simp add: scheduler_tick_def expired_def Let_def process_get_current_def s1_def)
  have "ticks regs 21 s = ticks regs 20 (scheduler_tick regs s)"
    using funpow_swap1 [of "scheduler_tick regs" 20 s] by (simp add: numeral_eq_Suc)
  also have "\<dots> = s1\<lparr>ticks_remaining := 0\<rparr>"
    unfolding t using ticks_count [of s1 20 regs] assms(1) by (simp add: s1_def expired_def)
  finally show "ticks regs 21 s = s1\<lparr>ticks_remaining := 0\<rparr>" .
  have "ready (run_next cur n (s\<lparr>ticks_remaining := SCHEDULER_QUANTUM\<rparr>))
      (rotated cur (p_state (procs s cur) = PROCESS_RUNNING) (n # xs))"
    using run_next_ready [of "s\<lparr>ticks_remaining := SCHEDULER_QUANTUM\<rparr>" n xs cur] assms(1,3) by (simp add: expired_def)
  then show "expired cur (rotated cur (p_state (procs s cur) = PROCESS_RUNNING) (n # xs)) (s1\<lparr>ticks_remaining := 0\<rparr>)"
    using assms(1) by (simp add: expired_def s1_def)
qed

text \<open>Once the current process is at the head of the queue, a tick only counts.\<close>

lemma ticks_stuck:
  assumes "ready_queue_head s = current_process s"
  shows "\<exists>tr. ticks regs n s = s\<lparr>ticks_remaining := tr\<rparr>"
proof (induction n)
  case 0
  show ?case by (intro exI [of _ "ticks_remaining s"]) simp
next
  case (Suc n)
  then obtain tr where tr: "ticks regs n s = s\<lparr>ticks_remaining := tr\<rparr>" by blast
  have "scheduler_tick regs (s\<lparr>ticks_remaining := tr\<rparr>) =
      s\<lparr>ticks_remaining := if \<not> scheduler_enabled s then tr else if tr > 0 then tr - 1 else SCHEDULER_QUANTUM\<rparr>"
    using assms by (simp add: scheduler_tick_def Let_def process_get_current_def)
  then show ?case using tr by (intro exI) simp
qed

lemma ticks_drain:
  assumes "expired cur (xs @ [cur]) s" "p_state (procs s cur) = PROCESS_READY"
  shows "let s' = ticks regs (21 * length xs) s in expired cur [cur] s' \<and> p_state (procs s' cur) = PROCESS_READY \<and>
     (\<forall>q \<in> set xs. p_state (procs s' q) = PROCESS_RUNNING) \<and>
     (\<forall>q. q \<notin> set xs \<longrightarrow> p_state (procs s' q) = p_state (procs s q))"
  using assms
proof (induction xs arbitrary: s)
  case (Cons x xs)
  have d: "x \<noteq> cur" "cur \<notin> set xs" "x \<notin> set xs" using Cons.prems(1) by (auto simp: expired_def ready_def)
  define s1 where "s1 = (run_next cur x (s\<lparr>ticks_remaining := SCHEDULER_QUANTUM\<rparr>))\<lparr>ticks_remaining := 0\<rparr>"
  note q = quantum [of cur x "xs @ [cur]" s, folded s1_def]
  have s1: "expired cur (xs @ [cur]) s1" "ticks regs 21 s = s1"
    using q Cons.prems d by (simp_all add: rotated_def)
  have st: "p_state (procs s1 r) = (if r = x then PROCESS_RUNNING else p_state (procs s r))" for r
    using Cons.prems(2) by (simp add: s1_def)
  have e: "ticks regs (21 * length (x # xs)) s = ticks regs (21 * length xs) s1"
    unfolding s1(2) [symmetric] by (rule ticks_quantum)
  note IH = Cons.IH [OF s1(1)]
  show ?case unfolding e using IH Cons.prems(2) d by (auto simp: Let_def st)
qed simp


section \<open>The ready queue implements the interface\<close>

definition dequeue :: "'a ksched_scheme \<Rightarrow> u32 \<times> 'a ksched_scheme" where
  "dequeue s = (ready_queue_head s, take_head s)"

interpretation run_queue: fifo_queue ready "\<lambda>p xs. p \<noteq> 0 \<and> p \<notin> set xs" scheduler_add dequeue
  by unfold_locales (auto simp: dequeue_def ready_add ready_take ready_head)

section \<open>Properties\<close>

text \<open>A machine with the running process at \<open>0x1000\<close> and two processes in the ready queue.\<close>

definition demo_procs :: "u32 \<Rightarrow> process_t" where
  "demo_procs p =
     (if p = 0x1000 then zero_process\<lparr>p_state := PROCESS_RUNNING\<rparr>
      else if p = 0x2000 then zero_process\<lparr>p_state := PROCESS_READY, p_next := 0x3000, p_kernel_stack := 0x9000,
             p_context := zero_context\<lparr>ctx_esp := 0x9000, ctx_eip := 0x100400\<rparr>\<rparr>
      else zero_process\<lparr>p_state := PROCESS_READY\<rparr>)"

definition demo_sched :: ksched where
  "demo_sched = boot_sched\<lparr>procs := demo_procs, current_process := 0x1000, ready_queue_head := 0x2000,
     ready_queue_tail := 0x3000, scheduler_enabled := True, cpu_esp := 0x8000, cpu_ebp := 0x8010\<rparr>"

lemma demo_ready: "ready demo_sched [0x2000, 0x3000]"
  by (simp add: ready_def demo_sched_def nexts_def demo_procs_def zero_process_def)

lemma demo_fields:
  "process_get_current demo_sched = 0x1000" "p_state (procs demo_sched 0x1000) = PROCESS_RUNNING"
  "scheduler_enabled demo_sched" "ticks_remaining demo_sched = 0" "cpu_esp demo_sched = 0x8000" "cpu_ebp demo_sched = 0x8010"
  "ctx_esp (p_context (procs demo_sched 0x2000)) = 0x9000" "ctx_eip (p_context (procs demo_sched 0x2000)) = 0x100400"
  by (simp_all add: demo_sched_def process_get_current_def demo_procs_def boot_sched_def boot_proc_def boot_heap_def boot_vmm_def
      boot_pmm_def boot_idt_def boot_gdt_def boot_mach_def boot_con_def ksched.defs kproc.defs kheap.defs kvmm.defs kpmm.defs
      kidt.defs kgdt.defs kmach.defs kcon.defs)

text \<open>
  C15: On a well-formed ready queue adding a process that is not in it appends it, and removing one returns, whether the
  process is in the queue or not, and leaves the list without it: the search for the predecessor ends, and
  head, tail and links stay consistent.
\<close>

theorem scheduler_remove_terminates:
  assumes "ready s xs" "p \<noteq> 0"
  shows "(p \<notin> set xs \<longrightarrow> ready (scheduler_add p s) (xs @ [p])) \<and>
     (\<exists>s'. scheduler_remove p s = Some s' \<and> ready s' (remove1 p xs))"
  using ready_add [OF assms(1,2)] ready_remove [OF assms] by blast

theorem scheduler_remove_terminates_witness:
  "\<exists>s'. scheduler_remove 0x3000 demo_sched = Some s' \<and> ready s' [0x2000]"
  using scheduler_remove_terminates [OF demo_ready, of "0x3000"] by simp

text \<open>
  Through any interleaving of additions and dispatches the processes leave the ready queue in the order in
  which they entered it: what came out followed by what is in the queue is what was in it followed by what went in.
\<close>

theorem ready_queue_fifo:
  assumes "run_queue.fifo_run s xs ins outs ys t"
  shows "ready t ys \<and> outs @ ys = xs @ ins"
  by (rule run_queue.fifo_run_order [OF assms])

theorem ready_queue_fifo_witness:
  "ready (snd (dequeue (scheduler_add 0x1000 demo_sched))) [0x3000, 0x1000]"
proof -
  have "run_queue.fifo_run demo_sched [0x2000, 0x3000] ([] @ [0x1000])
      ([] @ [fst (dequeue (scheduler_add 0x1000 demo_sched))]) [0x3000, 0x1000] (snd (dequeue (scheduler_add 0x1000 demo_sched)))"
    by (rule run_queue.fifo_run.get [of _ _ _ _ "0x2000"])
      (use run_queue.fifo_run.put [OF run_queue.fifo_run.start [OF demo_ready], of "0x1000"] in simp)
  from ready_queue_fifo [OF this] show ?thesis by blast
qed

text \<open>
  C14: \<^verbatim>\<open>scheduler_yield\<close> refines one rotation of the ready queue. The head leaves the queue and becomes RUNNING, the current
  process becomes READY and joins the end if it was RUNNING and does not otherwise, no other state
  changes, the quantum is refilled, and the processor continues on the stack and at the instruction
  saved for the new process, whose kernel stack the task state segment gets.
\<close>

theorem scheduler_yield_refines:
  assumes "ready s (n # xs)" "process_get_current s = cur" "cur \<noteq> 0" "cur \<noteq> n" "cur \<notin> set xs"
  shows "let s' = scheduler_yield s; running = (p_state (procs s cur) = PROCESS_RUNNING) in
     ready s' (xs @ (if running then [cur] else [])) \<and>
     (\<lambda>q. p_state (procs s' q)) = (\<lambda>q. p_state (procs s q))(cur := if running then PROCESS_READY else p_state (procs s cur),
        n := PROCESS_RUNNING) \<and>
     ticks_remaining s' = SCHEDULER_QUANTUM \<and> cpu_esp s' = ctx_esp (p_context (procs s n)) \<and>
     cpu_eip s' = ctx_eip (p_context (procs s n)) \<and> tss_esp0 (tss s') = p_kernel_stack (procs s n) \<and>
     ctx_esp (p_context (procs s' cur)) = cpu_esp s - 4 \<and> ctx_eip (p_context (procs s' cur)) = switch_label s"
proof -
  have h: "ready_queue_head s = n" "n \<noteq> 0" using ready_head [OF assms(1)] ready_nz [OF assms(1)] by auto
  let ?s1 = "s\<lparr>ticks_remaining := SCHEDULER_QUANTUM\<rparr>"
  have y: "scheduler_yield s = run_next cur n ?s1"
    using assms(2,3) h by (simp add: scheduler_yield_def Let_def)
  have "ready (run_next cur n ?s1) (rotated cur (p_state (procs s cur) = PROCESS_RUNNING) (n # xs))"
    using run_next_ready [of ?s1 n xs cur] assms by simp
  moreover have "tss_esp0 (tss (run_next cur n ?s1)) = p_kernel_stack (procs s n)"
    using assms(4) by (simp add: run_next_def switch_cpu)
  ultimately show ?thesis unfolding Let_def y using assms(4) run_next_cpu [OF assms(4), of ?s1]
    by (auto simp: rotated_def fun_eq_iff)
qed

theorem scheduler_yield_refines_witness:
  "ready (scheduler_yield demo_sched) [0x3000, 0x1000] \<and> cpu_eip (scheduler_yield demo_sched) = 0x100400"
  using scheduler_yield_refines [OF demo_ready demo_fields(1)] demo_fields by (simp add: Let_def)


text \<open>
  C13: The timer starves every process but one. \<^verbatim>\<open>current_process\<close> is never assigned after initialisation, so when the
  running process \<open>cur\<close> is preempted it stays the one the scheduler takes for current: each process of the queue
  is dispatched once, marked RUNNING and never queued again, and then \<open>cur\<close> is at the head, where
  \<^verbatim>\<open>scheduler_tick\<close> returns at once. From \<open>21 * length xs\<close> ticks on the queue is \<open>[cur]\<close> for ever, no switch happens
  any more, and \<open>cur\<close> stays READY.
\<close>

theorem scheduler_tick_starves:
  assumes "scheduler_enabled s" "ticks_remaining s = 0" "process_get_current s = cur" "cur \<noteq> 0"
    and "p_state (procs s cur) = PROCESS_RUNNING" "ready s xs" "xs \<noteq> []" "cur \<notin> set xs"
  shows "\<exists>s'. \<forall>n \<ge> 21 * length xs. (\<exists>tr. (scheduler_tick regs ^^ n) s = s'\<lparr>ticks_remaining := tr\<rparr>) \<and>
     ready s' [cur] \<and> p_state (procs s' cur) = PROCESS_READY \<and> (\<forall>q \<in> set xs. p_state (procs s' q) = PROCESS_RUNNING)"
proof -
  obtain x ys where xs: "xs = x # ys" using assms(7) by (cases xs) auto
  define s1 where "s1 = (run_next cur x (s\<lparr>ticks_remaining := SCHEDULER_QUANTUM\<rparr>))\<lparr>ticks_remaining := 0\<rparr>"
  have "expired cur (x # ys) s" using assms by (simp add: expired_def xs process_get_current_def)
  from quantum [OF this, folded s1_def] have q: "ticks regs 21 s = s1" "expired cur (ys @ [cur]) s1"
    using assms(5,8) by (auto simp: xs rotated_def)
  have st: "p_state (procs s1 cur) = PROCESS_READY" "p_state (procs s1 x) = PROCESS_RUNNING"
    using assms(5,8) by (simp_all add: s1_def xs)
  define s' where "s' = ticks regs (21 * length ys) s1"
  have d: "expired cur [cur] s'" "p_state (procs s' cur) = PROCESS_READY" "\<forall>q \<in> set xs. p_state (procs s' q) = PROCESS_RUNNING"
    using ticks_drain [OF q(2) st(1), of regs] st(2) by (auto simp: s'_def [symmetric] Let_def xs)
  have e: "ticks regs (21 * length xs) s = s'"
    unfolding s'_def q(1) [symmetric] xs by (rule ticks_quantum)
  have "\<exists>tr. ticks regs n s = s'\<lparr>ticks_remaining := tr\<rparr>" if "21 * length xs \<le> n" for n
  proof -
    have "ticks regs n s = ticks regs (n - 21 * length xs) s'"
      unfolding e [symmetric] using that ticks_add [of "n - 21 * length xs" "21 * length xs" regs s] by simp
    moreover have "ready_queue_head s' = current_process s'" using d(1) ready_head [of s' "[cur]"] by (simp add: expired_def)
    ultimately show ?thesis using ticks_stuck by metis
  qed
  then show ?thesis using d by (intro exI [of _ s']) (simp add: expired_def)
qed

definition tick_regs :: registers_t where
  "tick_regs = \<lparr>r_ds = 0x10, r_edi = 0, r_esi = 0, r_ebp = 0, r_useless_esp = 0, r_ebx = 0, r_edx = 0, r_ecx = 0, r_eax = 0,
     r_int_no = 32, r_err_code = 0, r_eip = 0, r_cs = 0x08, r_eflags = 0x202, r_esp = 0, r_ss = 0x10\<rparr>"

theorem scheduler_tick_starves_witness:
  "\<exists>s' tr. (scheduler_tick tick_regs ^^ 100) demo_sched = s'\<lparr>ticks_remaining := tr\<rparr> \<and> ready s' [0x1000] \<and>
     p_state (procs s' 0x1000) = PROCESS_READY \<and> p_state (procs s' 0x2000) = PROCESS_RUNNING \<and>
     p_state (procs s' 0x3000) = PROCESS_RUNNING"
proof -
  obtain s' where "\<forall>n \<ge> 21 * length [0x2000, 0x3000 :: u32]. (\<exists>tr. (scheduler_tick tick_regs ^^ n) demo_sched = s'\<lparr>ticks_remaining := tr\<rparr>) \<and>
     ready s' [0x1000] \<and> p_state (procs s' 0x1000) = PROCESS_READY \<and>
     (\<forall>q \<in> set [0x2000, 0x3000]. p_state (procs s' q) = PROCESS_RUNNING)"
    using scheduler_tick_starves [OF demo_fields(3,4,1) _ demo_fields(2) demo_ready, of tick_regs] by auto
  from this [rule_format, of 100] show ?thesis by auto
qed

lemma load32_store32_apart:
  assumes "4 \<le> a - b" "4 \<le> b - a"
  shows "load32 (store32 m b v) a = load32 m a"
proof -
  let ?k = "unat (a - b)"
  have "a \<noteq> b" using assms(1) by auto
  then have "unat a \<noteq> unat b" by (metis of_unat32)
  then have "unat (b - a) = 4294967296 - ?k"
    using unat_sub_if' [of a b] unat_sub_if' [of b a] unat_lt32 [of a] unat_lt32 [of b]
    by (simp del: unat_lt32 split: if_splits; linarith)
  then have k: "4 \<le> ?k" "?k + 4 \<le> 2 ^ 32" using assms unat_lt32 [of "a - b"] by (simp_all add: word_le_nat_alt)
  have "store32 m b v (a + of_nat i) = m (a + of_nat i)" if "i < 4" for i
  proof (rule store32_other)
    have "unat (a - b + of_nat i) = ?k + i" using k that by (simp add: unat_word_ariths unat_of_nat32)
    moreover have "a + of_nat i - b = a - b + of_nat i" by simp
    ultimately have "unat (a + of_nat i - b) = ?k + i" by argo
    then show "\<not> a + of_nat i - b < 4" using k by (simp add: word_less_nat_alt)
  qed
  from this [of 0] this [of 1] this [of 2] this [of 3] show ?thesis by (simp add: load32_def)
qed

text \<open>
  C16: A process that is switched away and later switched back to resumes where it was: as long as its saved context and the word it
  pushed are left alone meanwhile, and the stack of the process that switches back is apart from that word,
  it continues at the label with its stack pointer, and the pop there restores its frame pointer.
\<close>

theorem context_switch_roundtrip:
  assumes "a \<noteq> b" "p_context (procs t a) = p_context (procs (context_switch a b s) a)"
    and "load32 (mem t) (cpu_esp s - 4) = load32 (mem (context_switch a b s)) (cpu_esp s - 4)"
    and "4 \<le> ctx_esp (p_context (procs s b)) - cpu_esp s" "4 \<le> cpu_esp s - ctx_esp (p_context (procs s b))"
    and "4 \<le> cpu_esp t - cpu_esp s" "4 \<le> cpu_esp s - cpu_esp t"
  shows "let u = context_switch b a t; r = switch_resume u in
     cpu_eip u = switch_label s \<and> cpu_esp r = cpu_esp s \<and> cpu_ebp r = cpu_ebp s"
proof -
  let ?A = "cpu_esp s - 4"
  note ab = switch_cpu [where s = s, OF assms(1)] and ba = switch_cpu [where s = t, OF assms(1) [symmetric]]
  have c: "ctx_esp (p_context (procs t a)) = ?A" "ctx_eip (p_context (procs t a)) = switch_label s"
    using assms(2) ab(4) by simp_all
  have "load32 (mem t) ?A = cpu_ebp s"
    using assms(3) ab(5) load32_store32_apart [of ?A "ctx_esp (p_context (procs s b)) - 4"] assms(4,5) by simp
  moreover have "load32 (mem (context_switch b a t)) ?A = load32 (mem t) ?A"
    using load32_store32_apart [of ?A "?A - 4"] load32_store32_apart [of ?A "cpu_esp t - 4"] assms(6,7)
    by (simp add: ba(5) c)
  ultimately show ?thesis using ba(1,2) c by (simp add: switch_resume_def Let_def)
qed

theorem context_switch_roundtrip_witness:
  "let t = (context_switch 0x1000 0x2000 demo_sched)\<lparr>cpu_esp := 0x8F00\<rparr>; r = switch_resume (context_switch 0x2000 0x1000 t) in
     cpu_esp r = 0x8000 \<and> cpu_ebp r = 0x8010"
  using context_switch_roundtrip [of "0x1000" "0x2000" "(context_switch 0x1000 0x2000 demo_sched)\<lparr>cpu_esp := 0x8F00\<rparr>" demo_sched]
    demo_fields by (simp add: Let_def)


text \<open>A search that reaches a process linked to itself does not end.\<close>

definition looped :: "u32 \<Rightarrow> (u32 \<Rightarrow> process_t) \<Rightarrow> u32 \<Rightarrow> u32 list \<Rightarrow> bool" where
  "looped p ps h xs \<longleftrightarrow> lpath (\<lambda>x. if x = p then 0 else p_next (ps x)) h (xs @ [p]) \<and> p_next (ps p) = p"

lemma looped_step:
  assumes "looped p ps h xs" "q \<noteq> p" "q \<notin> set xs"
  shows "h \<noteq> 0" "p_next (ps h) \<noteq> q" "\<exists>ys. looped p ps (p_next (ps h)) ys \<and> q \<notin> set ys"
proof -
  have "h \<noteq> 0 \<and> p_next (ps h) \<noteq> q \<and> (\<exists>ys. looped p ps (p_next (ps h)) ys \<and> q \<notin> set ys)"
  proof (cases xs)
    case Nil
    then have "h = p" "p_next (ps h) = p" "looped p ps p []" "p \<noteq> 0" using assms(1) by (auto simp: looped_def)
    then show ?thesis using assms(2) by (auto intro: exI [of _ "[]"])
  next
    case (Cons x ys)
    then have x: "h = x" "x \<noteq> 0" "lpath (\<lambda>x. if x = p then 0 else p_next (ps x)) (if x = p then 0 else p_next (ps x)) (ys @ [p])"
      using assms(1) by (auto simp: looped_def)
    then have n: "x \<noteq> p" by (cases ys) auto
    then have l: "looped p ps (p_next (ps x)) ys" using x(3) assms(1) by (simp add: looped_def)
    then have "p_next (ps x) = hd (ys @ [p])" by (cases ys) (auto simp: looped_def)
    then have "p_next (ps x) \<noteq> q" using assms(2,3) Cons by (cases ys) auto
    then show ?thesis using x(1,2) l assms(3) Cons by auto
  qed
  then show "h \<noteq> 0" "p_next (ps h) \<noteq> q" "\<exists>ys. looped p ps (p_next (ps h)) ys \<and> q \<notin> set ys" by blast+
qed

lemma find_prev_loop:
  assumes "find_prev q h ps = Some r"
  shows "\<not> (q \<noteq> p \<and> (\<exists>xs. looped p ps h xs \<and> q \<notin> set xs))"
  using assms
proof (rule find_prev.raw_induct [where P = "\<lambda>q h ps r. \<not> (q \<noteq> p \<and> (\<exists>xs. looped p ps h xs \<and> q \<notin> set xs))", rotated])
  fix find proc prev ps r
  assume IH: "\<And>proc prev ps r. find proc prev ps = Some r \<Longrightarrow> \<not> (proc \<noteq> p \<and> (\<exists>xs. looped p ps prev xs \<and> proc \<notin> set xs))"
    and f: "(if prev \<noteq> 0 \<and> p_next (ps prev) \<noteq> proc then find proc (p_next (ps prev)) ps else Some prev) = Some r"
  show "\<not> (proc \<noteq> p \<and> (\<exists>xs. looped p ps prev xs \<and> proc \<notin> set xs))"
  proof
    assume "proc \<noteq> p \<and> (\<exists>xs. looped p ps prev xs \<and> proc \<notin> set xs)"
    then obtain xs where x: "proc \<noteq> p" "looped p ps prev xs" "proc \<notin> set xs" by blast
    note st = looped_step [OF x(2,1,3)]
    have "find proc (p_next (ps prev)) ps = Some r" using f st(1,2) by simp
    from IH [OF this] st(3) x(1) show False by blast
  qed
qed

text \<open>
  \<^verbatim>\<open>scheduler_unblock\<close> does not look at the state of the process, so unblocking one twice in a row links it to itself: the
  queue has no end any more, and \<^verbatim>\<open>scheduler_remove\<close> of any process that is not in it never returns.
\<close>

theorem scheduler_unblock_twice_diverges:
  assumes "ready s xs" "p \<noteq> 0" "p \<notin> set xs" "q \<noteq> 0" "q \<noteq> p" "q \<notin> set xs"
  shows "let s' = scheduler_unblock p (scheduler_unblock p s) in p_next (procs s' p) = p \<and> scheduler_remove q s' = None"
proof -
  let ?s1 = "scheduler_unblock p s" and ?s' = "scheduler_unblock p (scheduler_unblock p s)"
  have r: "ready ?s1 (xs @ [p])" using ready_add [of "set_state p PROCESS_READY s" xs p] assms(1-3)
    by (simp add: scheduler_unblock_def)
  have h: "ready_queue_head ?s1 \<noteq> 0" "ready_queue_head ?s1 \<noteq> q" "ready_queue_tail ?s1 = p"
    using ready_head [OF r] ready_nz [OF r] assms(4-6) r by (cases xs; auto simp: ready_def)+
  have n: "nexts ?s' = (nexts ?s1)(p := p)" "ready_queue_head ?s' = ready_queue_head ?s1"
    using h assms(2) by (auto simp: scheduler_unblock_def [of p ?s1] scheduler_add_def Let_def set_next_def set_state_def nexts_def)
  then have pp: "p_next (procs ?s' p) = p" by (metis fun_upd_same nexts_def)
  have l: "lpath (nexts ?s1) (ready_queue_head ?s1) (xs @ [p])" using r by (simp add: ready_def)
  moreover note lpath_end [OF l]
  moreover have "(\<lambda>x. if x = p then 0 else p_next (procs ?s' x)) = (nexts ?s1)(p := 0)"
    using fun_cong [OF n(1)] by (auto simp: nexts_def)
  ultimately have "looped p (procs ?s') (ready_queue_head ?s') xs"
    using pp n(2) by (simp add: looped_def fun_upd_idem)
  then have "find_prev q (ready_queue_head ?s') (procs ?s') = None"
    using find_prev_loop [of q "ready_queue_head ?s'" "procs ?s'" _ p] assms(5,6)
    by (cases "find_prev q (ready_queue_head ?s') (procs ?s')") blast+
  then show ?thesis using pp h(2) n(2) assms(4) by (simp add: scheduler_remove_def Let_def)
qed

theorem scheduler_unblock_twice_diverges_witness:
  "scheduler_remove 0x4000 (scheduler_unblock 0x1000 (scheduler_unblock 0x1000 demo_sched)) = None"
  using scheduler_unblock_twice_diverges [OF demo_ready, of "0x1000" "0x4000"] by (simp add: Let_def)

end
