(* ===== verification/Driver.thy ===== *)
theory Driver
  imports Scheduler
begin

text \<open>
  The driver registry, \<^verbatim>\<open>kernel/drivers/driver.c\<close>: a singly linked list of statically allocated driver
  records, looked up by name or type. The records are kept in a heap indexed by address. The callbacks of
  a driver are named by a datatype; what they do is an argument of the operations that call them.
\<close>

section \<open>State\<close>

datatype driver_type_t = DRIVER_TYPE_CHAR | DRIVER_TYPE_BLOCK | DRIVER_TYPE_NETWORK | DRIVER_TYPE_DISPLAY
  | DRIVER_TYPE_INPUT | DRIVER_TYPE_STORAGE | DRIVER_TYPE_OTHER

datatype driver_state_t = DRIVER_STATE_UNLOADED | DRIVER_STATE_LOADED | DRIVER_STATE_ACTIVE | DRIVER_STATE_ERROR

datatype driver_init_fn = Timer_driver_init | Keyboard_driver_init

datatype driver_cleanup_fn = Timer_driver_cleanup | Keyboard_driver_cleanup

datatype driver_read_fn = Keyboard_driver_read

record driver_ops_t =
  op_init :: "driver_init_fn option"
  op_cleanup :: "driver_cleanup_fn option"
  op_read :: "driver_read_fn option"

record driver_t =
  d_name :: "u8 list"
  d_type :: driver_type_t
  d_state :: driver_state_t
  d_major :: u32
  d_minor :: u32
  d_ops :: "driver_ops_t option"
  d_next :: u32

definition zero_driver :: driver_t where
  "zero_driver = \<lparr>d_name = [], d_type = DRIVER_TYPE_CHAR, d_state = DRIVER_STATE_UNLOADED, d_major = 0, d_minor = 0,
     d_ops = None, d_next = 0\<rparr>"

record kdrv = ksched +
  drivers :: "u32 \<Rightarrow> driver_t"
  driver_list :: u32
  driver_count :: u32

definition boot_drv :: kdrv where
  "boot_drv = ksched.extend boot_sched (kdrv.fields (\<lambda>_. zero_driver) 0 0)"

abbreviation (input) MAX_DRIVERS :: u32 where
  "MAX_DRIVERS \<equiv> 64"

type_synonym 's init_call = "driver_init_fn \<Rightarrow> u32 \<Rightarrow> 's \<Rightarrow> int \<times> 's"
type_synonym 's cleanup_call = "driver_cleanup_fn \<Rightarrow> u32 \<Rightarrow> 's \<Rightarrow> 's"

section \<open>Operations\<close>

definition upd_drv :: "u32 \<Rightarrow> (driver_t \<Rightarrow> driver_t) \<Rightarrow> 'a kdrv_scheme \<Rightarrow> 'a kdrv_scheme" where
  "upd_drv p f s = s\<lparr>drivers := (drivers s)(p := f (drivers s p))\<rparr>"

definition driver_manager_init :: "'a kdrv_scheme \<Rightarrow> 'a kdrv_scheme" where
  "driver_manager_init s =
     kprintf (litln ''[DRV] Driver manager initialized'') [] (s\<lparr>driver_list := 0, driver_count := 0\<rparr>)"

text \<open>The walk along the list for the first record that satisfies a test; it need not end on a cyclic list.\<close>

partial_function (option) drv_walk :: "(driver_t \<Rightarrow> bool) \<Rightarrow> (u32 \<Rightarrow> driver_t) \<Rightarrow> u32 \<Rightarrow> u32 option" where
  "drv_walk P ds drv =
     (if drv = 0 then Some 0 else if P (ds drv) then Some drv else drv_walk P ds (d_next (ds drv)))"

declare drv_walk.simps [code]

definition driver_find :: "u8 list \<Rightarrow> 'a kdrv_scheme \<Rightarrow> u32 option" where
  "driver_find name s = drv_walk (\<lambda>d. d_name d = name) (drivers s) (driver_list s)"

definition driver_find_by_type :: "driver_type_t \<Rightarrow> 'a kdrv_scheme \<Rightarrow> u32 option" where
  "driver_find_by_type ty s = drv_walk (\<lambda>d. d_type d = ty) (drivers s) (driver_list s)"

fun type_code :: "driver_type_t \<Rightarrow> u32" where
  "type_code DRIVER_TYPE_CHAR = 0"
| "type_code DRIVER_TYPE_BLOCK = 1"
| "type_code DRIVER_TYPE_NETWORK = 2"
| "type_code DRIVER_TYPE_DISPLAY = 3"
| "type_code DRIVER_TYPE_INPUT = 4"
| "type_code DRIVER_TYPE_STORAGE = 5"
| "type_code DRIVER_TYPE_OTHER = 6"

definition driver_register :: "u32 \<Rightarrow> 'a kdrv_scheme \<Rightarrow> (int \<times> 'a kdrv_scheme) option" where
  "driver_register drv s =
     (if drv = 0 \<or> d_name (drivers s drv) = [] then Some (- 1, s)
      else if driver_count s \<ge> MAX_DRIVERS
      then Some (- 1, kprintf (litln ''[DRV] ERROR: Maximum drivers reached'') [] s)
      else do {
        other \<leftarrow> driver_find (d_name (drivers s drv)) s;
        if other \<noteq> 0
        then Some (- 1, kprintf (litln ''[DRV] ERROR: Driver '%s' already registered'') [VStr (d_name (drivers s drv))] s)
        else
          (let s1 = upd_drv drv (\<lambda>d. d\<lparr>d_state := DRIVER_STATE_LOADED\<rparr>) s;
               s2 = upd_drv drv (\<lambda>d. d\<lparr>d_next := driver_list s1\<rparr>) s1;
               s3 = s2\<lparr>driver_list := drv, driver_count := driver_count s2 + 1\<rparr>
           in Some (0, kprintf (litln ''[DRV] Registered driver '%s' (type=%d)'')
                [VStr (d_name (drivers s3 drv)), VInt (type_code (d_type (drivers s3 drv)))] s3))
      })"

text \<open>The walk of \<^verbatim>\<open>driver_unregister\<close>, with the predecessor; 0 for the record when none has the name.\<close>

partial_function (option) unreg_walk :: "u8 list \<Rightarrow> (u32 \<Rightarrow> driver_t) \<Rightarrow> u32 \<Rightarrow> u32 \<Rightarrow> (u32 \<times> u32) option" where
  "unreg_walk name ds prev drv =
     (if drv = 0 then Some (prev, 0)
      else if d_name (ds drv) = name then Some (prev, drv) else unreg_walk name ds drv (d_next (ds drv)))"

declare unreg_walk.simps [code]

definition driver_unregister ::
  "'a kdrv_scheme cleanup_call \<Rightarrow> u8 list \<Rightarrow> 'a kdrv_scheme \<Rightarrow> (int \<times> 'a kdrv_scheme) option" where
  "driver_unregister cleanup name s =
     do {
       (prev, drv) \<leftarrow> unreg_walk name (drivers s) 0 (driver_list s);
       if drv = 0 then Some (- 1, s)
       else
         (let s1 = (case d_ops (drivers s drv) of
                      Some ops \<Rightarrow>
                        (case op_cleanup ops of
                           Some f \<Rightarrow> if d_state (drivers s drv) = DRIVER_STATE_ACTIVE then cleanup f drv s else s
                         | None \<Rightarrow> s)
                    | None \<Rightarrow> s);
              s2 = (if prev \<noteq> 0 then upd_drv prev (\<lambda>d. d\<lparr>d_next := d_next (drivers s1 drv)\<rparr>) s1
                    else s1\<lparr>driver_list := d_next (drivers s1 drv)\<rparr>);
              s3 = upd_drv drv (\<lambda>d. d\<lparr>d_state := DRIVER_STATE_UNLOADED\<rparr>) s2;
              s4 = s3\<lparr>driver_count := driver_count s3 - 1\<rparr>
          in Some (0, kprintf (lit ''[DRV] Unregistered driver '%s'' @ [39, 10]) [VStr name] s4))
     }"

definition driver_load ::
  "'a kdrv_scheme init_call \<Rightarrow> u8 list \<Rightarrow> 'a kdrv_scheme \<Rightarrow> (int \<times> 'a kdrv_scheme) option" where
  "driver_load init name s =
     do {
       drv \<leftarrow> driver_find name s;
       if drv = 0 then Some (- 1, s)
       else if d_state (drivers s drv) = DRIVER_STATE_ACTIVE then Some (0, s)
       else
         (let (ret, s1) = (case d_ops (drivers s drv) of
                      Some ops \<Rightarrow> (case op_init ops of Some f \<Rightarrow> init f drv s | None \<Rightarrow> (0, s))
                    | None \<Rightarrow> (0, s))
          in if ret \<noteq> 0
             then Some (ret, kprintf (lit ''[DRV] ERROR: Failed to initialize driver '%s'' @ [39, 10]) [VStr name]
                    (upd_drv drv (\<lambda>d. d\<lparr>d_state := DRIVER_STATE_ERROR\<rparr>) s1))
             else Some (0, kprintf (litln ''[DRV] Driver '%s' loaded and active'') [VStr name]
                    (upd_drv drv (\<lambda>d. d\<lparr>d_state := DRIVER_STATE_ACTIVE\<rparr>) s1)))
     }"

definition driver_unload ::
  "'a kdrv_scheme cleanup_call \<Rightarrow> u8 list \<Rightarrow> 'a kdrv_scheme \<Rightarrow> (int \<times> 'a kdrv_scheme) option" where
  "driver_unload cleanup name s =
     do {
       drv \<leftarrow> driver_find name s;
       if drv = 0 then Some (- 1, s)
       else if d_state (drivers s drv) \<noteq> DRIVER_STATE_ACTIVE then Some (0, s)
       else
         (let s1 = (case d_ops (drivers s drv) of
                      Some ops \<Rightarrow> (case op_cleanup ops of Some f \<Rightarrow> cleanup f drv s | None \<Rightarrow> s)
                    | None \<Rightarrow> s)
          in Some (0, kprintf (litln ''[DRV] Driver '%s' unloaded'') [VStr name]
               (upd_drv drv (\<lambda>d. d\<lparr>d_state := DRIVER_STATE_LOADED\<rparr>) s1)))
     }"

fun state_str :: "driver_state_t \<Rightarrow> u8 list" where
  "state_str DRIVER_STATE_UNLOADED = lit ''UNLOADED''"
| "state_str DRIVER_STATE_LOADED = lit ''LOADED''"
| "state_str DRIVER_STATE_ACTIVE = lit ''ACTIVE''"
| "state_str DRIVER_STATE_ERROR = lit ''ERROR''"

definition driver_line :: "u8 list" where
  "driver_line = litln ''  %-16s type=%d state=%s''"

definition driver_args :: "driver_t \<Rightarrow> va list" where
  "driver_args d = [VStr (d_name d), VInt (type_code (d_type d)), VStr (state_str (d_state d))]"

partial_function (option) list_walk :: "u32 \<Rightarrow> 'a kdrv_scheme \<Rightarrow> 'a kdrv_scheme option" where
  "list_walk drv s =
     (if drv = 0 then Some s
      else list_walk (d_next (drivers s drv)) (kprintf driver_line (driver_args (drivers s drv)) s))"

declare list_walk.simps [code]

definition driver_list_all :: "'a kdrv_scheme \<Rightarrow> 'a kdrv_scheme option" where
  "driver_list_all s =
     (let s1 = kprintf (litln ''Registered drivers:'') [] s in list_walk (driver_list s1) s1)"

text \<open>The callbacks of the two drivers, which do nothing.\<close>

definition timer_driver_init :: "u32 \<Rightarrow> 's \<Rightarrow> int \<times> 's" where
  "timer_driver_init drv s = (0, s)"

definition timer_driver_cleanup :: "u32 \<Rightarrow> 's \<Rightarrow> 's" where
  "timer_driver_cleanup drv s = s"

definition keyboard_driver_init :: "u32 \<Rightarrow> 's \<Rightarrow> int \<times> 's" where
  "keyboard_driver_init drv s = (0, s)"

definition keyboard_driver_cleanup :: "u32 \<Rightarrow> 's \<Rightarrow> 's" where
  "keyboard_driver_cleanup drv s = s"

fun call_init :: "driver_init_fn \<Rightarrow> u32 \<Rightarrow> 's \<Rightarrow> int \<times> 's" where
  "call_init Timer_driver_init = timer_driver_init"
| "call_init Keyboard_driver_init = keyboard_driver_init"

fun call_cleanup :: "driver_cleanup_fn \<Rightarrow> u32 \<Rightarrow> 's \<Rightarrow> 's" where
  "call_cleanup Timer_driver_cleanup = timer_driver_cleanup"
| "call_cleanup Keyboard_driver_cleanup = keyboard_driver_cleanup"


section \<open>The registry as a list\<close>

lemma kprintf_drv [simp]:
  "drivers (kprintf f a s) = drivers s" "driver_list (kprintf f a s) = driver_list s"
  "driver_count (kprintf f a s) = driver_count s" "kdrv.more (kprintf f a s) = kdrv.more s"
  by (subst kprintf_eq; simp)+

lemma upd_drv_simps [simp]:
  "drivers (upd_drv p f s) = (drivers s)(p := f (drivers s p))" "driver_list (upd_drv p f s) = driver_list s"
  "driver_count (upd_drv p f s) = driver_count s" "kdrv.more (upd_drv p f s) = kdrv.more s"
  by (simp_all add: upd_drv_def)

abbreviation drv_name :: "'a kdrv_scheme \<Rightarrow> u32 \<Rightarrow> u8 list" where
  "drv_name s p \<equiv> d_name (drivers s p)"

definition registry :: "'a kdrv_scheme \<Rightarrow> u32 list \<Rightarrow> bool" where
  "registry s xs \<longleftrightarrow> lpath (\<lambda>p. d_next (drivers s p)) (driver_list s) xs \<and> distinct (map (drv_name s) xs) \<and>
     driver_count s = of_nat (length xs) \<and> length xs \<le> 64"

lemma registry_kprintf [simp]: "registry (kprintf f a s) xs = registry s xs"
  by (simp add: registry_def)

lemma drv_walk_find:
  "lpath (\<lambda>p. d_next (ds p)) h xs \<Longrightarrow>
   drv_walk P ds h = Some (case find (\<lambda>p. P (ds p)) xs of None \<Rightarrow> 0 | Some p \<Rightarrow> p)"
  by (induction xs arbitrary: h) (simp_all add: drv_walk.simps)

lemma driver_find_registry:
  "registry s xs \<Longrightarrow> driver_find n s = Some (case find (\<lambda>p. drv_name s p = n) xs of None \<Rightarrow> 0 | Some p \<Rightarrow> p)"
  unfolding driver_find_def by (rule drv_walk_find) (simp add: registry_def)

lemma registry_nz: "registry s xs \<Longrightarrow> 0 \<notin> set xs"
  by (auto simp: registry_def dest: lpath_nz)

lemma find_name:
  assumes "registry s xs" "p \<in> set xs" "drv_name s p = n"
  shows "driver_find n s = Some p"
proof -
  have "find (\<lambda>q. drv_name s q = n) xs = Some p"
  proof -
    obtain q where q: "find (\<lambda>q. drv_name s q = n) xs = Some q" using assms(2,3)
      by (cases "find (\<lambda>q. drv_name s q = n) xs") (auto simp: find_None_iff)
    then have "q \<in> set xs" "drv_name s q = n" by (auto simp: find_Some_iff)
    then have "q = p" using assms unfolding registry_def by (metis distinct_map inj_onD)
    then show ?thesis using q by simp
  qed
  then show ?thesis using driver_find_registry [OF assms(1)] by simp
qed

lemma find_no_name: "registry s xs \<Longrightarrow> n \<notin> drv_name s ` set xs \<Longrightarrow> driver_find n s = Some 0"
proof -
  assume r: "registry s xs" and "n \<notin> drv_name s ` set xs"
  then have "find (\<lambda>p. drv_name s p = n) xs = None" by (auto simp: find_None_iff)
  then show ?thesis using driver_find_registry [OF r] by simp
qed

definition may_register :: "u32 \<Rightarrow> 'a kdrv_scheme \<Rightarrow> u32 list \<Rightarrow> bool" where
  "may_register drv s xs \<longleftrightarrow> drv \<noteq> 0 \<and> drv_name s drv \<noteq> [] \<and> length xs < 64 \<and> drv_name s drv \<notin> drv_name s ` set xs"

lemma count_full: "registry s xs \<Longrightarrow> driver_count s \<ge> MAX_DRIVERS \<longleftrightarrow> \<not> length xs < 64"
  by (auto simp: registry_def word_le_nat_alt unat_of_nat32)

lemma register_fails:
  assumes "registry s xs" "\<not> may_register drv s xs"
  shows "\<exists>s'. driver_register drv s = Some (- 1, s') \<and> registry s' xs \<and> drivers s' = drivers s"
proof (cases "drv = 0 \<or> drv_name s drv = [] \<or> \<not> length xs < 64")
  case True
  then show ?thesis using assms(1) count_full [OF assms(1)] by (auto simp: driver_register_def)
next
  case False
  then obtain q where q: "q \<in> set xs" "drv_name s q = drv_name s drv" using assms(2) unfolding may_register_def by force
  have "q \<noteq> 0" using registry_nz [OF assms(1)] q(1) by auto
  then show ?thesis using False assms(1) count_full [OF assms(1)] find_name [OF assms(1) q]
    by (simp add: driver_register_def)
qed

lemma register_succeeds:
  assumes "registry s xs" "may_register drv s xs"
  shows "\<exists>s'. driver_register drv s = Some (0, s') \<and> registry s' (drv # xs) \<and>
     drivers s' = (drivers s)(drv := (drivers s drv)\<lparr>d_state := DRIVER_STATE_LOADED, d_next := driver_list s\<rparr>)"
proof -
  let ?s1 = "upd_drv drv (\<lambda>d. d\<lparr>d_state := DRIVER_STATE_LOADED\<rparr>) s"
  let ?s2 = "upd_drv drv (\<lambda>d. d\<lparr>d_next := driver_list s\<rparr>) ?s1"
  let ?s3 = "?s2\<lparr>driver_list := drv, driver_count := driver_count s + 1\<rparr>"
  have nf: "driver_find (drv_name s drv) s = Some 0"
    using find_no_name [OF assms(1)] assms(2) by (simp add: may_register_def)
  have g: "\<not> (drv = 0 \<or> drv_name s drv = [])" "\<not> driver_count s \<ge> MAX_DRIVERS"
    using assms(2) count_full [OF assms(1)] by (simp_all add: may_register_def)
  have e: "driver_register drv s = Some (0, kprintf (litln ''[DRV] Registered driver '%s' (type=%d)'')
                [VStr (d_name (drivers ?s3 drv)), VInt (type_code (d_type (drivers ?s3 drv)))] ?s3)"
    using g nf by (simp add: driver_register_def)
  have d: "drv \<notin> set xs" using assms(2) by (auto simp: may_register_def)
  have ds: "drivers ?s3 = (drivers s)(drv := (drivers s drv)\<lparr>d_state := DRIVER_STATE_LOADED, d_next := driver_list s\<rparr>)" by simp
  have n: "drv_name ?s3 p = drv_name s p" for p by simp
  have "lpath (\<lambda>p. d_next (drivers ?s3 p)) (driver_list s) xs"
    using assms(1) lpath_cong [of xs "\<lambda>p. d_next (drivers ?s3 p)" "\<lambda>p. d_next (drivers s p)"] d
    by (auto simp: registry_def)
  then have "registry ?s3 (drv # xs)"
    using assms unfolding registry_def n by (simp add: may_register_def)
  then show ?thesis using e ds by simp
qed


lemma unreg_walk_found:
  "lpath (\<lambda>p. d_next (ds p)) h (us @ p # vs) \<Longrightarrow> d_name (ds p) = n \<Longrightarrow> n \<notin> (\<lambda>p. d_name (ds p)) ` set us \<Longrightarrow>
   unreg_walk n ds pv h = Some (last (pv # us), p)"
proof (induction us arbitrary: h pv)
  case (Cons u us)
  then show ?case by (cases us) (auto simp: unreg_walk.simps [of n ds pv])
qed (simp add: unreg_walk.simps)

lemma unreg_walk_absent:
  "lpath (\<lambda>p. d_next (ds p)) h xs \<Longrightarrow> n \<notin> (\<lambda>p. d_name (ds p)) ` set xs \<Longrightarrow>
   \<exists>q. unreg_walk n ds pv h = Some (q, 0)"
  by (induction xs arbitrary: h pv) (auto simp: unreg_walk.simps [of n ds pv for pv])

lemma unregister_absent:
  assumes "registry s xs" "n \<notin> drv_name s ` set xs"
  shows "driver_unregister call_cleanup n s = Some (- 1, s)"
  using unreg_walk_absent [of "drivers s" "driver_list s" xs n 0] assms
  by (auto simp: driver_unregister_def registry_def)

lemma cleanup_id [simp]: "call_cleanup f p s = s"
  by (cases f) (simp_all add: timer_driver_cleanup_def keyboard_driver_cleanup_def)

lemma unregister_found:
  assumes "registry s xs" "p \<in> set xs" "drv_name s p = n"
  shows "\<exists>s'. driver_unregister call_cleanup n s = Some (0, s') \<and> registry s' (remove1 p xs) \<and>
     d_state (drivers s' p) = DRIVER_STATE_UNLOADED \<and> driver_find n s' = Some 0"
proof -
  obtain us vs where xs: "xs = us @ p # vs" using assms(2) by (meson split_list)
  have R: "lpath (\<lambda>p. d_next (drivers s p)) (driver_list s) (us @ p # vs)" "distinct (map (drv_name s) (us @ p # vs))"
    using assms(1) by (simp_all add: registry_def xs)
  then have nu: "n \<notin> drv_name s ` set us" "n \<notin> drv_name s ` set vs" using assms(3) by auto
  have pu: "p \<notin> set us" "p \<notin> set vs" "distinct (us @ p # vs)" using R(2) by (auto simp: distinct_map)
  note w = unreg_walk_found [OF R(1) assms(3) nu(1), of 0]
  define s2 where "s2 = (if us = [] then s\<lparr>driver_list := d_next (drivers s p)\<rparr>
     else upd_drv (last us) (\<lambda>d. d\<lparr>d_next := d_next (drivers s p)\<rparr>) s)"
  define s4 where "s4 = (upd_drv p (\<lambda>d. d\<lparr>d_state := DRIVER_STATE_UNLOADED\<rparr>) s2)\<lparr>driver_count := driver_count s - 1\<rparr>"
  have lz: "p \<noteq> 0" "us \<noteq> [] \<longrightarrow> last us \<noteq> 0"
    using registry_nz [OF assms(1)] by (auto simp: xs dest: last_in_set)
  have c: "(case d_ops (drivers s p) of Some ops \<Rightarrow> (case op_cleanup ops of
        Some f \<Rightarrow> if d_state (drivers s p) = DRIVER_STATE_ACTIVE then call_cleanup f p s else s | None \<Rightarrow> s) | None \<Rightarrow> s) = s"
    by (simp split: option.split)
  have l0: "last (0 # us) = 0 \<longleftrightarrow> us = []" using lz(2) by auto
  have "driver_unregister call_cleanup n s = Some (0, kprintf (lit ''[DRV] Unregistered driver '%s'' @ [39, 10]) [VStr n] s4)"
    unfolding driver_unregister_def w Option.bind.bind_lunit prod.case c Let_def s4_def s2_def
    using lz l0 by (cases "us = []") simp_all
  then have e: "\<exists>f a. driver_unregister call_cleanup n s = Some (0, kprintf f a s4)" by blast
  have ln: "us \<noteq> [] \<longrightarrow> last us \<noteq> p" using pu(1) by (metis last_in_set)
  have "lpath (\<lambda>q. d_next (drivers s4 q)) (driver_list s4) (us @ vs)"
  proof (cases "us = []")
    case True
    have "d_next (drivers s4 q) = d_next (drivers s q)" for q by (simp add: s4_def s2_def True)
    then show ?thesis using R(1) by (simp add: True s4_def s2_def)
  next
    case False
    then obtain zs a where us: "us = zs @ [a]" by (metis rev_exhaust)
    have "a \<noteq> p" using ln us by simp
    have "lpath (\<lambda>q. d_next (drivers s4 q)) (driver_list s) (zs @ a # vs)"
      by (rule lpath_delete [of "\<lambda>q. d_next (drivers s q)" _ _ _ p])
        (use R(1) pu(3) us \<open>a \<noteq> p\<close> in \<open>simp_all add: s4_def s2_def\<close>)
    then show ?thesis by (simp add: us s4_def s2_def)
  qed
  moreover have "drv_name s4 q = drv_name s q" for q by (simp add: s4_def s2_def)
  moreover have rm: "remove1 p xs = us @ vs" using pu by (simp add: xs remove1_append)
  ultimately have r: "registry s4 (remove1 p xs)"
    using assms(1) R(2) by (auto simp: registry_def xs s4_def s2_def)
  have "n \<notin> drv_name s4 ` set (us @ vs)" using nu by (auto simp: s4_def s2_def)
  then have "driver_find n s4 = Some 0" using find_no_name [OF r] rm by simp
  moreover have "d_state (drivers s4 p) = DRIVER_STATE_UNLOADED" by (simp add: s4_def)
  ultimately show ?thesis using e r by (auto simp: driver_find_def)
qed


section \<open>Properties\<close>

text \<open>
  C34: The registry refines a list of drivers with distinct names, at most 64 of them. Registering answers -1 and changes no record
  exactly when the driver is NULL or nameless, the registry is full or the name is taken; otherwise the
  driver is put in front, LOADED, and is found under its name. Unregistering a registered name removes that driver alone,
  UNLOADED, after which the name is not found; for an unknown name it answers -1 and changes nothing. Every walk ends.
\<close>

theorem driver_registry_refines:
  assumes "registry s xs"
  shows "(\<exists>r s'. driver_register drv s = Some (r, s') \<and>
       (if may_register drv s xs
        then r = 0 \<and> registry s' (drv # xs) \<and> d_state (drivers s' drv) = DRIVER_STATE_LOADED \<and>
          driver_find (drv_name s drv) s' = Some drv
        else r = - 1 \<and> registry s' xs \<and> drivers s' = drivers s)) \<and>
     (if n \<in> drv_name s ` set xs
      then \<exists>p s'. p \<in> set xs \<and> drv_name s p = n \<and> driver_unregister call_cleanup n s = Some (0, s') \<and>
        registry s' (remove1 p xs) \<and> d_state (drivers s' p) = DRIVER_STATE_UNLOADED \<and> driver_find n s' = Some 0
      else driver_unregister call_cleanup n s = Some (- 1, s))"
proof
  show "\<exists>r s'. driver_register drv s = Some (r, s') \<and>
       (if may_register drv s xs
        then r = 0 \<and> registry s' (drv # xs) \<and> d_state (drivers s' drv) = DRIVER_STATE_LOADED \<and>
          driver_find (drv_name s drv) s' = Some drv
        else r = - 1 \<and> registry s' xs \<and> drivers s' = drivers s)"
  proof (cases "may_register drv s xs")
    case True
    from register_succeeds [OF assms True] obtain s' where s': "driver_register drv s = Some (0, s')" "registry s' (drv # xs)"
      "drivers s' = (drivers s)(drv := (drivers s drv)\<lparr>d_state := DRIVER_STATE_LOADED, d_next := driver_list s\<rparr>)" by blast
    then show ?thesis using True find_name [OF s'(2), of drv "drv_name s drv"] by simp
  qed (use register_fails [OF assms] in auto)
  show "if n \<in> drv_name s ` set xs
      then \<exists>p s'. p \<in> set xs \<and> drv_name s p = n \<and> driver_unregister call_cleanup n s = Some (0, s') \<and>
        registry s' (remove1 p xs) \<and> d_state (drivers s' p) = DRIVER_STATE_UNLOADED \<and> driver_find n s' = Some 0
      else driver_unregister call_cleanup n s = Some (- 1, s)"
    using unregister_found [OF assms, of _ n] unregister_absent [OF assms, of n] by (auto split: if_splits)
qed

definition demo_drv :: kdrv where
  "demo_drv = boot_drv\<lparr>drivers := (\<lambda>_. zero_driver)(0x1000 := zero_driver\<lparr>d_name := lit ''pit_timer''\<rparr>)\<rparr>"

theorem driver_registry_refines_witness:
  "\<exists>s'. driver_register 0x1000 demo_drv = Some (0, s') \<and> registry s' [0x1000] \<and> driver_find (lit ''pit_timer'') s' = Some 0x1000"
proof -
  have "registry demo_drv []"
    by (simp add: registry_def demo_drv_def boot_drv_def kdrv.defs ksched.defs)
  moreover have "may_register 0x1000 demo_drv []" by (simp add: may_register_def demo_drv_def lit_def)
  moreover have "drv_name demo_drv 0x1000 = lit ''pit_timer''" by (simp add: demo_drv_def)
  ultimately show ?thesis using driver_registry_refines [of demo_drv "[]" "0x1000"] by auto
qed

text \<open>
  The line \<^verbatim>\<open>driver_list_all\<close> prints for a driver has no defined text, whatever the driver: \<^verbatim>\<open>kprintf\<close> knows no field width, so
  \<^verbatim>\<open>%-16s\<close> consumes no argument, \<^verbatim>\<open>%d\<close> is given the name and \<^verbatim>\<open>%s\<close> the type code, which it takes for an address.
\<close>

theorem driver_list_all_mismatch: "fmt_text driver_line (driver_args d) = None"
  by (simp add: driver_line_def driver_args_def lit_def litln_def conv_text_def)

end
