(* ===== verification/Devices.thy ===== *)
theory Devices
  imports Driver
begin

text \<open>
  The two devices: the interval timer, \<^verbatim>\<open>kernel/drivers/timer.c\<close>, and the keyboard, \<^verbatim>\<open>kernel/drivers/keyboard.c\<close>. Interrupts are
  values: a timer interrupt, or a keyboard interrupt with the byte the port delivers. A
  \<^verbatim>\<open>hlt\<close> waits for one, so an operation that halts takes the interrupts that are going to arrive as a list and
  consumes one per \<^verbatim>\<open>hlt\<close>; while the list is exhausted it is still waiting, which is the value \<^const>\<open>None\<close>.
\<close>

unbundle bit_operations_syntax

section \<open>State\<close>

record kdev = kdrv +
  timer_ticks :: u64
  timer_frequency :: u32
  kb_buffer :: "u32 \<Rightarrow> u8"
  kb_read_idx :: u32
  kb_write_idx :: u32
  kb_count :: u32

definition boot_dev :: kdev where
  "boot_dev = kdrv.extend boot_drv (kdev.fields 0 0 (\<lambda>_. 0) 0 0 0)"

abbreviation (input) PIT_FREQ :: u32 where
  "PIT_FREQ \<equiv> 1193180"

abbreviation (input) KB_BUFFER_SIZE :: u32 where
  "KB_BUFFER_SIZE \<equiv> 256"

section \<open>The timer\<close>

definition timer_callback :: "registers_t \<Rightarrow> 'a kdev_scheme \<Rightarrow> 'a kdev_scheme" where
  "timer_callback regs s = scheduler_tick regs (s\<lparr>timer_ticks := timer_ticks s + 1\<rparr>)"

definition timer_driver_ops :: driver_ops_t where
  "timer_driver_ops = \<lparr>op_init = Some Timer_driver_init, op_cleanup = Some Timer_driver_cleanup, op_read = None\<rparr>"

definition timer_driver :: driver_t where
  "timer_driver = \<lparr>d_name = lit ''pit_timer'', d_type = DRIVER_TYPE_OTHER, d_state = DRIVER_STATE_UNLOADED, d_major = 0,
     d_minor = 0, d_ops = Some timer_driver_ops, d_next = 0\<rparr>"

text \<open>
  The address of the static record \<^verbatim>\<open>timer_driver\<close> is an argument, like that of the heap area. A division by zero has no result.
\<close>

definition timer_init :: "u32 \<Rightarrow> u32 \<Rightarrow> 'a kdev_scheme \<Rightarrow> 'a kdev_scheme option" where
  "timer_init drv frequency s =
     (let s1 = s\<lparr>timer_frequency := frequency, timer_ticks := 0\<rparr>
      in if frequency = 0 then None
         else
           (let divisor = PIT_FREQ div frequency;
                s2 = outb 0x43 0x36 s1;
                s3 = outb 0x40 (ucast (divisor AND 0xFF)) s2;
                s4 = outb 0x40 (ucast (drop_bit 8 divisor AND 0xFF)) s3;
                s5 = isr_register_handler 32 Timer_callback s4
            in do {
              (_, s6) \<leftarrow> driver_register drv s5;
              (_, s7) \<leftarrow> driver_load call_init (lit ''pit_timer'') s6;
              Some (kprintf (litln ''[TIMER] PIT initialized at %u Hz'') [VInt frequency] s7)
            }))"

definition timer_get_ticks :: "'a kdev_scheme \<Rightarrow> u64" where
  "timer_get_ticks s = timer_ticks s"

section \<open>The keyboard\<close>

definition scancode_to_ascii :: "u8 list" where
  "scancode_to_ascii =
     [0, 27, 49, 50, 51, 52, 53, 54, 55, 56, 57, 48, 45, 61, 8,
      9, 113, 119, 101, 114, 116, 121, 117, 105, 111, 112, 91, 93, 10,
      0, 97, 115, 100, 102, 103, 104, 106, 107, 108, 59, 39, 96,
      0, 92, 122, 120, 99, 118, 98, 110, 109, 44, 46, 47, 0,
      42, 0, 32] @ replicate 70 0"

definition kb_put :: "u8 \<Rightarrow> 'a kdev_scheme \<Rightarrow> 'a kdev_scheme" where
  "kb_put c s =
     s\<lparr>kb_buffer := (kb_buffer s)(kb_write_idx s := c), kb_write_idx := (kb_write_idx s + 1) mod KB_BUFFER_SIZE,
       kb_count := kb_count s + 1\<rparr>"

definition kb_get :: "'a kdev_scheme \<Rightarrow> u8 \<times> 'a kdev_scheme" where
  "kb_get s =
     (kb_buffer s (kb_read_idx s),
      s\<lparr>kb_read_idx := (kb_read_idx s + 1) mod KB_BUFFER_SIZE, kb_count := kb_count s - 1\<rparr>)"

definition keyboard_callback :: "registers_t \<Rightarrow> u8 \<Rightarrow> 'a kdev_scheme \<Rightarrow> 'a kdev_scheme" where
  "keyboard_callback regs scancode s =
     (if scancode AND 0x80 \<noteq> 0 then s
      else let c = scancode_to_ascii ! unat scancode
           in if c \<noteq> 0 \<and> kb_count s < KB_BUFFER_SIZE then kb_put c s else s)"

text \<open>The loop of \<^verbatim>\<open>keyboard_driver_read\<close>; at most \<open>size\<close> rounds.\<close>

fun kb_read_loop :: "nat \<Rightarrow> u32 \<Rightarrow> u32 \<Rightarrow> 'a kdev_scheme \<Rightarrow> u32 \<times> 'a kdev_scheme" where
  "kb_read_loop 0 buf rd s = (rd, s)"
| "kb_read_loop (Suc n) buf rd s =
     (if kb_count s > 0
      then let (c, s1) = kb_get s
           in kb_read_loop n buf (rd + 1) (s1\<lparr>mem := (mem s1)(buf + rd := c)\<rparr>)
      else (rd, s))"

definition keyboard_driver_read :: "u32 \<Rightarrow> u32 \<Rightarrow> u32 \<Rightarrow> 'a kdev_scheme \<Rightarrow> u32 \<times> 'a kdev_scheme" where
  "keyboard_driver_read drv buf sz s = kb_read_loop (unat sz) buf 0 s"

definition keyboard_driver_ops :: driver_ops_t where
  "keyboard_driver_ops = \<lparr>op_init = Some Keyboard_driver_init, op_cleanup = Some Keyboard_driver_cleanup,
     op_read = Some Keyboard_driver_read\<rparr>"

definition keyboard_driver :: driver_t where
  "keyboard_driver = \<lparr>d_name = lit ''ps2_keyboard'', d_type = DRIVER_TYPE_INPUT, d_state = DRIVER_STATE_UNLOADED, d_major = 1,
     d_minor = 0, d_ops = Some keyboard_driver_ops, d_next = 0\<rparr>"

definition keyboard_init :: "u32 \<Rightarrow> 'a kdev_scheme \<Rightarrow> 'a kdev_scheme option" where
  "keyboard_init drv s =
     (let s1 = s\<lparr>kb_read_idx := 0, kb_write_idx := 0, kb_count := 0\<rparr>;
          s2 = isr_register_handler 33 Keyboard_callback s1
      in do {
        (_, s3) \<leftarrow> driver_register drv s2;
        (_, s4) \<leftarrow> driver_load call_init (lit ''ps2_keyboard'') s3;
        Some (kprintf (litln ''[KB] PS/2 keyboard driver initialized'') [] s4)
      })"

definition keyboard_has_input :: "'a kdev_scheme \<Rightarrow> bool" where
  "keyboard_has_input s \<longleftrightarrow> kb_count s > 0"

section \<open>Waiting\<close>

datatype irq = IRQ_timer registers_t | IRQ_keyboard registers_t u8

fun deliver :: "irq \<Rightarrow> 'a kdev_scheme \<Rightarrow> 'a kdev_scheme" where
  "deliver (IRQ_timer regs) s = timer_callback regs s"
| "deliver (IRQ_keyboard regs code) s = keyboard_callback regs code s"

fun sleep_loop :: "u64 \<Rightarrow> irq list \<Rightarrow> 'a kdev_scheme \<Rightarrow> (irq list \<times> 'a kdev_scheme) option" where
  "sleep_loop target irqs s =
     (if timer_ticks s < target
      then (case irqs of [] \<Rightarrow> None | i # irqs' \<Rightarrow> sleep_loop target irqs' (deliver i s))
      else Some (irqs, s))"

definition timer_sleep :: "u32 \<Rightarrow> irq list \<Rightarrow> 'a kdev_scheme \<Rightarrow> (irq list \<times> 'a kdev_scheme) option" where
  "timer_sleep ms irqs s = sleep_loop (timer_ticks s + ucast (ms * timer_frequency s div 1000)) irqs s"

fun getchar_loop :: "irq list \<Rightarrow> 'a kdev_scheme \<Rightarrow> (irq list \<times> 'a kdev_scheme) option" where
  "getchar_loop irqs s =
     (if kb_count s = 0
      then (case irqs of [] \<Rightarrow> None | i # irqs' \<Rightarrow> getchar_loop irqs' (deliver i s))
      else Some (irqs, s))"

definition keyboard_getchar :: "irq list \<Rightarrow> 'a kdev_scheme \<Rightarrow> (u8 \<times> irq list \<times> 'a kdev_scheme) option" where
  "keyboard_getchar irqs s =
     do {
       (irqs', s1) \<leftarrow> getchar_loop irqs s;
       let (c, s2) = kb_get s1;
       Some (c, irqs', s2)
     }"

declare sleep_loop.simps [simp del] getchar_loop.simps [simp del]


section \<open>The ring buffer as a queue\<close>

lemma kprintf_dev [simp]:
  "timer_ticks (kprintf f a s) = timer_ticks s" "timer_frequency (kprintf f a s) = timer_frequency s"
  "kb_buffer (kprintf f a s) = kb_buffer s" "kb_read_idx (kprintf f a s) = kb_read_idx s"
  "kb_write_idx (kprintf f a s) = kb_write_idx s" "kb_count (kprintf f a s) = kb_count s"
  "kdev.more (kprintf f a s) = kdev.more s"
  by (subst kprintf_eq; simp)+

definition slot :: "nat \<Rightarrow> u32" where
  "slot k = of_nat (k mod 256)"

definition kb_queue :: "'a kdev_scheme \<Rightarrow> u8 list \<Rightarrow> bool" where
  "kb_queue s xs \<longleftrightarrow> length xs \<le> 256 \<and> kb_count s = of_nat (length xs) \<and>
     (\<exists>r < 256. kb_read_idx s = of_nat r \<and> kb_write_idx s = slot (r + length xs) \<and>
       (\<forall>i < length xs. xs ! i = kb_buffer s (slot (r + i))))"

lemma slot_inj: "slot a = slot b \<longleftrightarrow> a mod 256 = b mod 256"
proof -
  have "unat (slot a) = a mod 256" "unat (slot b) = b mod 256"
    by (simp_all add: slot_def unat_of_nat32)
  then show ?thesis unfolding slot_def by metis
qed

lemma slot_Suc: "(slot k + 1) mod 256 = slot (Suc k)"
proof -
  have e: "slot k + 1 = of_nat (Suc (k mod 256))" by (simp add: slot_def)
  have "Suc (k mod 256) < 2 ^ 32" using mod_less_divisor [of 256 k] by simp
  then have "unat (of_nat (Suc (k mod 256)) :: u32) = Suc (k mod 256)" by (simp only: unat_of_nat32)
  then have "unat ((slot k + 1) mod 256) = Suc (k mod 256) mod 256" by (simp only: e unat_mod) simp
  also have "\<dots> = Suc k mod 256" by (rule mod_Suc_eq)
  finally show ?thesis unfolding slot_def by (metis of_unat32)
qed

lemma slot_ne: "i < n \<Longrightarrow> n < 256 \<Longrightarrow> slot (r + i) \<noteq> slot (r + n)"
proof
  assume i: "i < n" "n < 256" and "slot (r + i) = slot (r + n)"
  then have "(r + n) mod 256 = (r + i) mod 256" by (simp add: slot_inj)
  then have "256 dvd (r + n) - (r + i)" by (simp add: mod_eq_dvd_iff_nat i(1) less_imp_le)
  then have "256 dvd n - i" by simp
  then show False using i by (auto dest: dvd_imp_le)
qed

lemma queue_put:
  assumes "kb_queue s xs" "length xs < 256"
  shows "kb_queue (kb_put c s) (xs @ [c])"
proof -
  from assms(1) obtain r where r: "r < 256" "kb_read_idx s = of_nat r" "kb_write_idx s = slot (r + length xs)"
    "\<forall>i < length xs. xs ! i = kb_buffer s (slot (r + i))" "kb_count s = of_nat (length xs)"
    unfolding kb_queue_def by blast
  have "\<forall>i < length (xs @ [c]). (xs @ [c]) ! i = kb_buffer (kb_put c s) (slot (r + i))"
    using r(3,4) slot_ne [OF _ assms(2), of _ r] by (auto simp: kb_put_def nth_append less_Suc_eq)
  moreover have "kb_write_idx (kb_put c s) = slot (r + length (xs @ [c]))" using r(3) by (simp add: kb_put_def slot_Suc)
  ultimately show ?thesis using r(1,2,5) assms(2) unfolding kb_queue_def by (auto simp: kb_put_def add.commute)
qed

lemma queue_get:
  assumes "kb_queue s (x # xs)"
  shows "fst (kb_get s) = x" "kb_queue (snd (kb_get s)) xs"
proof -
  from assms obtain r where r: "r < 256" "kb_read_idx s = of_nat r" "kb_write_idx s = slot (r + length (x # xs))"
    "\<forall>i < length (x # xs). (x # xs) ! i = kb_buffer s (slot (r + i))" "kb_count s = of_nat (length (x # xs))"
    "length (x # xs) \<le> 256"
    unfolding kb_queue_def by blast
  have s0: "slot r = of_nat r" using r(1) by (simp add: slot_def)
  show "fst (kb_get s) = x" using r(4) [rule_format, of 0] by (simp add: kb_get_def r(2) s0)
  let ?s = "snd (kb_get s)"
  have "kb_read_idx ?s = of_nat (Suc r mod 256)" using slot_Suc [of r] by (simp add: kb_get_def r(2) s0) (simp add: slot_def)
  moreover have "slot (Suc r mod 256 + k) = slot (Suc (r + k))" for k
    by (simp add: slot_inj mod_add_left_eq)
  moreover have "\<forall>i < length xs. xs ! i = kb_buffer s (slot (Suc (r + i)))" using r(4) by auto
  ultimately show "kb_queue ?s xs" unfolding kb_queue_def using r(3,5,6)
    by (intro conjI exI [of _ "Suc r mod 256"]) (simp_all add: kb_get_def)
qed

interpretation kb_fifo: fifo_queue kb_queue "\<lambda>c xs. length xs < 256" kb_put kb_get
  by unfold_locales (fact queue_put queue_get)+


section \<open>Interrupts\<close>

lemma more_dev:
  assumes "ksched.more s' = ksched.more s"
  shows "timer_ticks s' = timer_ticks s" "timer_frequency s' = timer_frequency s" "kb_buffer s' = kb_buffer s"
    "kb_read_idx s' = kb_read_idx s" "kb_write_idx s' = kb_write_idx s" "kb_count s' = kb_count s" "kdev.more s' = kdev.more s"
    "drivers s' = drivers s" "driver_list s' = driver_list s" "driver_count s' = driver_count s"
  using assms by (cases s; cases s'; simp)+

lemma tick_more: "ksched.more (scheduler_tick regs s) = ksched.more s"
  by (simp add: scheduler_tick_def run_next_def context_switch_def switch_asm_def set_ctx_def pushl_def
      tss_set_kernel_stack_def vmm_switch_directory_def set_state_def requeue_current_def scheduler_add_def set_next_def
      take_head_def Let_def)

lemma timer_callback_dev [simp]:
  "timer_ticks (timer_callback regs s) = timer_ticks s + 1" "kb_buffer (timer_callback regs s) = kb_buffer s"
  "kb_read_idx (timer_callback regs s) = kb_read_idx s" "kb_write_idx (timer_callback regs s) = kb_write_idx s"
  "kb_count (timer_callback regs s) = kb_count s" "timer_frequency (timer_callback regs s) = timer_frequency s"
  using more_dev [OF tick_more [of regs "s\<lparr>timer_ticks := timer_ticks s + 1\<rparr>"]] by (simp_all add: timer_callback_def)

text \<open>The characters a sequence of interrupts types.\<close>

fun typed :: "irq \<Rightarrow> u8 list" where
  "typed (IRQ_timer regs) = []"
| "typed (IRQ_keyboard regs code) =
     (if code AND 0x80 \<noteq> 0 \<or> scancode_to_ascii ! unat code = 0 then [] else [scancode_to_ascii ! unat code])"

lemma kb_count_full: "kb_queue s xs \<Longrightarrow> kb_count s < 256 \<longleftrightarrow> length xs < 256"
  by (auto simp: kb_queue_def word_less_nat_alt unat_of_nat32)

lemma deliver_queue: "kb_queue s xs \<Longrightarrow> kb_queue (deliver i s) (take 256 (xs @ typed i))"
proof (cases i)
  case (IRQ_timer regs)
  assume "kb_queue s xs"
  then show ?thesis by (simp add: IRQ_timer kb_queue_def)
next
  case (IRQ_keyboard regs code)
  assume q: "kb_queue s xs"
  then have "length xs \<le> 256" by (simp add: kb_queue_def)
  then show ?thesis using q queue_put [OF q] kb_count_full [OF q]
    by (cases "length xs < 256") (simp_all add: IRQ_keyboard keyboard_callback_def Let_def)
qed

lemma take_take_append: "take n (take n xs @ ys) = take n (xs @ ys)"
  by (simp add: min_def)

lemma delivers_queue:
  "kb_queue s xs \<Longrightarrow> kb_queue (fold deliver is s) (take 256 (xs @ concat (map typed is)))"
proof (induction "is" arbitrary: s xs)
  case Nil
  then show ?case by (simp add: kb_queue_def)
next
  case (Cons i "is")
  from Cons.IH [OF deliver_queue [OF Cons.prems, of i]] show ?case by (simp add: take_take_append del: take_append)
qed

lemma read_loop:
  "kb_queue s xs \<Longrightarrow> kb_read_loop n buf rd s = (rd', s') \<Longrightarrow>
   rd' = rd + of_nat (min n (length xs)) \<and> kb_queue s' (drop n xs) \<and>
   (\<forall>x. mem s' x = (if unat (x - (buf + rd)) < min n (length xs) then xs ! unat (x - (buf + rd)) else mem s x))"
proof (induction n arbitrary: s rd xs)
  case (Suc n)
  show ?case
  proof (cases xs)
    case Nil
    then have "kb_count s = 0" using Suc.prems(1) by (simp add: kb_queue_def)
    then show ?thesis using Suc.prems Nil by simp
  next
    case (Cons x ys)
    have l: "length ys < 256" using Suc.prems(1) Cons by (simp add: kb_queue_def)
    have c: "kb_count s > 0" using Suc.prems(1) Cons l
      by (auto simp: kb_queue_def word_less_nat_alt unat_of_nat32 simp del: of_nat_Suc)
    note g = queue_get [OF Suc.prems(1) [unfolded Cons]]
    let ?s1 = "snd (kb_get s)\<lparr>mem := (mem (snd (kb_get s)))(buf + rd := x)\<rparr>"
    have q1: "kb_queue ?s1 ys" using g(2) by (simp add: kb_queue_def)
    have "kb_read_loop n buf (rd + 1) ?s1 = (rd', s')" using Suc.prems(2) c g(1) by (simp add: case_prod_beta Let_def)
    note IH = Suc.IH [OF q1 this]
    have "mem s' z = (if unat (z - (buf + rd)) < min (Suc n) (length xs) then xs ! unat (z - (buf + rd)) else mem s z)" for z
    proof (cases "z = buf + rd")
      case True
      then have e: "z - (buf + (rd + 1)) = - 1" by simp
      have "\<not> unat (z - (buf + (rd + 1))) < min n (length ys)" unfolding e using l
        by (simp add: unsigned_minus_1_eq_mask mask_eq_exp_minus_1)
      with IH [THEN conjunct2, THEN conjunct2, rule_format, of z] have "mem s' z = mem ?s1 z" by (simp only: if_False)
      then show ?thesis using True by (simp add: Cons)
    next
      case False
      then have "z - (buf + rd) \<noteq> 0" by auto
      then have p: "0 < unat (z - (buf + rd))" by (simp add: unat_gt_0)
      have e: "z - (buf + (rd + 1)) = (z - (buf + rd)) - 1" by simp
      have le: "(1 :: u32) \<le> z - (buf + rd)" using p by (simp add: word_le_nat_alt)
      have "unat (z - (buf + (rd + 1))) = unat (z - (buf + rd)) - 1" unfolding e unat_sub [OF le] by simp
      then show ?thesis using IH False p by (auto simp: Cons nth_Cons' kb_get_def)
    qed
    then show ?thesis using IH by (simp add: Cons add.assoc)
  qed
qed simp


section \<open>Sleeping\<close>

fun is_timer :: "irq \<Rightarrow> bool" where
  "is_timer (IRQ_timer regs) = True"
| "is_timer (IRQ_keyboard regs code) = False"

lemma keyboard_ticks [simp]: "timer_ticks (keyboard_callback regs code s) = timer_ticks s"
  by (simp add: keyboard_callback_def Let_def kb_put_def)

lemma deliver_ticks: "timer_ticks (deliver i s) = timer_ticks s + (if is_timer i then 1 else 0)"
  by (cases i) simp_all

text \<open>
  The loop returns after exactly as many timer interrupts as are missing to the target, whatever else interrupts it, and
  not before.
\<close>

lemma sleep_loop_returns:
  assumes "unat (timer_ticks s) + n = unat target"
  shows "if n \<le> length (filter is_timer irqs)
     then \<exists>pre post. irqs = pre @ post \<and> sleep_loop target irqs s = Some (post, fold deliver pre s) \<and>
       length (filter is_timer pre) = n \<and> timer_ticks (fold deliver pre s) = target
     else sleep_loop target irqs s = None"
  using assms
proof (induction irqs arbitrary: s n)
  case Nil
  have "timer_ticks s < target \<longleftrightarrow> n \<noteq> 0" using Nil by (auto simp: word_less_nat_alt)
  moreover have "n = 0 \<Longrightarrow> timer_ticks s = target" using Nil by (simp add: word_unat_eq_iff)
  ultimately show ?case by (auto simp: sleep_loop.simps)
next
  case (Cons i irqs)
  have lt: "timer_ticks s < target \<longleftrightarrow> n \<noteq> 0" using Cons.prems by (auto simp: word_less_nat_alt)
  show ?case
  proof (cases "n = 0")
    case True
    then have "timer_ticks s = target" using Cons.prems by (simp add: word_unat_eq_iff)
    then show ?thesis using True lt by (auto simp: sleep_loop.simps intro: exI [of _ "[]"])
  next
    case False
    let ?m = "if is_timer i then n - 1 else n"
    have step: "sleep_loop target (i # irqs) s = sleep_loop target irqs (deliver i s)"
      using False lt by (simp add: sleep_loop.simps [of target "i # irqs"])
    have ut: "unat target < 2 ^ LENGTH(64)" by (rule unsigned_less)
    have "unat (timer_ticks s) + 1 < 2 ^ LENGTH(64)"
      using Cons.prems False ut by linarith
    then have "unat (timer_ticks s + 1) = unat (timer_ticks s) + 1" by (simp add: unat_word_ariths)
    then have "unat (timer_ticks (deliver i s)) + ?m = unat target"
      using Cons.prems False by (simp add: deliver_ticks)
    note IH = Cons.IH [OF this]
    show ?thesis
    proof (cases "?m \<le> length (filter is_timer irqs)")
      case True
      with IH obtain pre post where p: "irqs = pre @ post" "sleep_loop target irqs (deliver i s) = Some (post, fold deliver pre (deliver i s))"
        "length (filter is_timer pre) = ?m" "timer_ticks (fold deliver pre (deliver i s)) = target" by auto
      have "n \<le> length (filter is_timer (i # irqs))" using True False by (cases "is_timer i") auto
      moreover have "length (filter is_timer (i # pre)) = n" using p(3) False by simp
      ultimately show ?thesis using p step by (auto intro!: exI [of _ "i # pre"])
    next
      case m: False
      then have "\<not> n \<le> length (filter is_timer (i # irqs))" using False by (cases "is_timer i") auto
      then show ?thesis using IH m step by simp
    qed
  qed
qed


section \<open>Properties\<close>

text \<open>
  C35: Typed characters reach a reader in order. After any interrupts the keyboard buffer holds the first 256 of what it held followed
  by the characters of the key presses among them, the rest being dropped; \<^verbatim>\<open>keyboard_driver_read\<close> then stores
  the first of these, as many as fit the request, into the buffer it is given, returns their number,
  writes no other byte, and leaves the others queued.
\<close>

theorem keyboard_read_in_order:
  assumes "kb_queue s xs" "keyboard_driver_read drv buf sz (fold deliver irqs s) = (rd, s')"
  shows "let all = take 256 (xs @ concat (map typed irqs)) in
     unat rd = min (unat sz) (length all) \<and> bytes_at (mem s') buf (unat rd) = take (unat sz) all \<and>
     (\<forall>x. \<not> x - buf < rd \<longrightarrow> mem s' x = mem (fold deliver irqs s) x) \<and> kb_queue s' (drop (unat sz) all)"
proof -
  let ?all = "take 256 (xs @ concat (map typed irqs))"
  note r = read_loop [OF delivers_queue [OF assms(1), of irqs] assms(2) [unfolded keyboard_driver_read_def]]
  define k where "k = min (unat sz) (length ?all)"
  have k: "k < 2 ^ 32" unfolding k_def by simp
  have rd: "unat rd = k" using r k by (simp add: k_def unat_of_nat32 del: length_take)
  have m: "mem s' x = (if unat (x - buf) < k then ?all ! unat (x - buf) else mem (fold deliver irqs s) x)" for x
    using r unfolding k_def by simp
  have "bytes_at (mem s') buf k = take (unat sz) ?all"
  proof (rule nth_equalityI)
    show "length (bytes_at (mem s') buf k) = length (take (unat sz) ?all)"
      by (simp add: k_def min.commute del: take_append)
    fix i assume "i < length (bytes_at (mem s') buf k)"
    then have i: "i < k" by simp
    then have "unat (buf + of_nat i - buf) = i" using k by (simp add: unat_of_nat32)
    then show "bytes_at (mem s') buf k ! i = take (unat sz) ?all ! i" using i m [of "buf + of_nat i"]
      by (simp add: k_def del: take_append)
  qed
  moreover have "\<not> x - buf < rd \<Longrightarrow> mem s' x = mem (fold deliver irqs s) x" for x
    using m [of x] rd by (simp add: word_less_nat_alt)
  moreover have "kb_queue s' (drop (unat sz) ?all)" using r by blast
  ultimately show ?thesis using rd unfolding Let_def k_def by metis
qed

lemma boot_dev_fields:
  "kb_queue boot_dev []" "timer_ticks boot_dev = 0" "timer_frequency boot_dev = 0"
proof -
  have "kb_count boot_dev = 0" "kb_read_idx boot_dev = of_nat 0" "kb_write_idx boot_dev = slot (0 + length [])"
    by (simp_all add: slot_def boot_dev_def kdev.defs kdrv.defs)
  then show "kb_queue boot_dev []" unfolding kb_queue_def by (intro conjI exI [of _ 0]) simp_all
  show "timer_ticks boot_dev = 0" "timer_frequency boot_dev = 0" by (simp_all add: boot_dev_def kdev.defs kdrv.defs)
qed

theorem keyboard_read_in_order_witness:
  "\<exists>rd s'. keyboard_driver_read 0 0x9000 10 (fold deliver [IRQ_keyboard tick_regs 0x23, IRQ_keyboard tick_regs 0xA3,
       IRQ_timer tick_regs, IRQ_keyboard tick_regs 0x17] boot_dev) = (rd, s') \<and>
     rd = 2 \<and> bytes_at (mem s') 0x9000 2 = lit ''hi'' \<and> kb_queue s' []"
proof -
  let ?irqs = "[IRQ_keyboard tick_regs 0x23, IRQ_keyboard tick_regs 0xA3, IRQ_timer tick_regs, IRQ_keyboard tick_regs 0x17]"
  obtain rd s' where r: "keyboard_driver_read 0 0x9000 10 (fold deliver ?irqs boot_dev) = (rd, s')" by (rule prod.exhaust)
  have "typed (IRQ_keyboard tick_regs 0x23) = [104]" "typed (IRQ_keyboard tick_regs 0x17) = [105]"
    "typed (IRQ_keyboard tick_regs 0xA3) = []"
    by (simp_all add: scancode_to_ascii_def)
  then have t: "concat (map typed ?irqs) = lit ''hi''" by (simp add: lit_def)
  have l: "length (take 256 ([] @ lit ''hi'')) = 2" "take (unat (10 :: u32)) (take 256 ([] @ lit ''hi'')) = lit ''hi''"
    "drop (unat (10 :: u32)) (take 256 ([] @ lit ''hi'')) = []" "min (unat (10 :: u32)) 2 = 2"
    by (simp_all add: lit_def)
  note p = keyboard_read_in_order [OF boot_dev_fields(1) r, unfolded t Let_def l]
  then have "unat rd = 2" by blast
  moreover from this have "rd = 2" by (metis of_unat32 of_nat_numeral)
  ultimately show ?thesis using r p by auto
qed



end
