(* ===== verification/Ramfs.thy ===== *)
theory Ramfs
  imports Devices
begin

text \<open>
  The RAM file system, \<^verbatim>\<open>kernel/fs/ramfs.c\<close>, with the node type of \<^verbatim>\<open>kernel/include/fs/vfs.h\<close>. Nodes and file headers are
  allocated with \<^verbatim>\<open>kmalloc\<close> and kept in heaps of records indexed by address; the bytes of a file are
  a heap block in byte memory, since \<^verbatim>\<open>read\<close> and \<^verbatim>\<open>write\<close> copy between it and the caller's buffer. A name is
  the string before the terminating zero. The tables of operations are records of optional function
  names.
\<close>

unbundle bit_operations_syntax

section \<open>State\<close>

datatype read_fn_t = Ramfs_read
datatype write_fn_t = Ramfs_write
datatype open_fn_t = Ramfs_open
datatype close_fn_t = Ramfs_close
datatype readdir_fn_t = Ramfs_readdir
datatype finddir_fn_t = Ramfs_finddir
datatype create_fn_t = Ramfs_do_create
datatype unlink_fn_t = Ramfs_do_unlink
datatype mkdir_fn_t = Ramfs_do_mkdir

record vfs_ops_t =
  vop_read :: "read_fn_t option"
  vop_write :: "write_fn_t option"
  vop_open :: "open_fn_t option"
  vop_close :: "close_fn_t option"
  vop_readdir :: "readdir_fn_t option"
  vop_finddir :: "finddir_fn_t option"
  vop_create :: "create_fn_t option"
  vop_unlink :: "unlink_fn_t option"
  vop_mkdir :: "mkdir_fn_t option"

record vfs_node_t =
  n_name :: "u8 list"
  n_type :: u32
  n_permissions :: u32
  n_uid :: u32
  n_gid :: u32
  n_inode :: u32
  n_size :: u32
  n_flags :: u32
  n_parent :: u32
  n_children :: u32
  n_next_sibling :: u32
  n_mount_point :: u32
  n_ops :: "vfs_ops_t option"
  n_private_data :: u32

record ramfs_file_t =
  f_data :: u32
  f_size :: u32
  f_capacity :: u32

definition zero_node :: vfs_node_t where
  "zero_node = \<lparr>n_name = [], n_type = 0, n_permissions = 0, n_uid = 0, n_gid = 0, n_inode = 0, n_size = 0, n_flags = 0,
     n_parent = 0, n_children = 0, n_next_sibling = 0, n_mount_point = 0, n_ops = None, n_private_data = 0\<rparr>"

definition empty_file :: ramfs_file_t where
  "empty_file = \<lparr>f_data = 0, f_size = 0, f_capacity = 0\<rparr>"

record kfs = kdev +
  nodes :: "u32 \<Rightarrow> vfs_node_t"
  files :: "u32 \<Rightarrow> ramfs_file_t"
  next_inode :: u32

definition boot_fs :: kfs where
  "boot_fs = kdev.extend boot_dev (kfs.fields (\<lambda>_. zero_node) (\<lambda>_. empty_file) 1)"

abbreviation (input) VFS_FILE :: u32 where "VFS_FILE \<equiv> 0x01"
abbreviation (input) VFS_DIRECTORY :: u32 where "VFS_DIRECTORY \<equiv> 0x02"
abbreviation (input) RAMFS_MAX_FILE_SIZE :: u32 where "RAMFS_MAX_FILE_SIZE \<equiv> 0x10000"
abbreviation (input) sizeof_vfs_node :: u32 where "sizeof_vfs_node \<equiv> 180"
abbreviation (input) sizeof_ramfs_file :: u32 where "sizeof_ramfs_file \<equiv> 12"

definition upd_node :: "u32 \<Rightarrow> (vfs_node_t \<Rightarrow> vfs_node_t) \<Rightarrow> 'a kfs_scheme \<Rightarrow> 'a kfs_scheme" where
  "upd_node p f s = s\<lparr>nodes := (nodes s)(p := f (nodes s p))\<rparr>"

definition upd_file :: "u32 \<Rightarrow> (ramfs_file_t \<Rightarrow> ramfs_file_t) \<Rightarrow> 'a kfs_scheme \<Rightarrow> 'a kfs_scheme" where
  "upd_file p f s = s\<lparr>files := (files s)(p := f (files s p))\<rparr>"

section \<open>Files\<close>

definition ramfs_read :: "u32 \<Rightarrow> u32 \<Rightarrow> u32 \<Rightarrow> u32 \<Rightarrow> 'a kfs_scheme \<Rightarrow> u32 \<times> 'a kfs_scheme" where
  "ramfs_read node offset sz buffer s =
     (let p = n_private_data (nodes s node); file = files s p
      in if p = 0 \<or> buffer = 0 then (- 1, s)
         else if offset \<ge> f_size file then (0, s)
         else let available = f_size file - offset;
                  sz' = (if sz > available then available else sz)
              in (sz', s\<lparr>mem := memcpy (mem s) buffer (f_data file + offset) sz'\<rparr>))"

text \<open>The branch of \<^verbatim>\<open>ramfs_write\<close> that enlarges the block of the file; \<^const>\<open>None\<close> inside the result is the error return.\<close>

definition ramfs_grow :: "u32 \<Rightarrow> u32 \<Rightarrow> 'a kfs_scheme \<Rightarrow> (bool \<times> 'a kfs_scheme) option" where
  "ramfs_grow p new_size s =
     (let c = new_size * 2;
          new_cap = (if c > RAMFS_MAX_FILE_SIZE then RAMFS_MAX_FILE_SIZE else c)
      in if new_size > new_cap then Some (False, s)
         else do {
           (new_data, s1) \<leftarrow> kmalloc new_cap s;
           if new_data = 0 then Some (False, s1)
           else
             (let file = files s1 p;
                  s2 = (if f_data file \<noteq> 0 \<and> f_size file > 0
                        then s1\<lparr>mem := memcpy (mem s1) new_data (f_data file) (f_size file)\<rparr> else s1);
                  s3 = (if f_data file \<noteq> 0 then kfree (f_data file) s2 else s2)
              in Some (True, upd_file p (\<lambda>f. f\<lparr>f_data := new_data, f_capacity := new_cap\<rparr>) s3))
         })"

definition ramfs_store :: "u32 \<Rightarrow> u32 \<Rightarrow> u32 \<Rightarrow> u32 \<Rightarrow> u32 \<Rightarrow> 'a kfs_scheme \<Rightarrow> u32 \<times> 'a kfs_scheme" where
  "ramfs_store node offset sz buffer new_size s =
     (let p = n_private_data (nodes s node);
          s1 = s\<lparr>mem := memcpy (mem s) (f_data (files s p) + offset) buffer sz\<rparr>;
          s2 = (if new_size > f_size (files s1 p) then upd_file p (\<lambda>f. f\<lparr>f_size := new_size\<rparr>) s1 else s1)
      in (sz, upd_node node (\<lambda>n. n\<lparr>n_size := f_size (files s2 p)\<rparr>) s2))"

definition ramfs_write :: "u32 \<Rightarrow> u32 \<Rightarrow> u32 \<Rightarrow> u32 \<Rightarrow> 'a kfs_scheme \<Rightarrow> (u32 \<times> 'a kfs_scheme) option" where
  "ramfs_write node offset sz buffer s =
     (let p = n_private_data (nodes s node)
      in if p = 0 \<or> buffer = 0 then Some (- 1, s)
         else
           (let new_size = offset + sz
            in if new_size > f_capacity (files s p) then
                 do {
                   (ok, s1) \<leftarrow> ramfs_grow p new_size s;
                   Some (if ok then ramfs_store node offset sz buffer new_size s1 else (- 1, s1))
                 }
               else Some (ramfs_store node offset sz buffer new_size s)))"

definition ramfs_open :: "u32 \<Rightarrow> u32 \<Rightarrow> 'a kfs_scheme \<Rightarrow> u32 \<times> 'a kfs_scheme" where
  "ramfs_open node flags s = (0, s)"

definition ramfs_close :: "u32 \<Rightarrow> 'a kfs_scheme \<Rightarrow> u32 \<times> 'a kfs_scheme" where
  "ramfs_close node s = (0, s)"

section \<open>Directories\<close>

partial_function (option) readdir_walk :: "(u32 \<Rightarrow> vfs_node_t) \<Rightarrow> u32 \<Rightarrow> u32 \<Rightarrow> u32 \<Rightarrow> u32 option" where
  "readdir_walk ns index child i =
     (if child = 0 then Some 0
      else if i = index then Some child else readdir_walk ns index (n_next_sibling (ns child)) (i + 1))"

declare readdir_walk.simps [code]

definition ramfs_readdir :: "u32 \<Rightarrow> u32 \<Rightarrow> 'a kfs_scheme \<Rightarrow> u32 option" where
  "ramfs_readdir node index s =
     (if n_type (nodes s node) AND VFS_DIRECTORY = 0 then Some 0
      else readdir_walk (nodes s) index (n_children (nodes s node)) 0)"

partial_function (option) finddir_walk :: "(u32 \<Rightarrow> vfs_node_t) \<Rightarrow> u8 list \<Rightarrow> u32 \<Rightarrow> u32 option" where
  "finddir_walk ns name child =
     (if child = 0 then Some 0
      else if n_name (ns child) = name then Some child else finddir_walk ns name (n_next_sibling (ns child)))"

declare finddir_walk.simps [code]

definition ramfs_finddir :: "u32 \<Rightarrow> u8 list \<Rightarrow> 'a kfs_scheme \<Rightarrow> u32 option" where
  "ramfs_finddir node name s =
     (if n_type (nodes s node) AND VFS_DIRECTORY = 0 then Some 0
      else finddir_walk (nodes s) name (n_children (nodes s node)))"

definition ramfs_ops :: vfs_ops_t where
  "ramfs_ops = \<lparr>vop_read = Some Ramfs_read, vop_write = Some Ramfs_write, vop_open = Some Ramfs_open,
     vop_close = Some Ramfs_close, vop_readdir = Some Ramfs_readdir, vop_finddir = Some Ramfs_finddir,
     vop_create = None, vop_unlink = None, vop_mkdir = None\<rparr>"

definition ramfs_dir_ops :: vfs_ops_t where
  "ramfs_dir_ops = \<lparr>vop_read = Some Ramfs_read, vop_write = Some Ramfs_write, vop_open = Some Ramfs_open,
     vop_close = Some Ramfs_close, vop_readdir = Some Ramfs_readdir, vop_finddir = Some Ramfs_finddir,
     vop_create = Some Ramfs_do_create, vop_unlink = Some Ramfs_do_unlink, vop_mkdir = Some Ramfs_do_mkdir\<rparr>"

definition ramfs_root_ops :: vfs_ops_t where
  "ramfs_root_ops = \<lparr>vop_read = Some Ramfs_read, vop_write = Some Ramfs_write, vop_open = Some Ramfs_open,
     vop_close = Some Ramfs_close, vop_readdir = Some Ramfs_readdir, vop_finddir = Some Ramfs_finddir,
     vop_create = Some Ramfs_do_create, vop_unlink = Some Ramfs_do_unlink, vop_mkdir = Some Ramfs_do_mkdir\<rparr>"

definition ramfs_create_node :: "u8 list \<Rightarrow> u32 \<Rightarrow> 'a kfs_scheme \<Rightarrow> (u32 \<times> 'a kfs_scheme) option" where
  "ramfs_create_node name ty s =
     do {
       (node, s1) \<leftarrow> kmalloc sizeof_vfs_node s;
       if node = 0 then Some (0, s1)
       else
         (let s2 = upd_node node (\<lambda>_. zero_node\<lparr>n_name := take 127 name, n_type := ty, n_inode := next_inode s1,
                     n_permissions := 0x1ED, n_ops := Some ramfs_ops\<rparr>) (s1\<lparr>next_inode := next_inode s1 + 1\<rparr>)
          in if ty AND VFS_FILE \<noteq> 0 then
               do {
                 (file, s3) \<leftarrow> kmalloc sizeof_ramfs_file s2;
                 Some (node, if file \<noteq> 0
                   then upd_node node (\<lambda>n. n\<lparr>n_private_data := file\<rparr>) (upd_file file (\<lambda>_. empty_file) s3)
                   else s3)
               }
             else Some (node, s2))
     }"

definition ramfs_do_create :: "u32 \<Rightarrow> u8 list \<Rightarrow> u32 \<Rightarrow> 'a kfs_scheme \<Rightarrow> (u32 \<times> 'a kfs_scheme) option" where
  "ramfs_do_create parent name ty s =
     (if n_type (nodes s parent) AND VFS_DIRECTORY = 0 then Some (- 1, s)
      else do {
        other \<leftarrow> ramfs_finddir parent name s;
        if other \<noteq> 0 then Some (- 1, s)
        else do {
          (node, s1) \<leftarrow> ramfs_create_node name ty s;
          if node = 0 then Some (- 1, s1)
          else
            (let s2 = upd_node node (\<lambda>n. n\<lparr>n_parent := parent\<rparr>) s1;
                 s3 = upd_node node (\<lambda>n. n\<lparr>n_next_sibling := n_children (nodes s2 parent)\<rparr>) s2
             in Some (0, upd_node parent (\<lambda>n. n\<lparr>n_children := node\<rparr>) s3))
        }
      })"

partial_function (option) unlink_walk :: "(u32 \<Rightarrow> vfs_node_t) \<Rightarrow> u8 list \<Rightarrow> u32 \<Rightarrow> u32 \<Rightarrow> (u32 \<times> u32) option" where
  "unlink_walk ns name prev child =
     (if child = 0 then Some (prev, 0)
      else if n_name (ns child) = name then Some (prev, child)
      else unlink_walk ns name child (n_next_sibling (ns child)))"

declare unlink_walk.simps [code]

definition ramfs_release :: "u32 \<Rightarrow> 'a kfs_scheme \<Rightarrow> 'a kfs_scheme" where
  "ramfs_release child s =
     (let p = n_private_data (nodes s child);
          s1 = (if p \<noteq> 0
                then kfree p (if f_data (files s p) \<noteq> 0 then kfree (f_data (files s p)) s else s)
                else s)
      in kfree child s1)"

definition ramfs_do_unlink :: "u32 \<Rightarrow> u8 list \<Rightarrow> 'a kfs_scheme \<Rightarrow> (u32 \<times> 'a kfs_scheme) option" where
  "ramfs_do_unlink parent name s =
     (if n_type (nodes s parent) AND VFS_DIRECTORY = 0 then Some (- 1, s)
      else do {
        (prev, child) \<leftarrow> unlink_walk (nodes s) name 0 (n_children (nodes s parent));
        if child = 0 then Some (- 1, s)
        else
          (let nx = n_next_sibling (nodes s child);
               s1 = (if prev \<noteq> 0 then upd_node prev (\<lambda>n. n\<lparr>n_next_sibling := nx\<rparr>) s
                     else upd_node parent (\<lambda>n. n\<lparr>n_children := nx\<rparr>) s)
           in Some (0, ramfs_release child s1))
      })"

definition ramfs_do_mkdir :: "u32 \<Rightarrow> u8 list \<Rightarrow> u32 \<Rightarrow> 'a kfs_scheme \<Rightarrow> (u32 \<times> 'a kfs_scheme) option" where
  "ramfs_do_mkdir parent name mode s =
     (if n_type (nodes s parent) AND VFS_DIRECTORY = 0 then Some (- 1, s)
      else do {
        other \<leftarrow> ramfs_finddir parent name s;
        if other \<noteq> 0 then Some (- 1, s)
        else do {
          (dir, s1) \<leftarrow> ramfs_create_node name VFS_DIRECTORY s;
          if dir = 0 then Some (- 1, s1)
          else
            (let s2 = upd_node dir (\<lambda>n. n\<lparr>n_permissions := mode, n_parent := parent\<rparr>) s1;
                 s3 = upd_node dir (\<lambda>n. n\<lparr>n_next_sibling := n_children (nodes s2 parent)\<rparr>) s2;
                 s4 = upd_node parent (\<lambda>n. n\<lparr>n_children := dir\<rparr>) s3
             in Some (0, upd_node dir (\<lambda>n. n\<lparr>n_ops := Some ramfs_dir_ops\<rparr>) s4))
        }
      })"

definition ramfs_init :: "'a kfs_scheme \<Rightarrow> (u32 \<times> 'a kfs_scheme) option" where
  "ramfs_init s =
     do {
       (root, s1) \<leftarrow> ramfs_create_node (lit ''/'') VFS_DIRECTORY s;
       if root = 0 then Some (0, s1)
       else Some (root, kprintf (litln ''[RAMFS] RAM filesystem initialized'') []
              (upd_node root (\<lambda>n. n\<lparr>n_ops := Some ramfs_root_ops\<rparr>) s1))
     }"


section \<open>What the heap and the file system leave to each other\<close>

lemma kprintf_fs [simp]:
  "nodes (kprintf f a s) = nodes s" "files (kprintf f a s) = files s" "next_inode (kprintf f a s) = next_inode s"
  "kfs.more (kprintf f a s) = kfs.more s"
  by (subst kprintf_eq; simp)+

lemma more_fs:
  assumes "kheap.more s' = kheap.more s"
  shows "nodes s' = nodes s" "files s' = files s" "next_inode s' = next_inode s" "kfs.more s' = kfs.more s"
  using assms by (cases s; cases s'; simp)+

lemma kfree_fs [simp]:
  "nodes (kfree p s) = nodes s" "files (kfree p s) = files s" "next_inode (kfree p s) = next_inode s"
  by (rule more_fs, simp)+

lemma upd_fs_simps [simp]:
  "nodes (upd_node p f s) = (nodes s)(p := f (nodes s p))" "files (upd_node p f s) = files s"
  "nodes (upd_file q g s) = nodes s" "files (upd_file q g s) = (files s)(q := g (files s q))"
  "next_inode (upd_node p f s) = next_inode s" "next_inode (upd_file q g s) = next_inode s"
  "mem (upd_node p f s) = mem s" "mem (upd_file q g s) = mem s"
  "heap_start (upd_node p f s) = heap_start s" "heap_start (upd_file q g s) = heap_start s"
  "heap_initialized (upd_node p f s) = heap_initialized s" "heap_initialized (upd_file q g s) = heap_initialized s"
  by (simp_all add: upd_node_def upd_file_def)

lemma upd_fs_heap [simp]:
  "heap_ok (upd_node p f s) = heap_ok s" "blocks_of (upd_node p f s) = blocks_of s" "heap_live (upd_node p f s) = heap_live s"
  "heap_ok (upd_file q g s) = heap_ok s" "blocks_of (upd_file q g s) = blocks_of s" "heap_live (upd_file q g s) = heap_live s"
  "heap_ok (s\<lparr>next_inode := i\<rparr>) = heap_ok s" "blocks_of (s\<lparr>next_inode := i\<rparr>) = blocks_of s"
  "heap_live (s\<lparr>next_inode := i\<rparr>) = heap_live s" "heap_end (upd_node p f s) = heap_end s" "heap_end (upd_file q g s) = heap_end s"
  by (simp_all add: heap_ok_def blocks_of_def heap_end_def heap_live_def)

definition live_at :: "'a kheap_scheme \<Rightarrow> u32 \<Rightarrow> bool" where
  "live_at s a \<longleftrightarrow> unat a \<in> fst ` heap_live s"

lemma live_unique:
  "(a, n) \<in> live p bs \<Longrightarrow> (a, m) \<in> live p bs \<Longrightarrow> n = m"
proof (induction bs arbitrary: p)
  case (Cons b bs)
  obtain sz fr where b: "b = (sz, fr)" by (cases b)
  have "(a, l) \<in> live (p + 16 + sz) bs \<Longrightarrow> a \<noteq> p + 16" for l using live_range [of a l "p + 16 + sz" bs] by auto
  then show ?case using Cons by (auto simp: b split: if_splits)
qed simp

lemma fresh_not_live:
  assumes "heap_live t = insert (unat a, n) (heap_live s)" "(unat a, n) \<notin> heap_live s" "heap_start t = heap_start s"
  shows "\<not> live_at s a"
proof
  assume "live_at s a"
  then obtain m where "(unat a, m) \<in> heap_live s" by (auto simp: live_at_def)
  then have "(unat a, m) \<in> heap_live t" "(unat a, n) \<in> heap_live t" using assms(1) by auto
  then have "m = n" unfolding heap_live_def by (rule live_unique)
  then show False using \<open>(unat a, m) \<in> heap_live s\<close> assms(2) by simp
qed

text \<open>Live blocks lie inside the heap and apart from each other.\<close>

lemma live_apart:
  "(a, n) \<in> live p bs \<Longrightarrow> (b, m) \<in> live p bs \<Longrightarrow> (a, n) \<noteq> (b, m) \<Longrightarrow> {a..<a + n} \<inter> {b..<b + m} = {}"
proof (induction bs arbitrary: p)
  case (Cons x bs)
  obtain sz fr where x: "x = (sz, fr)" by (cases x)
  have r: "(c, l) \<in> live (p + 16 + sz) bs \<Longrightarrow> p + 16 + sz + 16 \<le> c" for c l
    using live_range [of c l "p + 16 + sz" bs] by simp
  from Cons.prems consider "(a, n) \<in> live (p + 16 + sz) bs" "(b, m) \<in> live (p + 16 + sz) bs"
    | "(a, n) = (p + 16, sz)" "(b, m) \<in> live (p + 16 + sz) bs" | "(a, n) \<in> live (p + 16 + sz) bs" "(b, m) = (p + 16, sz)"
    by (auto simp: x split: if_splits)
  then show ?case
  proof cases
    case 1
    then show ?thesis using Cons.IH Cons.prems(3) by blast
  next
    case 2
    then show ?thesis using r [OF 2(2)] by auto
  next
    case 3
    then show ?thesis using r [OF 3(1)] by auto
  qed
qed simp

lemma block_bounds:
  assumes "heap_ok s" "(a, n) \<in> heap_live s"
  shows "unat (heap_start s) \<le> a" "a + n \<le> heap_end s" "a + n < 2 ^ 32" "0 < a"
proof -
  note h = heap_okD [OF assms(1)]
  have "unat (heap_start s) + 16 \<le> a \<and> a + n \<le> unat (heap_start s) + span (blocks_of s)"
    using live_range assms(2) unfolding heap_live_def by blast
  then show "unat (heap_start s) \<le> a" "a + n \<le> heap_end s" "0 < a" by (auto simp: heap_end_def h(6))
  then show "a + n < 2 ^ 32" using h(8) by linarith
qed

lemma block_bytes: "(a, n) \<in> heap_live s \<Longrightarrow> a \<le> k \<Longrightarrow> k < a + n \<Longrightarrow> k \<in> payload (heap_live s)"
  unfolding payload_def by (intro UN_I [of "(a, n)"]) simp_all

lemma copy_into_block:
  assumes ok: "heap_ok s" and B: "(B, n) \<in> heap_live s" "B \<le> b" "b + l \<le> B + n"
    and a: "a + l \<le> 2 ^ 32" "{a..<a + l} \<inter> {b..<b + l} = {}"
  defines "t \<equiv> s\<lparr>mem := memcpy (mem s) (of_nat b) (of_nat a) (of_nat l)\<rparr>"
  shows "heap_ok t" "blocks_of t = blocks_of s" "heap_live t = heap_live s"
    "k < 2 ^ 32 \<Longrightarrow> mem t (of_nat k) = (if b \<le> k \<and> k < b + l then mem s (of_nat (a + (k - b))) else mem s (of_nat k))"
proof -
  have c: "mem t (of_nat k) = (if b \<le> k \<and> k < b + l then mem s (of_nat (a + (k - b))) else mem s (of_nat k))"
    if "k < 2 ^ 32" for k
  proof (cases "l = 0")
    case True
    then show ?thesis by (auto simp: t_def memcpy_def)
  next
    case False
    have "b + l \<le> 2 ^ 32" using block_bounds(3) [OF ok B(1)] B(3) by linarith
    from memcpy_nat [OF a(1) this a(2) _ that, of "mem s"] False show ?thesis by (simp add: t_def)
  qed
  show "k < 2 ^ 32 \<Longrightarrow> mem t (of_nat k) = (if b \<le> k \<and> k < b + l then mem s (of_nat (a + (k - b))) else mem s (of_nat k))"
    by (rule c)
  have "memcpy (mem s) (of_nat b) (of_nat a) (of_nat l) (of_nat k) = mem s (of_nat k)"
    if "k < 2 ^ 32" "k \<notin> payload (heap_live s)" for k
  proof -
    have "\<not> (b \<le> k \<and> k < b + l)" using block_bytes [OF B(1), of k] that(2) B(2,3) by linarith
    then show ?thesis using c [OF that(1)] unfolding t_def by auto
  qed
  from heap_ok_write [OF ok this] show "heap_ok t" "blocks_of t = blocks_of s" "heap_live t = heap_live s"
    unfolding t_def by blast+
qed


section \<open>Files as byte strings\<close>

text \<open>
  A file header is well-formed when it is empty or its data is a live heap block that holds the capacity, at least
  the size. The contents are the first \<^verbatim>\<open>size\<close> bytes of the block.
\<close>

definition data_block :: "'a kfs_scheme \<Rightarrow> u32 \<Rightarrow> nat \<Rightarrow> bool" where
  "data_block s p n \<longleftrightarrow> (unat (f_data (files s p)), n) \<in> heap_live s \<and> unat (f_capacity (files s p)) \<le> n"

definition file_ok :: "'a kfs_scheme \<Rightarrow> u32 \<Rightarrow> bool" where
  "file_ok s p \<longleftrightarrow> f_size (files s p) \<le> f_capacity (files s p) \<and> f_capacity (files s p) \<le> RAMFS_MAX_FILE_SIZE \<and>
     (if f_data (files s p) = 0 then f_capacity (files s p) = 0 else \<exists>n. data_block s p n)"

definition contents :: "'a kfs_scheme \<Rightarrow> u32 \<Rightarrow> u8 list" where
  "contents s p = map (\<lambda>i. mem s (of_nat (unat (f_data (files s p)) + i))) [0..<unat (f_size (files s p))]"

lemma length_contents [simp]: "length (contents s p) = unat (f_size (files s p))"
  by (simp add: contents_def)

lemma nth_contents:
  "i < unat (f_size (files s p)) \<Longrightarrow> contents s p ! i = mem s (of_nat (unat (f_data (files s p)) + i))"
  by (simp add: contents_def)

lemma file_okD:
  assumes "file_ok s p"
  shows "unat (f_size (files s p)) \<le> unat (f_capacity (files s p))" "unat (f_capacity (files s p)) \<le> 65536"
    "f_data (files s p) = 0 \<Longrightarrow> f_capacity (files s p) = 0" "f_data (files s p) \<noteq> 0 \<Longrightarrow> \<exists>n. data_block s p n"
  using assms by (auto simp: file_ok_def word_le_nat_alt split: if_splits)

text \<open>The memory of the file is not touched when the bytes of live blocks are kept.\<close>

lemma contents_keep:
  assumes "file_ok s p" "files s' p = files s p" "\<And>k. k \<in> payload (heap_live s) \<Longrightarrow> mem s' (of_nat k) = mem s (of_nat k)"
  shows "contents s' p = contents s p"
proof (cases "f_data (files s p) = 0")
  case True
  then have "f_size (files s p) = 0" using file_okD(1,3) [OF assms(1)] by (simp add: unat_eq_0)
  then show ?thesis by (simp add: contents_def assms(2))
next
  case False
  then obtain n where n: "data_block s p n" using file_okD(4) [OF assms(1)] by blast
  have "mem s' (of_nat (unat (f_data (files s p)) + i)) = mem s (of_nat (unat (f_data (files s p)) + i))"
    if "i < unat (f_size (files s p))" for i
  proof (rule assms(3), rule block_bytes)
    show "(unat (f_data (files s p)), n) \<in> heap_live s" using n by (simp add: data_block_def)
    show "unat (f_data (files s p)) + i < unat (f_data (files s p)) + n"
      using n that file_okD(1) [OF assms(1)] by (simp add: data_block_def)
  qed simp
  then show ?thesis by (simp add: contents_def assms(2))
qed

definition grown_cap :: "u32 \<Rightarrow> u32" where
  "grown_cap new_size = (if new_size * 2 > RAMFS_MAX_FILE_SIZE then RAMFS_MAX_FILE_SIZE else new_size * 2)"

lemma grown_cap:
  assumes "unat n \<le> 65536" "n \<noteq> 0"
  shows "unat n \<le> unat (grown_cap n)" "unat (grown_cap n) \<le> 65536" "grown_cap n \<noteq> 0"
proof -
  have u: "unat (n * 2) = unat n * 2" using assms(1) by (simp add: unat_word_ariths)
  have "0 < unat n" using assms(2) by (simp add: unat_gt_0)
  then show "unat n \<le> unat (grown_cap n)" "unat (grown_cap n) \<le> 65536"
    using assms(1) u by (simp_all add: grown_cap_def word_less_nat_alt)
  then show "grown_cap n \<noteq> 0" using \<open>0 < unat n\<close> by auto
qed

lemma kmalloc_kept:
  assumes "heap_ok s" "kmalloc n s = Some (a, s')" "k \<in> kept s"
  shows "mem s' (of_nat k) = mem s (of_nat k)"
  using assms(1,2) by (cases rule: kmalloc_cases) (use assms(3) in auto)

lemma kept_more:
  assumes "heap_start s' = heap_start s" "heap_live s \<subseteq> heap_live s'" "k \<in> kept s"
  shows "k \<in> kept s'"
  using assms unfolding kept_def heap_end_def payload_def by auto

lemma kept_bound:
  assumes "heap_ok s" "k \<in> kept s"
  shows "k < 2 ^ 32"
proof (cases "k \<in> payload (heap_live s)")
  case True
  then obtain a n where "(a, n) \<in> heap_live s" "k < a + n" by (auto simp: payload_def)
  then show ?thesis using block_bounds(3) [OF assms(1)] less_trans by blast
qed (use assms(2) in \<open>auto simp: kept_def\<close>)

lemma kfree_kept:
  assumes "heap_ok s" "(a, n) \<in> heap_live s" "k \<in> kept s"
  shows "mem (kfree (of_nat a) s) (of_nat k) = mem s (of_nat k)"
  using kfree_live(5) [OF assms(1,2) refl assms(3)] .

text \<open>The block of a file, if it has one, and its replacement by a larger one.\<close>

definition old_block :: "'a kfs_scheme \<Rightarrow> u32 \<Rightarrow> nat \<Rightarrow> (nat \<times> nat) set" where
  "old_block s p n = (if f_data (files s p) = 0 then {} else {(unat (f_data (files s p)), n)})"

lemma grow_copy:
  assumes ok: "heap_ok s1" and d: "(unat d, m) \<in> heap_live s1" and b: "data_block s1 p n0" "f_size (files s1 p) \<le> f_capacity (files s1 p)"
    and m: "unat (f_size (files s1 p)) \<le> m" and ap: "(unat d, m) \<noteq> (unat (f_data (files s1 p)), n0)"
  defines "t \<equiv> s1\<lparr>mem := memcpy (mem s1) d (f_data (files s1 p)) (f_size (files s1 p))\<rparr>"
  shows "heap_ok t" "heap_live t = heap_live s1" "heap_ok (kfree (f_data (files s1 p)) t)"
    "heap_live (kfree (f_data (files s1 p)) t) = heap_live s1 - {(unat (f_data (files s1 p)), n0)}"
    "i < unat (f_size (files s1 p)) \<Longrightarrow> mem (kfree (f_data (files s1 p)) t) (of_nat (unat d + i)) =
       mem s1 (of_nat (unat (f_data (files s1 p)) + i))"
    "k \<in> kept s1 \<Longrightarrow> k < unat d \<or> unat d + m \<le> k \<Longrightarrow> mem (kfree (f_data (files s1 p)) t) (of_nat k) = mem s1 (of_nat k)"
proof -
  let ?a = "unat (f_data (files s1 p))" and ?l = "unat (f_size (files s1 p))"
  have B: "(?a, n0) \<in> heap_live s1" "?l \<le> n0" using b by (auto simp: data_block_def word_le_nat_alt)
  note ba = block_bounds [OF ok B(1)] and bd = block_bounds [OF ok d]
  have "{?a..<?a + n0} \<inter> {unat d..<unat d + m} = {}"
    using live_apart B(1) d ap unfolding heap_live_def by metis
  then have dis: "{?a..<?a + ?l} \<inter> {unat d..<unat d + ?l} = {}" using B(2) m by fastforce
  have al: "?a + ?l \<le> 2 ^ 32" using ba(3) B(2) by linarith
  have bl: "unat d + ?l \<le> unat d + m" using m by simp
  note c = copy_into_block [OF ok d order_refl bl al dis, simplified of_unat32, folded t_def]
  show t: "heap_ok t" "heap_live t = heap_live s1" by (rule c)+
  have B': "(?a, n0) \<in> heap_live t" using B(1) t(2) by simp
  note kf = kfree_live [OF t(1) B' refl, simplified of_unat32]
  show "heap_ok (kfree (f_data (files s1 p)) t)" by (rule kf(1))
  show "heap_live (kfree (f_data (files s1 p)) t) = heap_live s1 - {(?a, n0)}" using kf(3) t(2) by simp
  have hs: "heap_start t = heap_start s1" by (simp add: t_def)
  have kp: "k \<in> kept t" if "k \<in> kept s1" for k using kept_more [OF hs _ that] t(2) by simp
  show "mem (kfree (f_data (files s1 p)) t) (of_nat (unat d + i)) = mem s1 (of_nat (?a + i))" if i: "i < ?l" for i
  proof -
    have "unat d + i \<in> payload (heap_live s1)" by (rule block_bytes [OF d]) (use i m in auto)
    moreover have "unat d + i < 2 ^ 32" using i m bd(3) by linarith
    ultimately show ?thesis using kf(5) [OF kp [OF payload_kept]] c(4) [of "unat d + i"] i by (simp del: of_nat_add)
  qed
  show "mem (kfree (f_data (files s1 p)) t) (of_nat k) = mem s1 (of_nat k)"
    if k: "k \<in> kept s1" "k < unat d \<or> unat d + m \<le> k" for k
  proof -
    have "k < 2 ^ 32" by (rule kept_bound [OF ok k(1)])
    then show ?thesis using kf(5) [OF kp [OF k(1)]] c(4) [of k] k(2) m by auto
  qed
qed


lemma ramfs_grow_works:
  assumes ok: "heap_ok s" and f: "file_ok s p" and n: "unat new_size \<le> 65536" "f_capacity (files s p) < new_size"
    and km: "kmalloc (grown_cap new_size) s = Some (d, s1)" "d \<noteq> 0" and b: "f_data (files s p) \<noteq> 0 \<Longrightarrow> data_block s p n0"
  obtains m s' where "ramfs_grow p new_size s = Some (True, s')" "heap_ok s'" "unat (grown_cap new_size) \<le> m"
    "heap_live s' = insert (unat d, m) (heap_live s - old_block s p n0)" "(unat d, m) \<notin> heap_live s" "\<not> live_at s d"
    "files s' = (files s)(p := (files s p)\<lparr>f_data := d, f_capacity := grown_cap new_size\<rparr>)" "nodes s' = nodes s"
    "next_inode s' = next_inode s" "heap_start s' = heap_start s" "contents s' p = contents s p"
    "\<And>k. k \<in> kept s \<Longrightarrow> mem s' (of_nat k) = mem s (of_nat k)"
proof -
  let ?c = "grown_cap new_size" and ?d0 = "f_data (files s p)" and ?l = "unat (f_size (files s p))"
  have n0: "new_size \<noteq> 0" using n(2) by auto
  note g = grown_cap [OF n(1) n0] and F = file_okD [OF f]
  have big: "unat ?c \<le> 2 ^ 32 - 8" using g(2) by simp
  obtain m where m: "unat ?c \<le> m" "heap_live s1 = insert (unat d, m) (heap_live s)" "(unat d, m) \<notin> heap_live s"
    "{unat d..<unat d + m} \<inter> payload (heap_live s) = {}"
    by (rule kmalloc_block [OF ok km big])
  note fr = fresh_not_live [OF m(2,3) kmalloc_more(5) [OF km(1)]]
  have ok1: "heap_ok s1" by (rule kmalloc_laws(1) [OF ok km(1)])
  note k1 = kmalloc_kept [OF ok km(1)] and q1 = more_fs [OF kmalloc_more(1) [OF km(1)]] and h1 = kmalloc_more(5) [OF km(1)]
  have guard: "\<not> new_size > ?c" using g(1) by (simp add: word_less_nat_alt)
  let ?u = "\<lambda>t. upd_file p (\<lambda>f. f\<lparr>f_data := d, f_capacity := ?c\<rparr>) t"
  have lt: "?l \<le> m" using F(1) n(2) g(1) m(1) by (simp add: word_less_nat_alt)
  have dfar: "k < unat d \<or> unat d + m \<le> k" if k: "k \<in> kept s" for k
  proof (cases "k \<in> payload (heap_live s)")
    case True
    then show ?thesis using m(4) by (metis IntI atLeastLessThan_iff empty_iff not_le)
  next
    case False
    then have "k < unat (heap_start s) \<or> heap_end s \<le> k" using k by (simp add: kept_def)
    then show ?thesis using block_bounds(1,2) [OF ok1, of "unat d" m] m(2) h1 by (auto simp: heap_end_def)
  qed
  show thesis
  proof (cases "?d0 = 0")
    case True
    then have "f_size (files s p) = 0" using F(1,3) by (simp add: unat_eq_0)
    have r: "ramfs_grow p new_size s = Some (True, ?u s1)"
      using guard km True q1(2) by (simp add: ramfs_grow_def grown_cap_def Let_def)
    show thesis
      by (rule that [OF r]) (use ok1 m fr q1 h1 k1 True \<open>f_size (files s p) = 0\<close> in \<open>simp_all add: old_block_def contents_def\<close>)
  next
    case False
    then have db: "data_block s1 p n0" using b m(2) q1(2) by (simp add: data_block_def)
    have ne: "(unat d, m) \<noteq> (unat ?d0, n0)" using m(3) b [OF False] by (auto simp: data_block_def)
    have sc: "f_size (files s p) \<le> f_capacity (files s p)" using F(1) by (simp add: word_le_nat_alt)
    let ?t = "s1\<lparr>mem := memcpy (mem s1) d ?d0 (f_size (files s p))\<rparr>"
    have e: "(if 0 < f_size (files s p) then ?t else s1) = ?t" by (auto simp: memcpy_def word_gt_0)
    have "\<not> grown_cap new_size < new_size" "\<not> d = 0" "\<not> ?d0 = 0" using guard km(2) False by auto
    then have r: "ramfs_grow p new_size s = Some (True, ?u (kfree ?d0 ?t))"
      unfolding ramfs_grow_def Let_def grown_cap_def [symmetric]
      by (simp only: km(1) q1(2) e if_False Option.bind.bind_lunit prod.case simp_thms if_True)
    have dl: "(unat d, m) \<in> heap_live s1" using m(2) by simp
    note G = grow_copy [OF ok1 dl db, unfolded q1(2), OF sc lt ne]
    show thesis
    proof (rule that [OF r])
      show "heap_ok (?u (kfree ?d0 ?t))" using G(3) by simp
      show "heap_live (?u (kfree ?d0 ?t)) = insert (unat d, m) (heap_live s - old_block s p n0)"
        using G(4) m(2) ne False by (auto simp: old_block_def)
      show "contents (?u (kfree ?d0 ?t)) p = contents s p"
      proof (rule nth_equalityI)
        fix i assume "i < length (contents (?u (kfree ?d0 ?t)) p)"
        then have i: "i < ?l" by (simp add: q1)
        have "unat ?d0 + i \<in> payload (heap_live s)"
          by (rule block_bytes [of "unat ?d0" n0]) (use b [OF False] i F(1) in \<open>auto simp: data_block_def\<close>)
        then show "contents (?u (kfree ?d0 ?t)) p ! i = contents s p ! i"
          using G(5) [OF i] k1 [OF payload_kept] i by (simp add: nth_contents q1 del: of_nat_add)
      qed (simp add: q1)
      show "mem (?u (kfree ?d0 ?t)) (of_nat k) = mem s (of_nat k)" if k: "k \<in> kept s" for k
      proof -
        have "k \<in> kept s1" by (rule kept_more [OF h1 _ k]) (use m(2) in auto)
        then show ?thesis using G(6) [OF _ dfar [OF k]] k1 [OF k] by simp
      qed
    qed (use m fr q1 h1 in simp_all)
  qed
qed


text \<open>A write into the block of the file, from a buffer outside the heap.\<close>

definition outside_heap :: "u32 \<Rightarrow> u32 \<Rightarrow> 'a kheap_scheme \<Rightarrow> bool" where
  "outside_heap buf sz s \<longleftrightarrow> unat buf + unat sz \<le> 2 ^ 32 \<and>
     (unat buf + unat sz \<le> unat (heap_start s) \<or> heap_end s \<le> unat buf)"

definition buffer_bytes :: "u32 \<Rightarrow> u32 \<Rightarrow> 'a kcon_scheme \<Rightarrow> u8 list" where
  "buffer_bytes buf sz s = map (\<lambda>i. mem s (of_nat (unat buf + i))) [0..<unat sz]"

definition overwrite :: "nat \<Rightarrow> u8 list \<Rightarrow> u8 list \<Rightarrow> u8 list" where
  "overwrite ofs ys xs = take ofs xs @ ys @ drop (ofs + length ys) xs"

lemma nth_overwrite:
  "ofs \<le> length xs \<Longrightarrow> i < length (overwrite ofs ys xs) \<Longrightarrow>
   overwrite ofs ys xs ! i = (if ofs \<le> i \<and> i < ofs + length ys then ys ! (i - ofs) else xs ! i)"
  by (auto simp: overwrite_def nth_append min_def)

lemma length_overwrite: "ofs \<le> length xs \<Longrightarrow> length (overwrite ofs ys xs) = max (length xs) (ofs + length ys)"
  by (simp add: overwrite_def)

lemma ramfs_store_works:
  assumes ok: "heap_ok s" and b: "data_block s p n" "f_data (files s p) \<noteq> 0" and p: "p = n_private_data (nodes s node)"
    and sz: "unat offset + unat sz \<le> unat (f_capacity (files s p))" "unat offset \<le> unat (f_size (files s p))"
    and f: "file_ok s p" and o: "outside_heap buf sz s"
    and st: "ramfs_store node offset sz buf (offset + sz) s = (r, s')"
  shows "r = sz" "heap_ok s'" "blocks_of s' = blocks_of s" "heap_live s' = heap_live s" "file_ok s' p"
    "contents s' p = overwrite (unat offset) (buffer_bytes buf sz s) (contents s p)"
    "nodes s' = (nodes s)(node := (nodes s node)\<lparr>n_size := f_size (files s' p)\<rparr>)"
    "q \<noteq> p \<Longrightarrow> files s' q = files s q" "next_inode s' = next_inode s" "heap_start s' = heap_start s"
    "f_data (files s' p) = f_data (files s p)" "f_capacity (files s' p) = f_capacity (files s p)"
    "k < 2 ^ 32 \<Longrightarrow> \<not> (unat (f_data (files s p)) \<le> k \<and> k < unat (f_data (files s p)) + n) \<Longrightarrow> mem s' (of_nat k) = mem s (of_nat k)"
proof -
  let ?d = "unat (f_data (files s p))" and ?o = "unat offset" and ?l = "unat sz"
  have B: "(?d, n) \<in> heap_live s" "unat (f_capacity (files s p)) \<le> n" using b(1) by (simp_all add: data_block_def)
  note F = file_okD [OF f] and bb = block_bounds [OF ok B(1)]
  have a: "unat buf + ?l \<le> 2 ^ 32" using o by (simp add: outside_heap_def)
  have dis: "{unat buf..<unat buf + ?l} \<inter> {?d + ?o..<?d + ?o + ?l} = {}"
    using o bb(1,2) B(2) sz(1) unfolding outside_heap_def by auto
  have in_block: "?d + ?o + ?l \<le> ?d + n" using sz(1) B(2) by linarith
  have w: "(of_nat (?d + ?o) :: u32) = f_data (files s p) + offset" "(of_nat (unat buf) :: u32) = buf" "(of_nat ?l :: u32) = sz"
    by simp_all
  note c = copy_into_block [OF ok B(1) le_add1 in_block a dis, unfolded w]
  let ?s1 = "s\<lparr>mem := memcpy (mem s) (f_data (files s p) + offset) buf sz\<rparr>"
  have ns: "unat (offset + sz) = ?o + ?l" using sz(1) F(2) by (simp add: unat_word_ariths)
  define s2 where "s2 = (if offset + sz > f_size (files s p) then upd_file p (\<lambda>f. f\<lparr>f_size := offset + sz\<rparr>) ?s1 else ?s1)"
  have s': "s' = upd_node node (\<lambda>n. n\<lparr>n_size := f_size (files s2 p)\<rparr>) s2" "r = sz"
    using st by (auto simp: ramfs_store_def Let_def p [symmetric] s2_def)
  show "r = sz" by (rule s')
  have H: "heap_ok s2" "blocks_of s2 = blocks_of s" "heap_live s2 = heap_live s" using c(1-3) by (simp_all add: s2_def)
  then show "heap_ok s'" "blocks_of s' = blocks_of s" "heap_live s' = heap_live s" by (simp_all add: s')
  have fs: "f_data (files s' p) = f_data (files s p)" "f_capacity (files s' p) = f_capacity (files s p)"
    "unat (f_size (files s' p)) = max (unat (f_size (files s p))) (?o + ?l)"
    using ns by (auto simp: s' s2_def word_less_nat_alt max_def)
  show "f_data (files s' p) = f_data (files s p)" "f_capacity (files s' p) = f_capacity (files s p)" by (rule fs)+
  show "file_ok s' p" using f b H(3) fs sz(1) F(1)
    unfolding file_ok_def data_block_def by (auto simp: s' word_le_nat_alt fs(3) [unfolded s'])
  have m: "mem s' = mem ?s1" by (simp add: s' s2_def)
  show "contents s' p = overwrite ?o (buffer_bytes buf sz s) (contents s p)"
  proof (rule nth_equalityI)
    have len: "length (overwrite ?o (buffer_bytes buf sz s) (contents s p)) = max (unat (f_size (files s p))) (?o + ?l)"
      using sz(2) by (simp add: length_overwrite buffer_bytes_def)
    then show "length (contents s' p) = length (overwrite ?o (buffer_bytes buf sz s) (contents s p))" by (simp add: fs(3))
    fix i assume "i < length (contents s' p)"
    then have i: "i < max (unat (f_size (files s p))) (?o + ?l)" by (simp add: fs(3))
    then have "?d + i < 2 ^ 32" using bb(3) B(2) sz(1) F(1) by (auto simp: max_def split: if_splits)
    note ci = c(4) [OF this]
    have "contents s' p ! i = mem ?s1 (of_nat (?d + i))" using i by (simp only: nth_contents fs m)
    also have "\<dots> = (if ?o \<le> i \<and> i < ?o + ?l then mem s (of_nat (unat buf + (i - ?o))) else mem s (of_nat (?d + i)))"
      using ci by (simp del: of_nat_add)
    also have "\<dots> = overwrite ?o (buffer_bytes buf sz s) (contents s p) ! i"
      using i sz(2) nth_overwrite [of ?o "contents s p" i "buffer_bytes buf sz s"] len
      by (auto simp: buffer_bytes_def nth_contents simp del: of_nat_add)
    finally show "contents s' p ! i = overwrite ?o (buffer_bytes buf sz s) (contents s p) ! i" .
  qed
  show "nodes s' = (nodes s)(node := (nodes s node)\<lparr>n_size := f_size (files s' p)\<rparr>)" by (simp add: s' s2_def)
  show "q \<noteq> p \<Longrightarrow> files s' q = files s q" by (simp add: s' s2_def)
  show "next_inode s' = next_inode s" "heap_start s' = heap_start s" by (simp_all add: s' s2_def)
  show "mem s' (of_nat k) = mem s (of_nat k)" if "k < 2 ^ 32" "\<not> (?d \<le> k \<and> k < ?d + n)"
    using c(4) [OF that(1)] that(2) in_block by (auto simp: m)
qed


lemma other_block:
  assumes "heap_ok s" "(d, n) \<in> heap_live s" "k \<in> payload (heap_live s - {(d, n)})"
  shows "\<not> (d \<le> k \<and> k < d + n)" "k < 2 ^ 32"
proof -
  from assms(3) obtain x where "x \<in> heap_live s - {(d, n)}" "k \<in> (case x of (a, m) \<Rightarrow> {a..<a + m})"
    unfolding payload_def by blast
  then obtain a m where a: "(a, m) \<in> heap_live s" "(a, m) \<noteq> (d, n)" "a \<le> k" "k < a + m" by (cases x) auto
  have "{a..<a + m} \<inter> {d..<d + n} = {}" using live_apart a(1,2) assms(2) unfolding heap_live_def by metis
  then show "\<not> (d \<le> k \<and> k < d + n)" using a(3,4) by (metis IntI atLeastLessThan_iff empty_iff)
  show "k < 2 ^ 32" using block_bounds(3) [OF assms(1) a(1)] a(4) by linarith
qed

lemma outside_kept:
  assumes "outside_heap buf sz s" "i < unat sz"
  shows "unat buf + i \<in> kept s"
  using assms by (auto simp: outside_heap_def kept_def)

text \<open>When \<^verbatim>\<open>ramfs_write\<close> can serve a request: it fits the capacity, or the limit and a free block of the heap.\<close>

definition can_write :: "u32 \<Rightarrow> u32 \<Rightarrow> u32 \<Rightarrow> 'a kfs_scheme \<Rightarrow> bool" where
  "can_write p offset sz s \<longleftrightarrow> unat offset + unat sz \<le> unat (f_capacity (files s p)) \<or>
     unat offset + unat sz \<le> 65536 \<and>
     amalloc (unat (round8 (grown_cap (offset + sz)))) (blocks_of s) \<noteq> None"

lemma ramfs_write_outcome:
  assumes ok: "heap_ok s" and f: "file_ok s p" and p: "p = n_private_data (nodes s node)" "p \<noteq> 0" "buf \<noteq> 0" "sz \<noteq> 0"
    and o: "outside_heap buf sz s" and of: "unat offset \<le> unat (f_size (files s p))"
    and db: "f_data (files s p) = 0 \<or> data_block s p n0"
  obtains (failed) s' where "ramfs_write node offset sz buf s = Some (- 1, s')" "\<not> can_write p offset sz s" "heap_ok s'"
      "heap_live s' = heap_live s" "files s' = files s" "nodes s' = nodes s" "heap_start s' = heap_start s"
      "\<forall>k \<in> kept s. mem s' (of_nat k) = mem s (of_nat k)"
    | (written) s' where "ramfs_write node offset sz buf s = Some (sz, s')" "can_write p offset sz s" "heap_ok s'" "file_ok s' p"
      "contents s' p = overwrite (unat offset) (buffer_bytes buf sz s) (contents s p)"
      "nodes s' = (nodes s)(node := (nodes s node)\<lparr>n_size := f_size (files s' p)\<rparr>)" "\<forall>q. q \<noteq> p \<longrightarrow> files s' q = files s q"
      "heap_start s' = heap_start s" "heap_live s - old_block s p n0 \<subseteq> heap_live s'"
      "\<forall>k \<in> payload (heap_live s - old_block s p n0). mem s' (of_nat k) = mem s (of_nat k)"
      "f_data (files s' p) = f_data (files s p) \<or> \<not> live_at s (f_data (files s' p))" "f_data (files s' p) \<noteq> 0"
proof -
  have b: "f_data (files s p) \<noteq> 0 \<Longrightarrow> data_block s p n0" using db by blast
  note F = file_okD [OF f]
  have "unat sz \<le> 4290772992" using o heap_okD(8) [OF ok] by (auto simp: outside_heap_def heap_end_def)
  then have ns: "unat (offset + sz) = unat offset + unat sz" using of F(1,2) by (simp add: unat_word_ariths)
  have sz0: "0 < unat sz" using p(4) by (simp add: unat_gt_0)
  have g: "\<not> (p = 0 \<or> buf = 0)" using p by simp
  show thesis
  proof (cases "offset + sz > f_capacity (files s p)")
    case False
    then have c: "unat offset + unat sz \<le> unat (f_capacity (files s p))" using ns by (simp add: word_less_nat_alt)
    then have d: "f_data (files s p) \<noteq> 0" using F(3) sz0 by auto
    obtain r s' where st: "ramfs_store node offset sz buf (offset + sz) s = (r, s')" by (rule prod.exhaust)
    note S = ramfs_store_works [OF ok b [OF d] d p(1) c of f o st]
    have "ramfs_write node offset sz buf s = Some (sz, s')"
      using g False st S(1) by (simp add: ramfs_write_def p(1) [symmetric] Let_def)
    then show thesis
    proof (rule written)
      show "can_write p offset sz s" using c by (simp add: can_write_def)
      show "\<forall>k \<in> payload (heap_live s - old_block s p n0). mem s' (of_nat k) = mem s (of_nat k)"
        using other_block [OF ok, of "unat (f_data (files s p))" n0] S(13) b [OF d] d
        by (auto simp: old_block_def data_block_def)
    qed (use S d in auto)
  next
    case True
    then have nc: "\<not> unat offset + unat sz \<le> unat (f_capacity (files s p))" using ns by (simp add: word_less_nat_alt)
    let ?g = "grown_cap (offset + sz)"
    have w: "ramfs_write node offset sz buf s = do {(ok, s1) \<leftarrow> ramfs_grow p (offset + sz) s;
        Some (if ok then ramfs_store node offset sz buf (offset + sz) s1 else (- 1, s1))}"
      using g True by (simp only: ramfs_write_def p(1) [symmetric] Let_def if_False if_True)
    show thesis
    proof (cases "unat offset + unat sz \<le> 65536")
      case big: False
      have "offset + sz > ?g" using big ns by (auto simp: grown_cap_def word_less_nat_alt)
      then have "ramfs_grow p (offset + sz) s = Some (False, s)"
        by (simp only: ramfs_grow_def Let_def grown_cap_def [symmetric] if_True)
      then have "ramfs_write node offset sz buf s = Some (- 1, s)" using w by simp
      then show thesis by (rule failed) (use big nc ok in \<open>simp_all add: can_write_def\<close>)
    next
      case small: True
      have n65: "unat (offset + sz) \<le> 65536" "offset + sz \<noteq> 0" using small ns sz0 by auto
      note G = grown_cap [OF n65]
      have ng: "\<not> offset + sz > ?g" using G(1) by (simp add: word_less_nat_alt)
      obtain d s1 where km: "kmalloc ?g s = Some (d, s1)" using kmalloc_total [OF ok] by blast
      note iff = kmalloc_iff(1) [OF ok G(3) km]
      show thesis
      proof (cases "d = 0")
        case d0: True
        have "ramfs_grow p (offset + sz) s = Some (False, s1)"
          unfolding ramfs_grow_def Let_def grown_cap_def [symmetric] using ng km d0 by simp
        then have r: "ramfs_write node offset sz buf s = Some (- 1, s1)" using w by simp
        show thesis by (rule failed [OF r])
          (use d0 nc iff kmalloc_laws(1,2) [OF ok km] more_fs(1,2) [OF kmalloc_more(1) [OF km]] kmalloc_more(5) [OF km]
            kmalloc_kept [OF ok km] in \<open>simp_all add: can_write_def\<close>)
      next
        case d0: False
        have "f_capacity (files s p) < offset + sz" using True by simp
        from ramfs_grow_works [OF ok f n65(1) this km d0 b] obtain m s2 where
          W: "ramfs_grow p (offset + sz) s = Some (True, s2)" "heap_ok s2" "unat ?g \<le> m"
          "heap_live s2 = insert (unat d, m) (heap_live s - old_block s p n0)" "(unat d, m) \<notin> heap_live s"
          "files s2 = (files s)(p := (files s p)\<lparr>f_data := d, f_capacity := ?g\<rparr>)" "nodes s2 = nodes s"
          "heap_start s2 = heap_start s" "contents s2 p = contents s p"
          "\<And>k. k \<in> kept s \<Longrightarrow> mem s2 (of_nat k) = mem s (of_nat k)" "\<not> live_at s d" by metis
        have db: "data_block s2 p m" "f_data (files s2 p) = d" using W(3,4,6) by (simp_all add: data_block_def)
        have f2: "file_ok s2 p"
          using db(1) d0 W(6) G(1,2) ns of F(1) small True by (auto simp: file_ok_def word_le_nat_alt word_less_nat_alt)
        obtain r s' where st: "ramfs_store node offset sz buf (offset + sz) s2 = (r, s')" by (rule prod.exhaust)
        have o2: "outside_heap buf sz s2" using o W(8) by (simp add: outside_heap_def heap_end_def)
        have S: "r = sz" "heap_ok s'" "heap_live s' = heap_live s2" "file_ok s' p"
          "contents s' p = overwrite (unat offset) (buffer_bytes buf sz s2) (contents s2 p)"
          "nodes s' = (nodes s2)(node := (nodes s2 node)\<lparr>n_size := f_size (files s' p)\<rparr>)"
          "\<And>q. q \<noteq> p \<Longrightarrow> files s' q = files s2 q" "heap_start s' = heap_start s2"
          "\<And>k. k < 2 ^ 32 \<Longrightarrow> \<not> (unat d \<le> k \<and> k < unat d + m) \<Longrightarrow> mem s' (of_nat k) = mem s2 (of_nat k)" "f_data (files s' p) = d"
          using ramfs_store_works [OF W(2) db(1) _ _ _ _ f2 o2 st] db(2) d0 p(1) W(6,7) G(1) ns of by auto
        have bb: "buffer_bytes buf sz s2 = buffer_bytes buf sz s"
          using W(10) [OF outside_kept [OF o]] by (simp add: buffer_bytes_def del: of_nat_add)
        have "ramfs_write node offset sz buf s = Some (sz, s')" using w W(1) st S(1) by simp
        then show thesis
        proof (rule written)
          show "can_write p offset sz s" using small iff d0 by (simp add: can_write_def)
          show "\<forall>k \<in> payload (heap_live s - old_block s p n0). mem s' (of_nat k) = mem s (of_nat k)"
          proof
            fix k assume k: "k \<in> payload (heap_live s - old_block s p n0)"
            then have "k \<in> payload (heap_live s2 - {(unat d, m)})" using W(4,5) by (auto simp: payload_def)
            from other_block [OF W(2) _ this] W(4) have "mem s' (of_nat k) = mem s2 (of_nat k)" by (intro S(9)) auto
            moreover have "k \<in> kept s" using k by (auto simp: kept_def payload_def)
            ultimately show "mem s' (of_nat k) = mem s (of_nat k)" using W(10) by simp
          qed
        qed (use S W(4,6,7,8,9,11) d0 bb in auto)
      qed
    qed
  qed
qed


lemma ramfs_read_works:
  assumes ok: "heap_ok s" and f: "file_ok s p" and p: "p = n_private_data (nodes s node)" "p \<noteq> 0" "buf \<noteq> 0"
    and o: "outside_heap buf sz s" and r: "ramfs_read node offset sz buf s = (rd, s')"
  shows "unat rd = min (unat sz) (unat (f_size (files s p)) - unat offset)"
    "buffer_bytes buf rd s' = take (unat sz) (drop (unat offset) (contents s p))"
    "heap_ok s'" "contents s' p = contents s p" "nodes s' = nodes s" "files s' = files s" "heap_live s' = heap_live s"
    "k < 2 ^ 32 \<Longrightarrow> \<not> (unat buf \<le> k \<and> k < unat buf + unat rd) \<Longrightarrow> mem s' (of_nat k) = mem s (of_nat k)"
proof -
  note F = file_okD [OF f]
  have "unat rd = min (unat sz) (unat (f_size (files s p)) - unat offset) \<and>
    buffer_bytes buf rd s' = take (unat sz) (drop (unat offset) (contents s p)) \<and>
    heap_ok s' \<and> contents s' p = contents s p \<and> nodes s' = nodes s \<and> files s' = files s \<and> heap_live s' = heap_live s \<and>
    (\<forall>k < 2 ^ 32. \<not> (unat buf \<le> k \<and> k < unat buf + unat rd) \<longrightarrow> mem s' (of_nat k) = mem s (of_nat k))"
  proof (cases "f_size (files s p) \<le> offset")
    case True
    then have "rd = 0" "s' = s" using r p by (simp_all add: ramfs_read_def Let_def)
    moreover have "unat (f_size (files s p)) \<le> unat offset" using True by (simp add: word_le_nat_alt)
    ultimately show ?thesis using ok by (simp add: buffer_bytes_def)
  next
    case False
    let ?d = "unat (f_data (files s p))" and ?o = "unat offset" and ?n = "unat (f_size (files s p))"
    have lt: "?o < ?n" using False by (simp add: word_le_nat_alt not_le)
    then have "f_capacity (files s p) \<noteq> 0" using F(1) by auto
    then obtain m where m: "data_block s p m" using F(3,4) by blast
    then have B: "(?d, m) \<in> heap_live s" "?n \<le> m" using F(1) by (simp_all add: data_block_def)
    note bb = block_bounds [OF ok B(1)]
    have av: "unat (f_size (files s p) - offset) = ?n - ?o" using lt by (simp add: unat_sub word_le_nat_alt)
    let ?l = "min (unat sz) (?n - ?o)"
    let ?sz = "if sz > f_size (files s p) - offset then f_size (files s p) - offset else sz"
    have g: "\<not> (p = 0 \<or> buf = 0)" using p(2,3) by simp
    have E: "(?sz, s\<lparr>mem := memcpy (mem s) buf (f_data (files s p) + offset) ?sz\<rparr>) = (rd, s')"
      using r g False by (simp only: ramfs_read_def Let_def p(1) [symmetric] if_False)
    then have e: "rd = ?sz" and s': "s' = s\<lparr>mem := memcpy (mem s) buf (f_data (files s p) + offset) rd\<rparr>" by blast+
    have rd: "unat rd = ?l" unfolding e using av by (simp add: word_less_nat_alt)
    have ob: "unat buf + ?l \<le> 2 ^ 32" "unat buf + ?l \<le> unat (heap_start s) \<or> heap_end s \<le> unat buf"
      using o by (auto simp: outside_heap_def)
    have w: "(of_nat (?d + ?o) :: u32) = f_data (files s p) + offset" "(of_nat (unat buf) :: u32) = buf" "(of_nat ?l :: u32) = rd"
      unfolding rd [symmetric] by simp_all
    have c: "mem s' (of_nat k) = (if unat buf \<le> k \<and> k < unat buf + ?l then mem s (of_nat (?d + ?o + (k - unat buf))) else mem s (of_nat k))"
      if k: "k < 2 ^ 32" for k
    proof (cases "?l = 0")
      case True
      then have "rd = 0" using rd by (simp add: unat_eq_0)
      then show ?thesis using True by (auto simp: s' memcpy_def)
    next
      case l0: False
      have "?d + ?o + ?l \<le> ?d + ?n" using lt by simp
      then have al: "?d + ?o + ?l \<le> ?d + m" using B(2) by linarith
      have "{?d + ?o..<?d + ?o + ?l} \<inter> {unat buf..<unat buf + ?l} = {}"
        using ob(2) bb(1,2) al by auto
      from memcpy_nat [OF _ ob(1) this _ k, of "mem s"] al bb(3) l0 show ?thesis unfolding s' w by simp
    qed
    have keep: "mem s' (of_nat k) = mem s (of_nat k)" if "unat (heap_start s) \<le> k" "k < heap_end s" for k
      using c [of k] that heap_okD(8) [OF ok] ob(2) by auto
    have H: "heap_ok s'" "heap_live s' = heap_live s" by (rule heap_ok_agree(1,3) [OF ok _ _ keep]; simp add: s')+
    have "contents s' p = contents s p"
    proof (rule contents_keep [OF f])
      fix k assume "k \<in> payload (heap_live s)"
      then have "unat (heap_start s) \<le> k" "k < heap_end s"
        using payload_range [of "unat (heap_start s)" "blocks_of s"] heap_okD(6) [OF ok] by (auto simp: heap_live_def heap_end_def)
      then show "mem s' (of_nat k) = mem s (of_nat k)" by (rule keep)
    qed (simp add: s')
    moreover have "buffer_bytes buf rd s' = take (unat sz) (drop ?o (contents s p))"
    proof (rule nth_equalityI)
      show "length (buffer_bytes buf rd s') = length (take (unat sz) (drop ?o (contents s p)))"
        by (simp add: buffer_bytes_def rd)
      fix i assume "i < length (buffer_bytes buf rd s')"
      then have i: "i < ?l" by (simp add: buffer_bytes_def rd)
      then have "unat buf + i < 2 ^ 32" using ob(1) by linarith
      moreover have "?o + i < ?n" using i by auto
      ultimately show "buffer_bytes buf rd s' ! i = take (unat sz) (drop ?o (contents s p)) ! i"
        using c [of "unat buf + i"] i lt by (simp add: buffer_bytes_def rd nth_contents nth_drop add.assoc del: of_nat_add)
    qed
    moreover have "\<forall>k < 2 ^ 32. \<not> (unat buf \<le> k \<and> k < unat buf + unat rd) \<longrightarrow> mem s' (of_nat k) = mem s (of_nat k)"
      using c rd by auto
    moreover have "nodes s' = nodes s" "files s' = files s" by (simp_all add: s')
    ultimately show ?thesis using H rd by blast
  qed
  then show "unat rd = min (unat sz) (unat (f_size (files s p)) - unat offset)"
    "buffer_bytes buf rd s' = take (unat sz) (drop (unat offset) (contents s p))"
    "heap_ok s'" "contents s' p = contents s p" "nodes s' = nodes s" "files s' = files s" "heap_live s' = heap_live s"
    "k < 2 ^ 32 \<Longrightarrow> \<not> (unat buf \<le> k \<and> k < unat buf + unat rd) \<Longrightarrow> mem s' (of_nat k) = mem s (of_nat k)" by blast+
qed


section \<open>Properties of files\<close>

text \<open>A machine with a fresh heap and an empty file whose node is at \<open>0x1000\<close>.\<close>

definition fresh_fs :: kfs where
  "fresh_fs = (kheap_init 0x200000 boot_fs)\<lparr>nodes := (\<lambda>_. zero_node)(0x1000 := zero_node\<lparr>n_type := VFS_FILE, n_private_data := 0x2000\<rparr>),
     files := (\<lambda>_. empty_file)\<rparr>"

lemma fresh_fs_heap: "heap_ok fresh_fs" "blocks_of fresh_fs = [(4194288, True)]" "heap_live fresh_fs = {}" "heap_start fresh_fs = 0x200000"
proof -
  have "heap_ok fresh_fs = heap_ok (kheap_init 0x200000 boot_fs)" "blocks_of fresh_fs = blocks_of (kheap_init 0x200000 boot_fs)"
    "heap_start fresh_fs = heap_start (kheap_init 0x200000 boot_fs)"
    by (simp_all add: fresh_fs_def heap_ok_def blocks_of_def heap_end_def)
  then show "heap_ok fresh_fs" "blocks_of fresh_fs = [(4194288, True)]" "heap_start fresh_fs = 0x200000"
    by (simp_all add: init_fields kheap_init_blocks)
  then show "heap_live fresh_fs = {}" by (simp add: heap_live_def)
qed

lemma fresh_fs_file:
  "0x2000 = n_private_data (nodes fresh_fs 0x1000)" "file_ok fresh_fs 0x2000" "f_size (files fresh_fs 0x2000) = 0"
  "f_data (files fresh_fs 0x2000) = 0" "can_write 0x2000 0 5 fresh_fs" "contents fresh_fs 0x2000 = []"
  "outside_heap 0x9000 5 fresh_fs" "outside_heap 0xA000 5 fresh_fs"
proof -
  show "0x2000 = n_private_data (nodes fresh_fs 0x1000)" by (simp add: fresh_fs_def)
  show f: "f_size (files fresh_fs 0x2000) = 0" "f_data (files fresh_fs 0x2000) = 0" by (simp_all add: fresh_fs_def empty_file_def)
  show "file_ok fresh_fs 0x2000" by (simp add: fresh_fs_def empty_file_def file_ok_def)
  have "unat (round8 (grown_cap 5)) = 16" by (simp add: unat_round8 grown_cap_def)
  then show "can_write 0x2000 0 5 fresh_fs" by (simp add: can_write_def fresh_fs_heap)
  show "contents fresh_fs 0x2000 = []" using f by (simp add: contents_def)
  show "outside_heap 0x9000 5 fresh_fs" "outside_heap 0xA000 5 fresh_fs" by (simp_all add: outside_heap_def fresh_fs_heap)
qed

text \<open>
  C20: \<^verbatim>\<open>ramfs_write\<close> refines the update of a byte string. A write at an offset not beyond the end succeeds exactly when the
  new end fits the capacity, or the limit of 64 KiB and a free heap block; then the contents are the old contents
  overwritten from the offset on, the size in the node follows, and every other live block but the old
  data keeps its bytes, so no other file changes. A write that fails answers -1 and changes no file.
\<close>

theorem ramfs_write_refines:
  assumes "heap_ok s" "p = n_private_data (nodes s node)" "file_ok s p" "p \<noteq> 0" "buf \<noteq> 0" "sz \<noteq> 0"
    and "outside_heap buf sz s" "unat offset \<le> unat (f_size (files s p))"
    and "f_data (files s p) = 0 \<or> data_block s p n0"
  shows "\<exists>r s'. ramfs_write node offset sz buf s = Some (r, s') \<and> heap_ok s' \<and> file_ok s' p \<and>
     (if can_write p offset sz s
      then r = sz \<and> contents s' p = overwrite (unat offset) (buffer_bytes buf sz s) (contents s p) \<and>
        n_size (nodes s' node) = of_nat (length (contents s' p)) \<and>
        (\<forall>k \<in> payload (heap_live s - old_block s p n0). mem s' (of_nat k) = mem s (of_nat k))
      else r = - 1 \<and> contents s' p = contents s p \<and> nodes s' = nodes s \<and>
        (\<forall>k \<in> payload (heap_live s). mem s' (of_nat k) = mem s (of_nat k)))"
proof -
  show ?thesis using assms(1,3,2,4-9)
  proof (cases rule: ramfs_write_outcome)
    case (failed s')
    have "k \<in> payload (heap_live s) \<Longrightarrow> mem s' (of_nat k) = mem s (of_nat k)" for k using failed(8) payload_kept by blast
    moreover from contents_keep [OF assms(3) _ this] failed(5) have "contents s' p = contents s p" by simp
    moreover have "file_ok s' p" using assms(3) failed(4,5) by (auto simp: file_ok_def data_block_def split: if_splits)
    ultimately show ?thesis using failed by auto
  next
    case (written s')
    then show ?thesis by auto
  qed
qed

theorem ramfs_write_refines_witness:
  "\<exists>s'. ramfs_write 0x1000 0 5 0x9000 fresh_fs = Some (5, s') \<and> contents s' 0x2000 = buffer_bytes 0x9000 5 fresh_fs"
proof -
  have "\<exists>r s'. ramfs_write 0x1000 0 5 0x9000 fresh_fs = Some (r, s') \<and> r = 5 \<and>
      contents s' 0x2000 = overwrite (unat 0) (buffer_bytes 0x9000 5 fresh_fs) (contents fresh_fs 0x2000)"
    using ramfs_write_refines [OF fresh_fs_heap(1) fresh_fs_file(1,2) _ _ _ fresh_fs_file(7), of 0 0] fresh_fs_file by auto
  then show ?thesis using fresh_fs_file(6) by (simp add: overwrite_def)
qed

text \<open>
  C21: What was written is what is read: after a successful \<^verbatim>\<open>ramfs_write\<close>, \<^verbatim>\<open>ramfs_read\<close> at the same offset and size, into
  any other buffer outside the heap, returns the size and delivers the bytes that were written.
\<close>

theorem ramfs_write_read_roundtrip:
  assumes "heap_ok s" "p = n_private_data (nodes s node)" "file_ok s p" "p \<noteq> 0" "buf \<noteq> 0" "sz \<noteq> 0"
    and "outside_heap buf sz s" "unat offset \<le> unat (f_size (files s p))" "can_write p offset sz s"
    and "buf' \<noteq> 0" "outside_heap buf' sz s"
  shows "\<exists>s1 s2. ramfs_write node offset sz buf s = Some (sz, s1) \<and> ramfs_read node offset sz buf' s1 = (sz, s2) \<and>
     buffer_bytes buf' sz s2 = buffer_bytes buf sz s"
proof -
  obtain n0 where b: "f_data (files s p) = 0 \<or> data_block s p n0" using file_okD(4) [OF assms(3)] by blast
  show ?thesis using assms(1,3,2,4-8) b
  proof (cases rule: ramfs_write_outcome)
    case (failed s')
    then show ?thesis using assms(9) by blast
  next
    case (written s1)
    have p1: "p = n_private_data (nodes s1 node)" using written(6) assms(2) by simp
    have o1: "outside_heap buf' sz s1" using assms(11) written(8) by (simp add: outside_heap_def heap_end_def)
    obtain rd s2 where r: "ramfs_read node offset sz buf' s1 = (rd, s2)" by (rule prod.exhaust)
    note R = ramfs_read_works [OF written(3,4) p1 assms(4,10) o1 r]
    have l: "length (buffer_bytes buf sz s) = unat sz" by (simp add: buffer_bytes_def)
    have "unat (f_size (files s1 p)) = max (unat (f_size (files s p))) (unat offset + unat sz)"
      using arg_cong [OF written(5), of length] length_overwrite [of "unat offset" "contents s p" "buffer_bytes buf sz s"] assms(8) l
      by simp
    then have rd: "rd = sz" using R(1) by (metis add_diff_cancel_left' diff_le_mono max.cobounded2 min.absorb1 word_unat_eq_iff)
    have "take (unat sz) (drop (unat offset) (contents s1 p)) = buffer_bytes buf sz s"
      using assms(8) l by (simp add: written(5) overwrite_def)
    then show ?thesis using written(1) r R(2) rd by auto
  qed
qed

theorem ramfs_write_read_roundtrip_witness:
  "\<exists>s1 s2. ramfs_write 0x1000 0 5 0x9000 fresh_fs = Some (5, s1) \<and> ramfs_read 0x1000 0 5 0xA000 s1 = (5, s2) \<and>
     buffer_bytes 0xA000 5 s2 = buffer_bytes 0x9000 5 fresh_fs"
  using ramfs_write_read_roundtrip [OF fresh_fs_heap(1) fresh_fs_file(1,2) _ _ _ fresh_fs_file(7) _ fresh_fs_file(5) _ fresh_fs_file(8)]
  by simp

end
