(* ===== verification/RamDir.thy ===== *)
theory RamDir
  imports Ramfs
begin

text \<open>
  The directories of the RAM file system. A directory is a linked list of nodes; seen from outside it is a list of
  entries, a name and a node each, in which the first entry of a name counts. The operations of
  \<^verbatim>\<open>kernel/fs/ramfs.c\<close> on directories are shown to search, extend and shorten that list, and to take from the
  heap, and give back, exactly the blocks of the node concerned.
\<close>

unbundle bit_operations_syntax

section \<open>Directories as lists of entries\<close>

abbreviation siblings :: "'a kfs_scheme \<Rightarrow> u32 \<Rightarrow> u32" where
  "siblings s p \<equiv> n_next_sibling (nodes s p)"

text \<open>The addresses of the heap blocks a node owns: the node, the header of a file and its data.\<close>

definition own :: "'a kfs_scheme \<Rightarrow> u32 \<Rightarrow> u32 list" where
  "own s x = (let p = n_private_data (nodes s x); a = f_data (files s p)
     in x # (if p = 0 then [] else if a = 0 then [p] else [p, a]))"

definition dir_nodes :: "'a kfs_scheme \<Rightarrow> u32 \<Rightarrow> u32 list \<Rightarrow> bool" where
  "dir_nodes s d xs \<longleftrightarrow> heap_ok s \<and> n_type (nodes s d) AND VFS_DIRECTORY \<noteq> 0 \<and> lpath (siblings s) (n_children (nodes s d)) xs \<and>
     distinct (d # concat (map (own s) xs)) \<and> (\<forall>a \<in> set (d # concat (map (own s) xs)). live_at s a)"

definition entries :: "'a kfs_scheme \<Rightarrow> u32 list \<Rightarrow> (u8 list \<times> u32) list" where
  "entries s xs = map (\<lambda>x. (n_name (nodes s x), x)) xs"

definition dir_entries :: "'a kfs_scheme \<Rightarrow> u32 \<Rightarrow> (u8 list \<times> u32) list \<Rightarrow> bool" where
  "dir_entries s d es \<longleftrightarrow> dir_nodes s d (map snd es) \<and> es = entries s (map snd es)"

lemma map_snd_entries [simp]: "map snd (entries s xs) = xs"
  by (simp add: entries_def o_def)

lemma dir_entriesI: "dir_nodes s d xs \<Longrightarrow> dir_entries s d (entries s xs)"
  by (simp add: dir_entries_def)

lemma dir_entriesE:
  assumes "dir_entries s d es"
  obtains xs where "dir_nodes s d xs" "es = entries s xs"
  using assms unfolding dir_entries_def by blast

lemma own_self [simp]: "x \<in> set (own s x)"
  by (simp add: own_def Let_def)

lemma own_distinct: "distinct (concat (map (own s) xs)) \<Longrightarrow> distinct xs"
proof (induction xs)
  case (Cons x xs)
  have "x \<notin> set xs"
  proof
    assume "x \<in> set xs"
    then have "x \<in> set (concat (map (own s) xs))" by (auto intro: bexI [of _ x])
    moreover have "set (own s x) \<inter> set (concat (map (own s) xs)) = {}" using Cons.prems by simp
    ultimately show False using own_self [of x s] by blast
  qed
  then show ?case using Cons by simp
qed simp

lemma dir_nodesD:
  assumes "dir_nodes s d xs"
  shows "heap_ok s" "n_type (nodes s d) AND VFS_DIRECTORY \<noteq> 0" "lpath (siblings s) (n_children (nodes s d)) xs" "distinct xs"
    "d \<notin> set xs" "live_at s d" "x \<in> set xs \<Longrightarrow> live_at s x" "0 \<notin> set xs"
proof -
  show l: "heap_ok s" "n_type (nodes s d) AND VFS_DIRECTORY \<noteq> 0" "lpath (siblings s) (n_children (nodes s d)) xs"
    using assms by (simp_all add: dir_nodes_def)
  have D: "distinct (d # concat (map (own s) xs))" "\<forall>a \<in> set (d # concat (map (own s) xs)). live_at s a"
    using assms unfolding dir_nodes_def by blast+
  show "distinct xs" by (rule own_distinct [of s]) (use D(1) in simp)
  have m: "y \<in> set (concat (map (own s) xs))" if "y \<in> set xs" for y using that by (auto intro: bexI [of _ y])
  show "d \<notin> set xs" using D(1) m by auto
  show "live_at s d" using D(2) by simp
  show "live_at s x" if "x \<in> set xs" using D(2) m [OF that] by auto
  show "0 \<notin> set xs" by (rule lpath_nz [OF l(3)])
qed

text \<open>What a client may rely on: looking a name up yields the node of its first entry, or NULL.\<close>

locale directory_lookup =
  fixes dir :: "'s \<Rightarrow> u32 \<Rightarrow> (u8 list \<times> u32) list \<Rightarrow> bool"
    and lookup :: "u32 \<Rightarrow> u8 list \<Rightarrow> 's \<Rightarrow> u32 option"
  assumes lookup_entry: "dir s d es \<Longrightarrow> lookup d n s = Some (case map_of es n of None \<Rightarrow> 0 | Some x \<Rightarrow> x)"
    and entry_node: "dir s d es \<Longrightarrow> map_of es n = Some x \<Longrightarrow> x \<noteq> 0"
begin

lemma lookup_none: "dir s d es \<Longrightarrow> lookup d n s = Some 0 \<longleftrightarrow> map_of es n = None"
  using lookup_entry [of s d es n] entry_node [of s d es n] by (auto split: option.splits)

lemma lookup_some: "dir s d es \<Longrightarrow> x \<noteq> 0 \<Longrightarrow> lookup d n s = Some x \<longleftrightarrow> map_of es n = Some x"
  using lookup_entry [of s d es n] entry_node [of s d es n] by (auto split: option.splits)

end

lemma finddir_walk_entries:
  "lpath (siblings s) h xs \<Longrightarrow>
   finddir_walk (nodes s) n h = Some (case map_of (entries s xs) n of None \<Rightarrow> 0 | Some x \<Rightarrow> x)"
  by (induction xs arbitrary: h) (simp_all add: finddir_walk.simps entries_def)

lemma finddir_entries:
  "dir_entries s d es \<Longrightarrow> ramfs_finddir d n s = Some (case map_of es n of None \<Rightarrow> 0 | Some x \<Rightarrow> x)"
  by (erule dir_entriesE) (simp add: ramfs_finddir_def dir_nodesD(2) finddir_walk_entries [OF dir_nodesD(3)])

lemma entries_nz: "dir_entries s d es \<Longrightarrow> map_of es n = Some x \<Longrightarrow> x \<noteq> 0"
  by (erule dir_entriesE) (auto simp: entries_def dest!: map_of_SomeD dest: dir_nodesD(8))

interpretation ram_dir: directory_lookup dir_entries ramfs_finddir
  by unfold_locales (fact finddir_entries entries_nz)+

text \<open>\<^verbatim>\<open>ramfs_readdir\<close> enumerates the entries.\<close>

lemma readdir_walk_nth:
  "lpath (siblings s) h xs \<Longrightarrow> unat i + length xs < 2 ^ 32 \<Longrightarrow> unat i \<le> unat k \<Longrightarrow>
   readdir_walk (nodes s) k h i = Some (if unat k - unat i < length xs then xs ! (unat k - unat i) else 0)"
proof (induction xs arbitrary: h i)
  case (Cons x xs)
  then have x: "h = x" "x \<noteq> 0" "lpath (siblings s) (siblings s x) xs" by simp_all
  show ?case
  proof (cases "i = k")
    case True
    then show ?thesis using x by (simp add: readdir_walk.simps)
  next
    case False
    then have lt: "unat i < unat k" using Cons.prems(3) by (metis le_neq_implies_less unsigned_word_eqI)
    have i: "unat (i + 1) = unat i + 1" using Cons.prems(2) by (simp add: unat_word_ariths)
    have "readdir_walk (nodes s) k h i = readdir_walk (nodes s) k (siblings s x) (i + 1)"
      using x False by (subst readdir_walk.simps) simp
    also have "\<dots> = Some (if unat k - unat (i + 1) < length xs then xs ! (unat k - unat (i + 1)) else 0)"
      by (rule Cons.IH [OF x(3)]) (use Cons.prems(2) lt i in auto)
    finally show ?thesis using lt i by (auto simp: nth_Cons' split: if_splits)
  qed
qed (simp add: readdir_walk.simps)

section \<open>Fresh nodes\<close>

definition new_node :: "u8 list \<Rightarrow> u32 \<Rightarrow> u32 \<Rightarrow> u32 \<Rightarrow> vfs_node_t" where
  "new_node name ty ino f = zero_node\<lparr>n_name := take 127 name, n_type := ty, n_inode := ino, n_permissions := 0x1ED,
     n_ops := Some ramfs_ops, n_private_data := f\<rparr>"

lemma kept_grow:
  assumes "kmalloc n s = Some (a, t)" "heap_ok s" "k \<in> kept s"
  shows "k \<in> kept t"
  using kept_more [OF kmalloc_more(5) [OF assms(1)] kmalloc_laws(3) [OF assms(2,1)] assms(3)] .

text \<open>The outcome of creating a node: no memory, a node alone, or a file with its header.\<close>

lemma create_node_outcome:
  assumes ok: "heap_ok s"
  obtains (full) s1 where "ramfs_create_node name ty s = Some (0, s1)" "heap_ok s1" "blocks_of s1 = blocks_of s"
      "heap_live s1 = heap_live s" "nodes s1 = nodes s" "files s1 = files s" "amalloc 184 (blocks_of s) = None"
    | (plain) x n s1 where "ramfs_create_node name ty s = Some (x, s1)" "x \<noteq> 0" "heap_ok s1" "180 \<le> n"
      "heap_live s1 = insert (unat x, n) (heap_live s)" "(unat x, n) \<notin> heap_live s" "\<not> live_at s x"
      "nodes s1 = (nodes s)(x := new_node name ty (next_inode s) 0)" "files s1 = files s" "amalloc 184 (blocks_of s) \<noteq> None"
      "afree (unat x - unat (heap_start s)) (blocks_of s1) = blocks_of s" "heap_start s1 = heap_start s"
    | (headed) x n f m s1 bs where "ramfs_create_node name ty s = Some (x, s1)" "x \<noteq> 0" "f \<noteq> 0" "heap_ok s1" "180 \<le> n"
      "heap_live s1 = insert (unat f, m) (insert (unat x, n) (heap_live s))" "(unat x, n) \<notin> heap_live s"
      "(unat f, m) \<notin> insert (unat x, n) (heap_live s)" "\<not> live_at s x" "\<not> live_at s f" "f \<noteq> x" "ty AND VFS_FILE \<noteq> 0"
      "nodes s1 = (nodes s)(x := new_node name ty (next_inode s) f)" "files s1 = (files s)(f := empty_file)"
      "amalloc 184 (blocks_of s) \<noteq> None" "afree (unat x - unat (heap_start s)) bs = blocks_of s" "heap_start s1 = heap_start s"
      "afree (unat f - unat (heap_start s)) (blocks_of s1) = bs"
proof -
  obtain x s1 where km: "kmalloc 180 s = Some (x, s1)" using kmalloc_total [OF ok] by blast
  note q = more_fs [OF kmalloc_more(1) [OF km]] and h = kmalloc_more(5) [OF km]
  have r: "unat (round8 180) = 184" by (simp add: unat_round8)
  note iff = kmalloc_iff(1) [OF ok _ km, unfolded r, simplified]
  show thesis
    using ok km
  proof (cases rule: kmalloc_cases)
    case fail
    have "ramfs_create_node name ty s = Some (0, s1)" using km fail(1) by (simp add: ramfs_create_node_def)
    then show thesis by (rule full) (use fail q iff in simp_all)
  next
    case (block n)
    have n: "180 \<le> n" using block(4) r by simp
    note nn = fresh_not_live [OF block(6,5) h]
    define s2 where "s2 = upd_node x (\<lambda>_. new_node name ty (next_inode s) 0) (s1\<lparr>next_inode := next_inode s + 1\<rparr>)"
    have z: "zero_node\<lparr>n_name := take 127 name, n_type := ty, n_inode := next_inode s1, n_permissions := 0x1ED,
       n_ops := Some ramfs_ops\<rparr> = new_node name ty (next_inode s) 0" by (simp add: new_node_def zero_node_def q)
    have e: "ramfs_create_node name ty s = (if ty AND VFS_FILE \<noteq> 0 then
               do {
                 (file, s3) \<leftarrow> kmalloc sizeof_ramfs_file s2;
                 Some (x, if file \<noteq> 0
                   then upd_node x (\<lambda>n. n\<lparr>n_private_data := file\<rparr>) (upd_file file (\<lambda>_. empty_file) s3)
                   else s3)
               }
             else Some (x, s2))"
      using km block(1) z by (simp only: ramfs_create_node_def s2_def Option.bind.bind_lunit prod.case if_False Let_def q(3))
    have H: "heap_ok s2" "heap_live s2 = insert (unat x, n) (heap_live s)" "blocks_of s2 = blocks_of s1" "heap_start s2 = heap_start s"
      "nodes s2 = (nodes s)(x := new_node name ty (next_inode s) 0)" "files s2 = files s"
      using block(3,6) by (simp_all add: s2_def q h)
    show thesis
    proof (cases "ty AND VFS_FILE \<noteq> 0")
      case False
      then have "ramfs_create_node name ty s = Some (x, s2)" using e by simp
      then show thesis by (rule plain) (use H block(1,5,13) n nn iff in simp_all)
    next
      case True
      obtain f s3 where km3: "kmalloc 12 s2 = Some (f, s3)" using kmalloc_total [OF H(1)] by blast
      note q3 = more_fs [OF kmalloc_more(1) [OF km3]] and h3 = kmalloc_more(5) [OF km3]
      show thesis
        using H(1) km3
      proof (cases rule: kmalloc_cases)
        case fail
        have "ramfs_create_node name ty s = Some (x, s3)" using e True km3 fail(1) by simp
        then show thesis by (rule plain) (use H block(1,5,13) n nn iff fail q3 h3 in simp_all)
      next
        case fb: (block m)
        have "ramfs_create_node name ty s = Some (x, upd_node x (\<lambda>n. n\<lparr>n_private_data := f\<rparr>) (upd_file f (\<lambda>_. empty_file) s3))"
          using e True km3 fb(1) by simp
        then show thesis
        proof (rule headed [where m = m and bs = "blocks_of s1"])
          show "(unat f, m) \<notin> insert (unat x, n) (heap_live s)" using fb(5) by (simp only: H(2) not_False_eq_True)
          note nf = fresh_not_live [OF fb(6,5) h3]
          then show "\<not> live_at s f" "f \<noteq> x" by (auto simp: live_at_def H(2))
          show "afree (unat f - unat (heap_start s))
             (blocks_of (upd_node x (\<lambda>n. n\<lparr>n_private_data := f\<rparr>) (upd_file f (\<lambda>_. empty_file) s3))) = blocks_of s1"
            using fb(13) by (simp only: upd_fs_heap H(3,4))
          show "heap_live (upd_node x (\<lambda>n. n\<lparr>n_private_data := f\<rparr>) (upd_file f (\<lambda>_. empty_file) s3)) =
             insert (unat f, m) (insert (unat x, n) (heap_live s))" using fb(6) by (simp only: upd_fs_heap H(2))
        qed (use H(5,6) block(1,5,13) n nn iff fb(1,3) q3(1,2) h3 H(4) True in \<open>simp_all add: new_node_def\<close>)
      qed
    qed
  qed
qed

section \<open>Room on the heap\<close>

text \<open>
  The heap has room for \<open>N\<close> bytes when one free block holds them. Wherever the block of a request is taken from, it
  costs at most its rounded size and a header of that room.
\<close>

definition has_room :: "nat \<Rightarrow> 'a kheap_scheme \<Rightarrow> bool" where
  "has_room N s \<longleftrightarrow> (\<exists>sz \<ge> N. (sz, True) \<in> set (blocks_of s))"

lemma room_mono: "has_room M s \<Longrightarrow> N \<le> M \<Longrightarrow> has_room N s"
  unfolding has_room_def by (meson order_trans)

lemma room_amalloc: "has_room N s \<Longrightarrow> k \<le> N \<Longrightarrow> amalloc k (blocks_of s) \<noteq> None"
  unfolding has_room_def amalloc_None by fastforce

lemma kmalloc_room:
  assumes ok: "heap_ok s" and n: "n \<noteq> 0" "unat (round8 n) \<le> k" and r: "has_room (N + k + 16) s" "16 \<le> N"
    and km: "kmalloc n s = Some (a, s')"
  shows "a \<noteq> 0" "has_room N s'"
proof -
  obtain ofs bs where al: "amalloc (unat (round8 n)) (blocks_of s) = Some (ofs, bs)"
    using room_amalloc [OF r(1)] n(2) by fastforce
  show "a \<noteq> 0" using kmalloc_iff(1) [OF ok n(1) km] al by simp
  have b: "blocks_of s' = bs" by (rule kmalloc_iff(2) [OF ok n(1) km al])
  from amalloc_Some [OF al] obtain xs sz ys where x: "blocks_of s = xs @ (sz, True) # ys"
    "bs = xs @ carve (unat (round8 n)) sz @ ys" by blast
  from r(1) obtain big where big: "N + k + 16 \<le> big" "(big, True) \<in> set (blocks_of s)" by (auto simp: has_room_def)
  show "has_room N s'"
  proof (cases "(big, True) \<in> set xs \<union> set ys")
    case True
    then show ?thesis using big(1) by (auto simp: has_room_def b x(2) intro!: exI [of _ big])
  next
    case False
    then have "big = sz" using big(2) x(1) by auto
    then show ?thesis using big(1) n(2) r(2) by (auto simp: has_room_def b x(2) carve_def intro!: exI [of _ "sz - unat (round8 n) - 16"])
  qed
qed

lemma upd_room [simp]:
  "has_room N (upd_node p f s) = has_room N s" "has_room N (upd_file q g s) = has_room N s"
  "has_room N (s\<lparr>next_inode := i\<rparr>) = has_room N s" "has_room N (kprintf fm xs s) = has_room N s"
  by (simp_all add: has_room_def)

lemma create_node_room:
  assumes ok: "heap_ok s" and r: "has_room (N + 232) s" "16 \<le> N" and c: "ramfs_create_node name ty s = Some (x, s')"
  shows "x \<noteq> 0" "has_room N s'" "ty AND VFS_FILE \<noteq> 0 \<Longrightarrow> n_private_data (nodes s' x) \<noteq> 0"
proof -
  obtain y s1 where km: "kmalloc 180 s = Some (y, s1)" using kmalloc_total [OF ok] by blast
  have r8: "unat (round8 180) \<le> 184" "unat (round8 12) \<le> 16" by (simp_all add: unat_round8)
  have r1: "has_room (N + 32 + 184 + 16) s" using r(1) by (simp add: add.commute add.left_commute)
  note k1 = kmalloc_room [OF ok _ r8(1) r1 _ km, simplified]
  define s2 where "s2 = upd_node y (\<lambda>_. zero_node\<lparr>n_name := take 127 name, n_type := ty, n_inode := next_inode s1,
       n_permissions := 0x1ED, n_ops := Some ramfs_ops\<rparr>) (s1\<lparr>next_inode := next_inode s1 + 1\<rparr>)"
  have ok2: "heap_ok s2" using kmalloc_laws(1) [OF ok km] by (simp add: s2_def)
  have r2: "has_room (N + 16 + 16) s2" using k1(2) by (simp add: s2_def ac_simps)
  obtain f s3 where km3: "kmalloc 12 s2 = Some (f, s3)" using kmalloc_total [OF ok2] by blast
  note k2 = kmalloc_room [OF ok2 _ r8(2) r2 r(2) km3, simplified]
  have e: "ramfs_create_node name ty s = Some (y, if ty AND VFS_FILE \<noteq> 0
      then upd_node y (\<lambda>n. n\<lparr>n_private_data := f\<rparr>) (upd_file f (\<lambda>_. empty_file) s3) else s2)"
    using km k1(1) km3 k2(1) unfolding s2_def ramfs_create_node_def by (simp add: Let_def)
  have "has_room N s2" using room_mono [OF r2] by simp
  then show "x \<noteq> 0" "has_room N s'" "ty AND VFS_FILE \<noteq> 0 \<Longrightarrow> n_private_data (nodes s' x) \<noteq> 0"
    using c e k1(1) k2 by (auto split: if_splits)
qed

lemma kmalloc_fs:
  assumes "kmalloc n s = Some (a, s')"
  shows "kfs.more s' = kfs.more s \<and> heap_start s' = heap_start s"
  using more_fs(4) [OF kmalloc_more(1) [OF assms]] kmalloc_more(5) [OF assms] by simp

lemma create_node_more:
  assumes "ramfs_create_node name ty s = Some (x, s')"
  shows "kfs.more s' = kfs.more s" "heap_start s' = heap_start s"
proof -
  have "kfs.more s' = kfs.more s \<and> heap_start s' = heap_start s"
    using assms unfolding ramfs_create_node_def upd_node_def upd_file_def
    by (auto simp: Let_def split: Option.bind_splits if_splits dest!: kmalloc_fs)
  then show "kfs.more s' = kfs.more s" "heap_start s' = heap_start s" by blast+
qed

section \<open>Creating\<close>

text \<open>Linking a fresh node in front of the children.\<close>

definition linked :: "u32 \<Rightarrow> u32 \<Rightarrow> 'a kfs_scheme \<Rightarrow> u32 \<Rightarrow> vfs_node_t" where
  "linked d x s = (nodes s)(x := (nodes s x)\<lparr>n_parent := d, n_next_sibling := n_children (nodes s d)\<rparr>,
     d := (nodes s d)\<lparr>n_children := x\<rparr>)"

lemma do_create_linked:
  assumes "n_type (nodes s d) AND VFS_DIRECTORY \<noteq> 0" "ramfs_finddir d name s = Some 0" "ramfs_create_node name ty s = Some (x, s1)"
    and "x \<noteq> 0" "x \<noteq> d"
  shows "ramfs_do_create d name ty s = Some (0, s1\<lparr>nodes := linked d x s1\<rparr>)"
proof -
  have "upd_node d (\<lambda>n. n\<lparr>n_children := x\<rparr>) (upd_node x (\<lambda>n. n\<lparr>n_next_sibling := n_children (nodes s1 d)\<rparr>)
       (upd_node x (\<lambda>n. n\<lparr>n_parent := d\<rparr>) s1)) = s1\<lparr>nodes := linked d x s1\<rparr>"
    using assms(5) by (simp add: upd_node_def linked_def)
  then show ?thesis using assms by (simp add: ramfs_do_create_def Let_def)
qed

lemma do_mkdir_linked:
  assumes "n_type (nodes s d) AND VFS_DIRECTORY \<noteq> 0" "ramfs_finddir d name s = Some 0"
    and "ramfs_create_node name VFS_DIRECTORY s = Some (x, s1)" "x \<noteq> 0" "x \<noteq> d"
  shows "ramfs_do_mkdir d name mode s = Some (0, s1\<lparr>nodes := (linked d x s1)(x := (linked d x s1 x)\<lparr>n_permissions := mode, n_ops := Some ramfs_dir_ops\<rparr>)\<rparr>)"
proof -
  have "upd_node x (\<lambda>n. n\<lparr>n_ops := Some ramfs_dir_ops\<rparr>) (upd_node d (\<lambda>n. n\<lparr>n_children := x\<rparr>)
       (upd_node x (\<lambda>n. n\<lparr>n_next_sibling := n_children (nodes s1 d)\<rparr>)
       (upd_node x (\<lambda>n. n\<lparr>n_permissions := mode, n_parent := d\<rparr>) s1))) =
     s1\<lparr>nodes := (linked d x s1)(x := (linked d x s1 x)\<lparr>n_permissions := mode, n_ops := Some ramfs_dir_ops\<rparr>)\<rparr>"
    using assms(5) by (cases "nodes s1 x") (simp add: upd_node_def linked_def fun_upd_twist)
  then show ?thesis using assms by (simp add: ramfs_do_mkdir_def Let_def)
qed

lemma nodes_fs_heap [simp]:
  "heap_ok (s\<lparr>nodes := ns\<rparr>) = heap_ok s" "blocks_of (s\<lparr>nodes := ns\<rparr>) = blocks_of s" "heap_live (s\<lparr>nodes := ns\<rparr>) = heap_live s"
  by (simp_all add: heap_ok_def blocks_of_def heap_end_def heap_live_def)

lemma own_keep:
  assumes "n_private_data (nodes s' x) = n_private_data (nodes s x)"
    "n_private_data (nodes s x) \<noteq> 0 \<Longrightarrow> f_data (files s' (n_private_data (nodes s x))) = f_data (files s (n_private_data (nodes s x)))"
  shows "own s' x = own s x"
  using assms by (simp add: own_def Let_def)

lemma linked_dir:
  assumes d: "dir_nodes s d xs" and ok: "heap_ok s'" "heap_live s \<subseteq> heap_live s'"
    and x: "x \<noteq> 0" "\<And>a. a \<in> set (own s' x) \<Longrightarrow> \<not> live_at s a" "\<And>a. a \<in> set (own s' x) \<Longrightarrow> live_at s' a" "distinct (own s' x)"
    and n: "\<And>y. y \<noteq> x \<Longrightarrow> y \<noteq> d \<Longrightarrow> nodes s' y = nodes s y" "nodes s' d = (nodes s d)\<lparr>n_children := x\<rparr>"
      "n_next_sibling (nodes s' x) = n_children (nodes s d)"
    and f: "\<And>p. live_at s p \<Longrightarrow> files s' p = files s p"
  shows "dir_nodes s' d (x # xs)" "entries s' (x # xs) = (n_name (nodes s' x), x) # entries s xs" "x \<noteq> d"
proof -
  note D = dir_nodesD [OF d]
  have nx: "x \<noteq> d" "x \<notin> set xs" using x(2) [of x] D(6,7) by auto
  have keep: "nodes s' y = nodes s y" if "y \<in> set xs" for y using n(1) that nx D(5) by metis
  have own: "own s' y = own s y" if "y \<in> set xs" for y
  proof (rule own_keep)
    assume "n_private_data (nodes s y) \<noteq> 0"
    then have "n_private_data (nodes s y) \<in> set (own s y)" by (simp add: own_def Let_def)
    then have "live_at s (n_private_data (nodes s y))" using d that unfolding dir_nodes_def by auto
    then show "f_data (files s' (n_private_data (nodes s y))) = f_data (files s (n_private_data (nodes s y)))" using f by simp
  qed (simp add: keep that)
  then have co: "concat (map (own s') xs) = concat (map (own s) xs)" by (metis (no_types, lifting) map_eq_conv)
  have lv: "live_at s a \<Longrightarrow> live_at s' a" for a using ok(2) unfolding live_at_def by blast
  have L: "live_at s a" if "a \<in> set (d # concat (map (own s) xs))" for a using d that unfolding dir_nodes_def by blast
  have "lpath (siblings s') (n_children (nodes s d)) xs"
    using D(3) lpath_cong [of xs "siblings s'" "siblings s"] keep by simp
  moreover have "distinct (d # concat (map (own s') (x # xs)))"
  proof -
    have "distinct (d # concat (map (own s) xs))" using d unfolding dir_nodes_def by blast
    moreover have "set (own s' x) \<inter> set (d # concat (map (own s) xs)) = {}" using L x(2) by blast
    ultimately show ?thesis using x(4) unfolding list.map concat.simps(2) co by auto
  qed
  moreover have "live_at s' a" if "a \<in> set (d # concat (map (own s') (x # xs)))" for a
    using that L lv x(3) unfolding list.map concat.simps(2) co by auto
  ultimately show "dir_nodes s' d (x # xs)" using ok(1) D(2) x(1) unfolding dir_nodes_def n by (simp add: n)
  show "entries s' (x # xs) = (n_name (nodes s' x), x) # entries s xs" using keep by (simp add: entries_def)
  show "x \<noteq> d" by (rule nx)
qed

text \<open>The state after a node was made and linked, common to \<^verbatim>\<open>ramfs_do_create\<close> and \<^verbatim>\<open>ramfs_do_mkdir\<close>.\<close>

lemma fresh_own:
  assumes "nodes t x = (new_node name ty ino f)\<lparr>n_parent := a, n_next_sibling := b, n_permissions := c, n_ops := e\<rparr>"
    and "f = 0 \<or> f_data (files t f) = 0"
  shows "own t x = (if f = 0 then [x] else [x, f])"
  using assms by (auto simp: own_def Let_def new_node_def)

lemma create_links:
  assumes d: "dir_nodes s d xs" and n: "map_of (entries s xs) name = None"
    and a: "amalloc 184 (blocks_of s) \<noteq> None"
  obtains x s1 f where "ramfs_finddir d name s = Some 0" "ramfs_create_node name ty s = Some (x, s1)" "x \<noteq> 0" "x \<noteq> d" "\<not> live_at s x"
    "heap_live s \<subseteq> heap_live s1" "nodes s1 = (nodes s)(x := new_node name ty (next_inode s) f)" "ty AND VFS_FILE = 0 \<Longrightarrow> f = 0"
    "heap_live s = {b \<in> heap_live s1. fst b \<notin> unat ` (if f = 0 then {x} else {x, f})}" "f \<noteq> 0 \<Longrightarrow> files s1 f = empty_file"
    "\<And>ns. (\<And>y. y \<noteq> x \<Longrightarrow> ns y = linked d x s1 y) \<Longrightarrow> n_private_data (ns x) = f \<Longrightarrow> n_name (ns x) = take 127 name \<Longrightarrow>
       n_next_sibling (ns x) = n_children (nodes s d) \<Longrightarrow>
       dir_nodes (s1\<lparr>nodes := ns\<rparr>) d (x # xs) \<and> entries (s1\<lparr>nodes := ns\<rparr>) (x # xs) = (take 127 name, x) # entries s xs"
    "\<And>p. live_at s p \<Longrightarrow> files s1 p = files s p"
proof -
  note D = dir_nodesD [OF d]
  have nf: "ramfs_finddir d name s = Some 0" using finddir_entries [OF dir_entriesI [OF d]] n by simp
  have K: "dir_nodes (s1\<lparr>nodes := ns\<rparr>) d (x # xs) \<and> entries (s1\<lparr>nodes := ns\<rparr>) (x # xs) = (take 127 name, x) # entries s xs"
    if h: "heap_ok s1" "heap_live s \<subseteq> heap_live s1" "x \<noteq> 0" "\<not> live_at s x" "live_at s1 x"
      and f: "f \<noteq> 0 \<Longrightarrow> \<not> live_at s f \<and> live_at s1 f \<and> f \<noteq> x \<and> files s1 = (files s)(f := empty_file)" "f = 0 \<Longrightarrow> files s1 = files s"
      and ns: "nodes s1 = (nodes s)(x := N)" "\<And>y. y \<noteq> x \<Longrightarrow> ns y = linked d x s1 y" "n_private_data (ns x) = f"
        "n_name (ns x) = take 127 name" "n_next_sibling (ns x) = n_children (nodes s d)" for x s1 f N ns
  proof -
    let ?t = "s1\<lparr>nodes := ns\<rparr>"
    have o: "own ?t x = (if f = 0 then [x] else [x, f])"
      using f ns(3) by (cases "f = 0") (simp_all add: own_def Let_def empty_file_def)
    have xd: "x \<noteq> d" using h(4) D(6) by auto
    have lv: "live_at ?t a = live_at s1 a" for a by (simp add: live_at_def)
    have fs: "files ?t q = files s q" if "live_at s q" for q using f that by (cases "f = 0") auto
    have n1: "nodes ?t d = (nodes s d)\<lparr>n_children := x\<rparr>" using xd by (simp add: ns(1,2) linked_def)
    have n2: "nodes ?t y = nodes s y" if "y \<noteq> x" "y \<noteq> d" for y using that by (simp add: ns(1,2) linked_def)
    have o1: "\<not> live_at s q" if "q \<in> set (own ?t x)" for q using that h(4) f(1) unfolding o by (auto split: if_splits)
    have o2: "live_at ?t q" if "q \<in> set (own ?t x)" for q using that h(5) f(1) unfolding o lv by (auto split: if_splits)
    have o3: "distinct (own ?t x)" using f(1) unfolding o by auto
    have t: "heap_ok ?t" "heap_live s \<subseteq> heap_live ?t" "n_next_sibling (nodes ?t x) = n_children (nodes s d)"
      using h(1,2) ns(5) by simp_all
    note linked_dir(1,2) [OF d t(1,2) h(3) o1 o2 o3 n2 n1 t(3) fs]
    then show ?thesis using ns(4) by simp
  qed
  show thesis
    using D(1)
  proof (cases rule: create_node_outcome [of s name ty])
    case (full s1)
    then show thesis using a by simp
  next
    case (plain x n s1)
    have lv: "live_at s1 x" and xd: "x \<noteq> d" and sub: "heap_live s \<subseteq> heap_live s1" using plain(5,7) D(6) by (auto simp: live_at_def)
    have hl: "heap_live s = {b \<in> heap_live s1. fst b \<notin> unat ` (if (0 :: u32) = 0 then {x} else {x, 0})}"
      using plain(5,7) by (auto simp: live_at_def image_iff)
    have k: "dir_nodes (s1\<lparr>nodes := ns\<rparr>) d (x # xs) \<and> entries (s1\<lparr>nodes := ns\<rparr>) (x # xs) = (take 127 name, x) # entries s xs"
      if "\<And>y. y \<noteq> x \<Longrightarrow> ns y = linked d x s1 y" "n_private_data (ns x) = 0" "n_name (ns x) = take 127 name"
        "n_next_sibling (ns x) = n_children (nodes s d)" for ns
      by (rule K [OF plain(3) sub plain(2,7) lv _ _ plain(8) that]) (simp_all add: plain(9))
    show thesis by (rule that [OF nf plain(1,2) xd plain(7) sub plain(8) _ hl _ k]) (simp_all add: plain(9))
  next
    case (headed x n f m s1 bs)
    have lv: "live_at s1 x" "live_at s1 f" and xd: "x \<noteq> d" and sub: "heap_live s \<subseteq> heap_live s1"
      using headed(6,9) D(6) by (auto simp: live_at_def)
    have hl: "heap_live s = {b \<in> heap_live s1. fst b \<notin> unat ` (if f = 0 then {x} else {x, f})}"
      using headed(3,6,9,10) by (auto simp: live_at_def image_iff)
    have k: "dir_nodes (s1\<lparr>nodes := ns\<rparr>) d (x # xs) \<and> entries (s1\<lparr>nodes := ns\<rparr>) (x # xs) = (take 127 name, x) # entries s xs"
      if "\<And>y. y \<noteq> x \<Longrightarrow> ns y = linked d x s1 y" "n_private_data (ns x) = f" "n_name (ns x) = take 127 name"
        "n_next_sibling (ns x) = n_children (nodes s d)" for ns
      by (rule K [OF headed(4) sub headed(2,9) lv(1) _ _ headed(13) that])
        (use headed(3,10,11,14) lv(2) in simp_all)
    show thesis by (rule that [OF nf headed(1,2) xd headed(9) sub headed(13) _ hl _ k])
      (use headed(10,12,14) in auto)
  qed
qed

lemma dir_entries_same:
  assumes "dir_entries s d es" "nodes s' = nodes s" "files s' = files s" "heap_ok s'" "heap_live s' = heap_live s"
  shows "dir_entries s' d es"
proof -
  have "own s' = own s" "entries s' = entries s" "live_at s' = live_at s"
    by (rule ext, simp add: own_def entries_def live_at_def assms)+
  then show ?thesis using assms unfolding dir_entries_def dir_nodes_def by simp
qed

lemma create_fails:
  assumes d: "dir_nodes s d xs" and n: "map_of (entries s xs) name \<noteq> None \<or> amalloc 184 (blocks_of s) = None"
  obtains s' where "ramfs_do_create d name ty s = Some (- 1, s')" "ramfs_do_mkdir d name mode s = Some (- 1, s')"
      "nodes s' = nodes s" "files s' = files s" "heap_ok s'" "heap_live s' = heap_live s"
proof (cases "map_of (entries s xs) name")
  case None
  note D = dir_nodesD [OF d]
  have nf: "ramfs_finddir d name s = Some 0" using finddir_entries [OF dir_entriesI [OF d]] None by simp
  have am: "amalloc 184 (blocks_of s) = None" using n None by simp
  obtain s' where s': "kmalloc 180 s = Some (0, s')" "heap_ok s'" "heap_live s' = heap_live s" "nodes s' = nodes s" "files s' = files s"
  proof -
    obtain x t where km: "kmalloc 180 s = Some (x, t)" using kmalloc_total [OF D(1)] by blast
    have "x = 0" using kmalloc_iff(1) [OF D(1) _ km] am by (simp add: unat_round8)
    then show thesis using km kmalloc_laws(1,2) [OF D(1) km] more_fs(1,2) [OF kmalloc_more(1) [OF km]] that by blast
  qed
  then have "ramfs_create_node name k s = Some (0, s')" for k by (simp add: ramfs_create_node_def)
  then show thesis using nf D(2) s' by (intro that [of s']) (simp_all add: ramfs_do_create_def ramfs_do_mkdir_def)
next
  case (Some x)
  have "ramfs_finddir d name s = Some x" "x \<noteq> 0"
    using finddir_entries [OF dir_entriesI [OF d]] entries_nz [OF dir_entriesI [OF d]] Some by simp_all
  then show thesis using dir_nodesD(1,2) [OF d] by (intro that [of s]) (simp_all add: ramfs_do_create_def ramfs_do_mkdir_def)
qed

text \<open>A directory is not concerned by an operation that leaves its own nodes and headers alone.\<close>

lemma dir_frame:
  assumes d: "dir_entries s d es" and ok: "heap_ok s'" "heap_live s \<subseteq> heap_live s'"
    and n: "\<And>y. live_at s y \<Longrightarrow> n_name (nodes s' y) = n_name (nodes s y) \<and> n_private_data (nodes s' y) = n_private_data (nodes s y) \<and>
        siblings s' y = siblings s y" "n_type (nodes s' d) = n_type (nodes s d)" "n_children (nodes s' d) = n_children (nodes s d)"
    and f: "\<And>p. live_at s p \<Longrightarrow> files s' p = files s p"
  shows "dir_entries s' d es"
proof -
  from d obtain xs where xs: "dir_nodes s d xs" "es = entries s xs" by (rule dir_entriesE)
  note D = dir_nodesD [OF xs(1)]
  have L: "live_at s a" if "a \<in> set (d # concat (map (own s) xs))" for a using xs(1) that unfolding dir_nodes_def by blast
  have "own s' y = own s y" if "y \<in> set xs" for y
  proof (rule own_keep)
    assume "n_private_data (nodes s y) \<noteq> 0"
    then have "n_private_data (nodes s y) \<in> set (own s y)" by (simp add: own_def Let_def)
    then have "live_at s (n_private_data (nodes s y))" using L that by auto
    then show "f_data (files s' (n_private_data (nodes s y))) = f_data (files s (n_private_data (nodes s y)))" using f by simp
  qed (use n(1) D(7) [OF that] in simp)
  then have co: "concat (map (own s') xs) = concat (map (own s) xs)" by (auto intro!: arg_cong [where f = concat] map_cong)
  have lv: "live_at s a \<Longrightarrow> live_at s' a" for a using ok(2) unfolding live_at_def by blast
  have "lpath (siblings s') (n_children (nodes s d)) xs"
    using D(3,7) lpath_cong [of xs "siblings s'" "siblings s"] n(1) by simp
  then have "dir_nodes s' d xs"
    using xs(1) ok(1) L lv unfolding dir_nodes_def co n(2,3) by blast
  moreover have "entries s' xs = entries s xs" using n(1) D(7) by (simp add: entries_def)
  ultimately show ?thesis using dir_entriesI [of s' d xs] xs(2) by simp
qed

lemma create_adds:
  assumes d: "dir_entries s d es" and n: "map_of es name = None" "amalloc 184 (blocks_of s) \<noteq> None"
  obtains x s' where "ramfs_do_create d name ty s = Some (0, s')" "dir_entries s' d ((take 127 name, x) # es)" "\<not> live_at s x"
    "heap_live s \<subseteq> heap_live s'" "n_type (nodes s' x) = ty" "n_parent (nodes s' x) = d" "n_ops (nodes s' x) = Some ramfs_ops"
    "\<forall>y. y \<noteq> x \<and> y \<noteq> d \<longrightarrow> nodes s' y = nodes s y" "nodes s' d = (nodes s d)\<lparr>n_children := x\<rparr>"
    "\<And>p. live_at s p \<Longrightarrow> files s' p = files s p" "kfs.more s' = kfs.more s" "heap_start s' = heap_start s"
    "\<And>N. 16 \<le> N \<Longrightarrow> has_room (N + 232) s \<Longrightarrow> has_room N s'"
    "\<And>N. 16 \<le> N \<Longrightarrow> has_room (N + 232) s \<Longrightarrow> ty AND VFS_FILE \<noteq> 0 \<Longrightarrow> n_private_data (nodes s' x) \<noteq> 0"
    "n_private_data (nodes s' x) \<noteq> 0 \<Longrightarrow> files s' (n_private_data (nodes s' x)) = empty_file"
proof -
  from d obtain xs where xs: "dir_nodes s d xs" "es = entries s xs" by (rule dir_entriesE)
  show thesis
  proof (rule create_links [OF xs(1) n(1) [unfolded xs(2)] n(2), where ty = ty], goal_cases)
    case (1 x s1 f)
    let ?t = "s1\<lparr>nodes := linked d x s1\<rparr>"
    have e: "ramfs_do_create d name ty s = Some (0, ?t)" by (rule do_create_linked [OF dir_nodesD(2) [OF xs(1)] 1(1-4)])
    have "dir_nodes ?t d (x # xs)" "entries ?t (x # xs) = (take 127 name, x) # es"
      using 1(11) [of "linked d x s1"] 1(4,7) xs(2) by (simp_all add: linked_def new_node_def)
    then have "dir_entries ?t d ((take 127 name, x) # es)" using dir_entriesI by metis
    then show thesis
    proof (rule that [OF e])
      note rm = create_node_room [OF dir_nodesD(1) [OF xs(1)] _ _ 1(2)]
      show "has_room N ?t" if "16 \<le> N" "has_room (N + 232) s" for N using rm(2) [OF that(2,1)] by (simp add: has_room_def)
      show "n_private_data (nodes ?t x) \<noteq> 0" if "16 \<le> N" "has_room (N + 232) s" "ty AND VFS_FILE \<noteq> 0" for N
        using rm(3) [OF that(2,1,3)] 1(4) by (simp add: linked_def)
      show "files ?t (n_private_data (nodes ?t x)) = empty_file" if "n_private_data (nodes ?t x) \<noteq> 0"
        using that 1(4,7,10) by (simp add: linked_def new_node_def)
    qed (use 1(3-7,12) create_node_more [OF 1(2)] in \<open>simp_all add: linked_def new_node_def\<close>)
  qed
qed

lemma mkdir_adds:
  assumes d: "dir_entries s d es" and n: "map_of es name = None" "amalloc 184 (blocks_of s) \<noteq> None"
  obtains x s' where "ramfs_do_mkdir d name mode s = Some (0, s')" "dir_entries s' d ((take 127 name, x) # es)" "dir_entries s' x []"
    "\<not> live_at s x" "heap_live s \<subseteq> heap_live s'" "n_permissions (nodes s' x) = mode" "n_ops (nodes s' x) = Some ramfs_dir_ops"
    "\<forall>y. y \<noteq> x \<and> y \<noteq> d \<longrightarrow> nodes s' y = nodes s y" "nodes s' d = (nodes s d)\<lparr>n_children := x\<rparr>"
    "\<And>p. live_at s p \<Longrightarrow> files s' p = files s p" "kfs.more s' = kfs.more s" "heap_start s' = heap_start s"
    "\<And>N. 16 \<le> N \<Longrightarrow> has_room (N + 232) s \<Longrightarrow> has_room N s'"
proof -
  from d obtain xs where xs: "dir_nodes s d xs" "es = entries s xs" by (rule dir_entriesE)
  show thesis
  proof (rule create_links [OF xs(1) n(1) [unfolded xs(2)] n(2), where ty = VFS_DIRECTORY], goal_cases)
    case (1 x s1 f)
    have f: "f = 0" using 1(8) by simp
    let ?ns = "(linked d x s1)(x := (linked d x s1 x)\<lparr>n_permissions := mode, n_ops := Some ramfs_dir_ops\<rparr>)"
    let ?t = "s1\<lparr>nodes := ?ns\<rparr>"
    have e: "ramfs_do_mkdir d name mode s = Some (0, ?t)" by (rule do_mkdir_linked [OF dir_nodesD(2) [OF xs(1)] 1(1-4)])
    have dn: "dir_nodes ?t d (x # xs)" "entries ?t (x # xs) = (take 127 name, x) # es"
      using 1(11) [of ?ns] 1(4,7) xs(2) f by (simp_all add: linked_def new_node_def)
    then have D: "dir_entries ?t d ((take 127 name, x) # es)" using dir_entriesI by metis
    have X: "nodes ?t x = (new_node name VFS_DIRECTORY (next_inode s) 0)\<lparr>n_parent := d, n_next_sibling := n_children (nodes s d),
        n_permissions := mode, n_ops := Some ramfs_dir_ops\<rparr>" using 1(4,7) f by (simp add: linked_def)
    have "dir_nodes ?t x []" using dir_nodesD(1,7) [OF dn(1)] unfolding dir_nodes_def X by (simp add: new_node_def zero_node_def)
    then have "dir_entries ?t x []" using dir_entriesI [of ?t x "[]"] by (simp add: entries_def)
    with D show thesis
    proof (rule that [OF e])
      show "has_room N ?t" if "16 \<le> N" "has_room (N + 232) s" for N
        using create_node_room(2) [OF dir_nodesD(1) [OF xs(1)] that(2,1) 1(2)] by (simp add: has_room_def)
    qed (use X 1(3-7,12) create_node_more [OF 1(2)] in \<open>simp_all add: linked_def new_node_def\<close>)
  qed
qed

section \<open>Removing\<close>

lemma unlink_walk_found:
  "lpath (siblings s) h (us @ x # vs) \<Longrightarrow> n_name (nodes s x) = n \<Longrightarrow> n \<notin> (\<lambda>p. n_name (nodes s p)) ` set us \<Longrightarrow>
   unlink_walk (nodes s) n pv h = Some (last (pv # us), x)"
proof (induction us arbitrary: h pv)
  case (Cons u us)
  then show ?case by (cases us) (auto simp: unlink_walk.simps [of "nodes s" n pv])
qed (simp add: unlink_walk.simps)

lemma unlink_walk_absent:
  "lpath (siblings s) h xs \<Longrightarrow> n \<notin> (\<lambda>p. n_name (nodes s p)) ` set xs \<Longrightarrow> \<exists>q. unlink_walk (nodes s) n pv h = Some (q, 0)"
  by (induction xs arbitrary: h pv) (auto simp: unlink_walk.simps [of "nodes s" n pv for pv])

lemma entries_split:
  assumes "map_of (entries s xs) n = Some x"
  obtains us vs where "xs = us @ x # vs" "n_name (nodes s x) = n" "n \<notin> (\<lambda>p. n_name (nodes s p)) ` set us"
proof -
  have "\<exists>us vs. xs = us @ x # vs \<and> n_name (nodes s x) = n \<and> n \<notin> (\<lambda>p. n_name (nodes s p)) ` set us"
    using assms
  proof (induction xs)
    case (Cons y ys)
    show ?case
    proof (cases "n_name (nodes s y) = n")
      case True
      then have "y = x" using Cons.prems by (simp add: entries_def)
      then show ?thesis using True by (intro exI [of _ "[]"] exI [of _ ys]) simp
    next
      case False
      then obtain us vs where "ys = us @ x # vs" "n_name (nodes s x) = n" "n \<notin> (\<lambda>p. n_name (nodes s p)) ` set us"
        using Cons by (auto simp: entries_def)
      then show ?thesis using False by (intro exI [of _ "y # us"] exI [of _ vs]) auto
    qed
  qed (simp add: entries_def)
  then show thesis using that by blast
qed

lemma kfree_addr:
  assumes "heap_ok s" "live_at s a"
  shows "heap_ok (kfree a s)" "heap_live (kfree a s) = {b \<in> heap_live s. fst b \<noteq> unat a}"
proof -
  from assms(2) obtain n where n: "(unat a, n) \<in> heap_live s" by (auto simp: live_at_def)
  have u: "(unat a, m) \<in> heap_live s \<Longrightarrow> m = n" for m using n unfolding heap_live_def by (rule live_unique [rotated])
  note k = kfree_laws(1,2) [OF assms(1) n, unfolded of_unat32]
  show "heap_ok (kfree a s)" by (rule k)
  have "heap_live s - {(unat a, n)} = {b \<in> heap_live s. fst b \<noteq> unat a}"
  proof (rule set_eqI)
    fix b :: "nat \<times> nat"
    show "b \<in> heap_live s - {(unat a, n)} \<longleftrightarrow> b \<in> {b \<in> heap_live s. fst b \<noteq> unat a}"
      using u [of "snd b"] by (cases b; cases "fst b = unat a") auto
  qed
  then show "heap_live (kfree a s) = {b \<in> heap_live s. fst b \<noteq> unat a}" using k(2) by simp
qed

lemma live_at_kfree:
  assumes "heap_ok s" "live_at s a"
  shows "live_at (kfree a s) b \<longleftrightarrow> live_at s b \<and> b \<noteq> a"
proof -
  have "unat b = unat a \<longleftrightarrow> b = a" by (metis unsigned_word_eqI)
  then show ?thesis unfolding live_at_def kfree_addr(2) [OF assms] by force
qed

lemma release_own:
  assumes "heap_ok s" "distinct (own s x)" "\<forall>a \<in> set (own s x). live_at s a"
  shows "heap_ok (ramfs_release x s)" "heap_live (ramfs_release x s) = {b \<in> heap_live s. fst b \<notin> unat ` set (own s x)}"
    "nodes (ramfs_release x s) = nodes s" "files (ramfs_release x s) = files s"
proof -
  show "nodes (ramfs_release x s) = nodes s" "files (ramfs_release x s) = files s"
    by (simp_all add: ramfs_release_def Let_def)
  let ?p = "n_private_data (nodes s x)"
  let ?a = "f_data (files s ?p)"
  consider "?p = 0" | "?p \<noteq> 0" "?a = 0" | "?p \<noteq> 0" "?a \<noteq> 0" by blast
  then have "heap_ok (ramfs_release x s) \<and> heap_live (ramfs_release x s) = {b \<in> heap_live s. fst b \<notin> unat ` set (own s x)}"
  proof cases
    case 1
    then show ?thesis using assms kfree_addr [OF assms(1), of x] by (auto simp: ramfs_release_def own_def Let_def)
  next
    case 2
    then have o: "x \<noteq> ?p" "live_at s x" "live_at s ?p" using assms by (auto simp: own_def Let_def)
    note k1 = kfree_addr [OF assms(1) o(3)]
    have "live_at (kfree ?p s) x" using live_at_kfree [OF assms(1) o(3)] o by simp
    note k2 = kfree_addr [OF k1(1) this]
    show ?thesis using 2 k2 k1(2) by (auto simp: ramfs_release_def own_def Let_def)
  next
    case 3
    then have o: "x \<noteq> ?p" "?p \<noteq> ?a" "x \<noteq> ?a" "live_at s x" "live_at s ?p" "live_at s ?a" using assms by (auto simp: own_def Let_def)
    note k1 = kfree_addr [OF assms(1) o(6)]
    have l1: "live_at (kfree ?a s) ?p" using live_at_kfree [OF assms(1) o(6)] o by simp
    note k2 = kfree_addr [OF k1(1) l1]
    have "live_at (kfree ?p (kfree ?a s)) x" using live_at_kfree [OF assms(1) o(6)] live_at_kfree [OF k1(1) l1] o by simp
    note k3 = kfree_addr [OF k2(1) this]
    show ?thesis using 3 k3 k2(2) k1(2) by (auto simp: ramfs_release_def own_def Let_def)
  qed
  then show "heap_ok (ramfs_release x s)" "heap_live (ramfs_release x s) = {b \<in> heap_live s. fst b \<notin> unat ` set (own s x)}"
    by blast+
qed

lemma unlink_works:
  assumes d: "dir_nodes s d xs" and m: "map_of (entries s xs) n = Some x"
  obtains s' where "ramfs_do_unlink d n s = Some (0, s')" "dir_nodes s' d (remove1 x xs)"
    "entries s' (remove1 x xs) = remove1 (n, x) (entries s xs)" "files s' = files s"
    "heap_live s' = {b \<in> heap_live s. fst b \<notin> unat ` set (own s x)}" "\<And>y. own s' y = own s y"
    "\<And>y. n_ops (nodes s' y) = n_ops (nodes s y)"
proof -
  note D = dir_nodesD [OF d]
  from entries_split [OF m] obtain us vs where xs: "xs = us @ x # vs" and nm: "n_name (nodes s x) = n"
    "n \<notin> (\<lambda>p. n_name (nodes s p)) ` set us" by blast
  have di: "distinct (us @ x # vs)" "d \<notin> set (us @ x # vs)" "0 \<notin> set (us @ x # vs)" using D(4,5,8) xs by simp_all
  have rm: "remove1 x xs = us @ vs" using di(1) by (simp add: xs remove1_append)
  note w = unlink_walk_found [OF D(3) [unfolded xs] nm, of 0]
  define s1 where "s1 = (if us = [] then upd_node d (\<lambda>n. n\<lparr>n_children := siblings s x\<rparr>) s
       else upd_node (last us) (\<lambda>n. n\<lparr>n_next_sibling := siblings s x\<rparr>) s)"
  have l0: "last (0 # us) = 0 \<longleftrightarrow> us = []" using di(3) by (auto dest: last_in_set)
  have u: "ramfs_do_unlink d n s = Some (0, ramfs_release x s1)"
    using D(2) w l0 di(3) by (cases "us = []") (simp_all add: ramfs_do_unlink_def Let_def s1_def)
  have H: "heap_ok s1" "heap_live s1 = heap_live s" "files s1 = files s" using D(1) by (simp_all add: s1_def)
  have own: "own s1 y = own s y" for y by (rule own_keep) (simp_all add: s1_def)
  have lv: "live_at s1 a = live_at s a" for a by (simp add: live_at_def H(2))
  have I: "distinct (d # concat (map (own s) xs))" "\<forall>a \<in> set (d # concat (map (own s) xs)). live_at s a"
    using d unfolding dir_nodes_def by blast+
  have "distinct (own s1 x)" "\<forall>a \<in> set (own s1 x). live_at s1 a" using I by (simp_all add: own lv xs)
  note R = release_own [OF H(1) this]
  let ?t = "ramfs_release x s1"
  have ownt: "own ?t y = own s y" for y using own_keep [of ?t y s1] R(3,4) own by simp
  have nt: "n_name (nodes ?t y) = n_name (nodes s y)" "n_ops (nodes ?t y) = n_ops (nodes s y)" for y
    unfolding R(3) by (simp_all add: s1_def)
  have ot: "map (own ?t) ys = map (own s) ys" for ys using ownt by simp
  have "dir_nodes ?t d (us @ vs)"
    unfolding dir_nodes_def
  proof (intro conjI)
    show "heap_ok ?t" by (rule R(1))
    show "n_type (nodes ?t d) AND VFS_DIRECTORY \<noteq> 0" using D(2) unfolding R(3) by (auto simp: s1_def)
    show "distinct (d # concat (map (own ?t) (us @ vs)))" using I(1) unfolding ot xs by auto
    show "\<forall>a \<in> set (d # concat (map (own ?t) (us @ vs))). live_at ?t a"
    proof
      fix a assume a: "a \<in> set (d # concat (map (own ?t) (us @ vs)))"
      then have "a \<notin> set (own s x)" "live_at s a" using I unfolding ot xs by auto
      then have "unat a \<notin> unat ` set (own s x)" by (metis imageE unsigned_word_eqI)
      then show "live_at ?t a" using \<open>live_at s a\<close> unfolding live_at_def R(2) own H(2) by force
    qed
    show "lpath (siblings ?t) (n_children (nodes ?t d)) (us @ vs)"
    proof (cases "us = []")
      case True
      have "lpath (siblings s) (siblings s x) vs" using D(3) by (simp add: xs True)
      then show ?thesis using True lpath_cong [of vs "siblings ?t" "siblings s"] unfolding R(3) by (simp add: s1_def)
    next
      case False
      then obtain zs a where us: "us = zs @ [a]" by (metis rev_exhaust)
      have ns: "nodes ?t = (nodes s)(a := (nodes s a)\<lparr>n_next_sibling := siblings s x\<rparr>)" unfolding R(3) by (simp add: s1_def us)
      have "lpath (siblings ?t) (n_children (nodes s d)) (zs @ a # vs)"
        by (rule lpath_delete [of "siblings s" _ _ _ x]) (use D(3) di us in \<open>auto simp: xs ns\<close>)
      moreover have "n_children (nodes ?t d) = n_children (nodes s d)" using di(2) by (simp add: ns us)
      ultimately show ?thesis by (simp add: us)
    qed
  qed
  moreover have "entries ?t (us @ vs) = remove1 (n, x) (entries s xs)"
  proof -
    have "(n, x) \<notin> set (entries s us)" using nm(2) by (auto simp: entries_def)
    then show ?thesis using nm(1) by (simp add: entries_def nt(1) xs remove1_append)
  qed
  ultimately show thesis using that [OF u] rm R H ownt own nt(2) by simp
qed

lemma unlink_absent:
  assumes "dir_nodes s d xs" "map_of (entries s xs) n = None"
  shows "ramfs_do_unlink d n s = Some (- 1, s)"
proof -
  have "n \<notin> (\<lambda>p. n_name (nodes s p)) ` set xs" using assms(2) by (auto simp: entries_def map_of_eq_None_iff image_image)
  from unlink_walk_absent [OF dir_nodesD(3) [OF assms(1)] this, of 0] show ?thesis
    using dir_nodesD(2) [OF assms(1)] by (auto simp: ramfs_do_unlink_def)
qed

section \<open>Writing into a file of a directory\<close>

lemma write_keeps_dir:
  assumes d: "dir_entries s d es" and x: "x \<in> snd ` set es" and p: "p = n_private_data (nodes s x)" "p \<noteq> 0" "file_ok s p"
    and b: "buf \<noteq> 0" "sz \<noteq> 0" "outside_heap buf sz s" "unat offset \<le> unat (f_size (files s p))" "can_write p offset sz s"
  obtains s' where "ramfs_write x offset sz buf s = Some (sz, s')" "dir_entries s' d es" "file_ok s' p"
    "contents s' p = overwrite (unat offset) (buffer_bytes buf sz s) (contents s p)" "heap_start s' = heap_start s"
    "nodes s' = (nodes s)(x := (nodes s x)\<lparr>n_size := f_size (files s' p)\<rparr>)"
proof -
  from d obtain xs where xs: "dir_nodes s d xs" "es = entries s xs" by (rule dir_entriesE)
  have xin: "x \<in> set xs" using x xs(2) by (auto simp: entries_def)
  note D = dir_nodesD [OF xs(1)]
  obtain n0 where n0: "f_data (files s p) = 0 \<or> data_block s p n0" using file_okD(4) [OF p(3)] by blast
  have I: "distinct (d # concat (map (own s) xs))" "\<And>a. a \<in> set (d # concat (map (own s) xs)) \<Longrightarrow> live_at s a"
    using xs(1) unfolding dir_nodes_def by blast+
  obtain us vs where uv: "xs = us @ x # vs" using xin by (meson split_list)
  show thesis
    using D(1) p(3,1,2) b(1-4) n0
  proof (cases rule: ramfs_write_outcome)
    case (failed s')
    then show thesis using b(5) by simp
  next
    case (written s')
    let ?a = "f_data (files s p)" and ?b = "f_data (files s' p)"
    have ns: "n_private_data (nodes s' y) = n_private_data (nodes s y)" "n_name (nodes s' y) = n_name (nodes s y)"
      "siblings s' y = siblings s y" "n_children (nodes s' y) = n_children (nodes s y)" "n_type (nodes s' y) = n_type (nodes s y)" for y
      by (simp_all add: written(6))
    have ox: "own s x = (if ?a = 0 then [x, p] else [x, p, ?a])" "own s' x = [x, p, ?b]"
      using p(2) written(12) by (simp_all add: own_def Let_def ns p(1) [symmetric])
    have pin: "p \<in> set (own s x)" using ox(1) by (simp split: if_splits)
    have oy: "own s' y = own s y" if y: "y \<in> set us \<union> set vs" for y
    proof (rule own_keep)
      assume "n_private_data (nodes s y) \<noteq> 0"
      then have "n_private_data (nodes s y) \<in> set (own s y)" by (simp add: own_def Let_def)
      moreover have "set (own s x) \<inter> set (own s y) = {}" using I(1) y unfolding uv by auto
      ultimately have "n_private_data (nodes s y) \<noteq> p" using pin by blast
      then show "f_data (files s' (n_private_data (nodes s y))) = f_data (files s (n_private_data (nodes s y)))" using written(7) by simp
    qed (simp add: ns)
    have cu: "concat (map (own s') us) = concat (map (own s) us)" "concat (map (own s') vs) = concat (map (own s) vs)"
      using oy by (auto intro!: arg_cong [where f = concat] map_cong)
    have bn: "?b \<notin> set (d # concat (map (own s) us) @ [x, p] @ concat (map (own s) vs))"
    proof (cases "?b = ?a")
      case True
      then have "?a \<noteq> 0" using written(12) by simp
      then show ?thesis using I(1) ox(1) True unfolding uv by auto
    next
      case False
      then have "\<not> live_at s ?b" using written(11) by blast
      moreover have "set (d # concat (map (own s) us) @ [x, p] @ concat (map (own s) vs)) \<subseteq> set (d # concat (map (own s) xs))"
        using pin unfolding uv by auto
      ultimately show ?thesis using I(2) by blast
    qed
    have keep: "live_at s' q" if "live_at s q" "q \<noteq> ?a \<or> ?a = 0" for q
    proof -
      from that(1) obtain m where m: "(unat q, m) \<in> heap_live s" by (auto simp: live_at_def)
      have "unat q \<noteq> unat ?a \<or> ?a = 0" using that(2) by (metis unsigned_word_eqI)
      then have "(unat q, m) \<in> heap_live s - old_block s p n0" using m by (auto simp: old_block_def)
      then show ?thesis using written(9) unfolding live_at_def by force
    qed
    have lb: "live_at s' ?b" using file_okD(4) [OF written(4,12)] unfolding data_block_def live_at_def by force
    have "dir_nodes s' d xs"
      unfolding dir_nodes_def
    proof (intro conjI)
      show "heap_ok s'" by (rule written(3))
      show "n_type (nodes s' d) AND VFS_DIRECTORY \<noteq> 0" "lpath (siblings s') (n_children (nodes s' d)) xs"
        using D(2,3) by (simp_all only: ns not_False_eq_True)
      have sub: "distinct (d # concat (map (own s) us) @ [x, p] @ concat (map (own s) vs))"
        using I(1) ox(1) unfolding uv by (auto split: if_splits)
      show "distinct (d # concat (map (own s') xs))" using sub bn unfolding uv by (auto simp: cu ox(2))
      show "\<forall>q \<in> set (d # concat (map (own s') xs)). live_at s' q"
      proof
        fix q assume "q \<in> set (d # concat (map (own s') xs))"
        then consider "q = ?b" | "q \<in> set (d # concat (map (own s) us) @ [x, p] @ concat (map (own s) vs))"
          unfolding uv by (auto simp: cu ox(2))
        then show "live_at s' q"
        proof cases
          case 2
          have "q \<noteq> ?a \<or> ?a = 0" using I(1) ox(1) 2 unfolding uv by (auto split: if_splits)
          moreover have "live_at s q" using I(2) 2 pin unfolding uv by auto
          ultimately show ?thesis by (intro keep)
        qed (use lb in simp)
      qed
    qed
    moreover have "entries s' xs = es" using ns(2) xs(2) by (simp add: entries_def)
    ultimately have "dir_entries s' d es" using dir_entriesI by metis
    then show thesis using that [OF written(1)] written(4,5,6,8) by blast
  qed
qed

section \<open>The root directory\<close>

lemma ramfs_init_root:
  assumes ok: "heap_ok s" and am: "amalloc 184 (blocks_of s) = Some (ofs, bs)"
  obtains x s' where "ramfs_init s = Some (x, s')" "x \<noteq> 0" "dir_entries s' x []" "blocks_of s' = bs" "n_ops (nodes s' x) = Some ramfs_root_ops"
proof -
  obtain x t where km: "kmalloc 180 s = Some (x, t)" using kmalloc_total [OF ok] by blast
  have r: "unat (round8 180) = 184" by (simp add: unat_round8)
  have x: "x \<noteq> 0" "blocks_of t = bs" using kmalloc_iff [OF ok _ km] am by (simp_all add: r)
  have tok: "heap_ok t" by (rule kmalloc_laws(1) [OF ok km])
  obtain n where n: "heap_live t = insert (unat x, n) (heap_live s)" using kmalloc_laws(5) [OF ok km x(1)] by auto
  let ?u = "upd_node x (\<lambda>n. n\<lparr>n_ops := Some ramfs_root_ops\<rparr>)
    (upd_node x (\<lambda>_. zero_node\<lparr>n_name := take 127 (lit ''/''), n_type := VFS_DIRECTORY, n_inode := next_inode t,
      n_permissions := 0x1ED, n_ops := Some ramfs_ops\<rparr>) (t\<lparr>next_inode := next_inode t + 1\<rparr>))"
  have e: "ramfs_init s = Some (x, kprintf (litln ''[RAMFS] RAM filesystem initialized'') [] ?u)"
    using km x(1) by (simp add: ramfs_init_def ramfs_create_node_def)
  let ?v = "kprintf (litln ''[RAMFS] RAM filesystem initialized'') [] ?u"
  have "dir_nodes ?v x []" using tok n by (simp add: dir_nodes_def live_at_def zero_node_def)
  then have "dir_entries ?v x []" using dir_entriesI [of ?v x "[]"] by (simp add: entries_def)
  then show thesis by (intro that [OF e x(1)]) (simp_all add: x(2))
qed

text \<open>A machine with a fresh heap and an empty root directory.\<close>

definition fresh_root :: "u32 \<times> kfs" where
  "fresh_root = the (ramfs_init fresh_fs)"

abbreviation root_dir :: u32 where
  "root_dir \<equiv> fst fresh_root"

abbreviation root_fs :: kfs where
  "root_fs \<equiv> snd fresh_root"

lemma fresh_root_ok:
  "dir_entries (snd fresh_root) (fst fresh_root) []" "blocks_of (snd fresh_root) = [(184, False), (4194088, True)]"
proof -
  have "amalloc 184 (blocks_of fresh_fs) = Some (16, [(184, False), (4194088, True)])" by (simp add: fresh_fs_heap carve_def)
  from ramfs_init_root [OF fresh_fs_heap(1) this]
  have "dir_entries (snd fresh_root) (fst fresh_root) [] \<and> blocks_of (snd fresh_root) = [(184, False), (4194088, True)]"
    by (simp add: fresh_root_def) (metis option.sel prod.sel)
  then show "dir_entries (snd fresh_root) (fst fresh_root) []" "blocks_of (snd fresh_root) = [(184, False), (4194088, True)]"
    by blast+
qed

section \<open>Properties\<close>

text \<open>
  C22: Creating refines consing an entry. \<^verbatim>\<open>ramfs_do_create\<close> on a directory always returns. It answers -1 and changes no node and no
  live block exactly when the name has an entry or the heap has no free block for a node; otherwise it puts a
  new node, at an address that was not allocated, in front of the entries, and changes no node but the
  new one and the directory. The entry holds at most 127 characters of the name: a longer name is not found afterwards.
\<close>

theorem ramfs_create_refines:
  assumes "dir_entries s d es"
  shows "\<exists>r s'. ramfs_do_create d name ty s = Some (r, s') \<and>
     (if map_of es name \<noteq> None \<or> amalloc 184 (blocks_of s) = None
      then r = - 1 \<and> dir_entries s' d es \<and> nodes s' = nodes s \<and> heap_live s' = heap_live s
      else r = 0 \<and> (\<exists>x. dir_entries s' d ((take 127 name, x) # es) \<and> \<not> live_at s x \<and> heap_live s \<subseteq> heap_live s' \<and>
        n_type (nodes s' x) = ty \<and> n_parent (nodes s' x) = d \<and> (\<forall>y. y \<noteq> x \<and> y \<noteq> d \<longrightarrow> nodes s' y = nodes s y) \<and>
        ramfs_finddir d name s' = Some (if length name \<le> 127 then x else 0)))"
proof -
  from assms obtain xs where xs: "dir_nodes s d xs" "es = entries s xs" by (rule dir_entriesE)
  show ?thesis
  proof (cases "map_of es name \<noteq> None \<or> amalloc 184 (blocks_of s) = None")
    case True
    then obtain s' where s': "ramfs_do_create d name ty s = Some (- 1, s')" "nodes s' = nodes s" "files s' = files s" "heap_ok s'"
      "heap_live s' = heap_live s" using create_fails [OF xs(1)] xs(2) by metis
    have "dir_entries s' d es" by (rule dir_entries_same [OF assms s'(2-5)])
    then show ?thesis using s' True by auto
  next
    case False
    show ?thesis
    proof (rule create_adds [OF assms, where name = name and ty = ty], goal_cases)
      case (3 x s')
      have "name = take 127 name \<longleftrightarrow> length name \<le> 127" by (subst eq_commute) simp
      then have "ramfs_finddir d name s' = Some (if length name \<le> 127 then x else 0)"
        using finddir_entries [OF 3(2)] False by simp
      then have "ramfs_do_create d name ty s = Some (0, s') \<and> dir_entries s' d ((take 127 name, x) # es) \<and> \<not> live_at s x \<and>
          heap_live s \<subseteq> heap_live s' \<and> n_type (nodes s' x) = ty \<and> n_parent (nodes s' x) = d \<and>
          (\<forall>y. y \<noteq> x \<and> y \<noteq> d \<longrightarrow> nodes s' y = nodes s y) \<and> ramfs_finddir d name s' = Some (if length name \<le> 127 then x else 0)"
        using 3(1-6,8) by (intro conjI)
      then show ?thesis using False unfolding if_not_P [OF False] by blast
    qed (use False in auto)
  qed
qed

theorem ramfs_create_refines_witness:
  "\<exists>x s'. ramfs_do_create root_dir (lit ''hello.txt'') VFS_FILE root_fs = Some (0, s') \<and>
     dir_entries s' root_dir [(lit ''hello.txt'', x)] \<and> ramfs_finddir root_dir (lit ''hello.txt'') s' = Some x"
  using ramfs_create_refines [OF fresh_root_ok(1), of "lit ''hello.txt''" VFS_FILE]
  by (auto simp: fresh_root_ok(2) lit_def)

text \<open>
  Making a directory refines consing an entry, under the same conditions, and the new node is itself an empty
  directory with the mode asked for, in which files can be created, since it has the operations
  of a directory.
\<close>

theorem ramfs_mkdir_refines:
  assumes "dir_entries s d es"
  shows "\<exists>r s'. ramfs_do_mkdir d name mode s = Some (r, s') \<and>
     (if map_of es name \<noteq> None \<or> amalloc 184 (blocks_of s) = None
      then r = - 1 \<and> dir_entries s' d es \<and> nodes s' = nodes s \<and> heap_live s' = heap_live s
      else r = 0 \<and> (\<exists>x. dir_entries s' d ((take 127 name, x) # es) \<and> dir_entries s' x [] \<and> \<not> live_at s x \<and>
        heap_live s \<subseteq> heap_live s' \<and> n_permissions (nodes s' x) = mode \<and> n_ops (nodes s' x) = Some ramfs_dir_ops \<and>
        (\<forall>y. y \<noteq> x \<and> y \<noteq> d \<longrightarrow> nodes s' y = nodes s y)))"
proof -
  from assms obtain xs where xs: "dir_nodes s d xs" "es = entries s xs" by (rule dir_entriesE)
  show ?thesis
  proof (cases "map_of es name \<noteq> None \<or> amalloc 184 (blocks_of s) = None")
    case True
    then obtain s' where s': "ramfs_do_mkdir d name mode s = Some (- 1, s')" "nodes s' = nodes s" "files s' = files s" "heap_ok s'"
      "heap_live s' = heap_live s" using create_fails [OF xs(1)] xs(2) by metis
    have "dir_entries s' d es" by (rule dir_entries_same [OF assms s'(2-5)])
    then show ?thesis using s' True by auto
  next
    case False
    show ?thesis
    proof (rule mkdir_adds [OF assms, where name = name and mode = mode], goal_cases)
      case (3 x s')
      then show ?thesis using False unfolding if_not_P [OF False] by blast
    qed (use False in auto)
  qed
qed

theorem ramfs_mkdir_refines_witness:
  "\<exists>x s'. ramfs_do_mkdir root_dir (lit ''dev'') 0x1ED root_fs = Some (0, s') \<and> dir_entries s' root_dir [(lit ''dev'', x)] \<and>
     dir_entries s' x []"
  using ramfs_mkdir_refines [OF fresh_root_ok(1), of "lit ''dev''" "0x1ED"]
  by (auto simp: fresh_root_ok(2) lit_def)

text \<open>
  C23: Removing refines deleting the first entry of a name. \<^verbatim>\<open>ramfs_do_unlink\<close> on a directory always returns: -1, changing nothing, for a
  name without an entry; otherwise 0, after which that entry alone is gone and the live blocks of the heap are those
  of before without the blocks the node owned, its header and data included. Nothing leaks and nothing else is freed.
\<close>

theorem ramfs_unlink_refines:
  assumes "dir_entries s d es"
  shows "case map_of es name of
       None \<Rightarrow> ramfs_do_unlink d name s = Some (- 1, s)
     | Some x \<Rightarrow> \<exists>s'. ramfs_do_unlink d name s = Some (0, s') \<and> dir_entries s' d (remove1 (name, x) es) \<and>
         heap_live s' = {b \<in> heap_live s. fst b \<notin> unat ` set (own s x)}"
proof -
  from assms obtain xs where xs: "dir_nodes s d xs" "es = entries s xs" by (rule dir_entriesE)
  show ?thesis
  proof (cases "map_of es name")
    case None
    then show ?thesis using unlink_absent [OF xs(1)] xs(2) by simp
  next
    case (Some x)
    show ?thesis
    proof (rule unlink_works [OF xs(1) Some [unfolded xs(2)]], goal_cases)
      case (1 s')
      then show ?thesis using dir_entriesI [OF 1(2)] Some xs(2) by simp
    qed
  qed
qed

lemma one_entry: "\<exists>x (s :: kfs). dir_entries s root_dir [(lit ''dev'', x)]"
  by (rule mkdir_adds [OF fresh_root_ok(1), of "lit ''dev''"]) (auto simp: fresh_root_ok(2) lit_def)

theorem ramfs_unlink_refines_witness:
  "\<exists>x (s :: kfs) s'. dir_entries s root_dir [(lit ''dev'', x)] \<and> ramfs_do_unlink root_dir (lit ''dev'') s = Some (0, s') \<and> dir_entries s' root_dir []"
proof -
  from one_entry obtain x and s :: kfs where s: "dir_entries s root_dir [(lit ''dev'', x)]" by blast
  show ?thesis using ramfs_unlink_refines [OF s, of "lit ''dev''"] s by auto
qed

text \<open>
  Creating a file and removing it again undoes itself: both succeed, the directory has its old entries
  and the heap its old live blocks.
\<close>

theorem ramfs_create_unlink_roundtrip:
  assumes "dir_entries s d es" "map_of es name = None" "length name \<le> 127" "amalloc 184 (blocks_of s) \<noteq> None"
  shows "\<exists>s1 s2. ramfs_do_create d name ty s = Some (0, s1) \<and> ramfs_do_unlink d name s1 = Some (0, s2) \<and>
     dir_entries s2 d es \<and> heap_live s2 = heap_live s"
proof -
  from assms obtain xs where xs: "dir_nodes s d xs" "es = entries s xs" by (auto elim: dir_entriesE)
  show ?thesis
  proof (rule create_links [OF xs(1) assms(2) [unfolded xs(2)] assms(4), where ty = ty], goal_cases)
    case (1 x s1 f)
    let ?t = "s1\<lparr>nodes := linked d x s1\<rparr>"
    have e: "ramfs_do_create d name ty s = Some (0, ?t)" by (rule do_create_linked [OF dir_nodesD(2) [OF xs(1)] 1(1-4)])
    have t: "dir_nodes ?t d (x # xs)" "entries ?t (x # xs) = (name, x) # es"
      using 1(11) [of "linked d x s1"] 1(4,7) xs(2) assms(3) by (simp_all add: linked_def new_node_def)
    have o: "set (own ?t x) = (if f = 0 then {x} else {x, f})"
      using 1(4,7,10) by (simp add: own_def Let_def linked_def new_node_def empty_file_def)
    show ?thesis
    proof (rule unlink_works [OF t(1), of name x], goal_cases)
      case (2 s2)
      have "heap_live s2 = heap_live s" using 2(5) 1(9) o by simp
      moreover have "dir_entries s2 d es" using dir_entriesI [OF 2(2)] 2(3) t(2) by simp
      ultimately show ?thesis using e 2(1) by blast
    qed (use t(2) in simp)
  qed
qed

theorem ramfs_create_unlink_roundtrip_witness:
  "\<exists>s1 s2. ramfs_do_create root_dir (lit ''hello.txt'') VFS_FILE root_fs = Some (0, s1) \<and>
     ramfs_do_unlink root_dir (lit ''hello.txt'') s1 = Some (0, s2) \<and> dir_entries s2 root_dir [] \<and> heap_live s2 = heap_live root_fs"
  using ramfs_create_unlink_roundtrip [OF fresh_root_ok(1), of "lit ''hello.txt''" VFS_FILE]
  by (simp add: fresh_root_ok(2) lit_def)


end
