(* ===== verification/Vfs.thy ===== *)
theory Vfs
  imports RamDir
begin

text \<open>
  The virtual file system, \<^verbatim>\<open>kernel/fs/vfs.c\<close>: the dispatch of each operation through the table of the node, the
  table of mounts, and the resolution of a path. A pointer to a string is an optional string, \<^const>\<open>None\<close>
  standing for NULL. Path resolution is shown to be a walk along the non-empty components of the path,
  and to find what was created under the names of the path.
\<close>

unbundle bit_operations_syntax

section \<open>State\<close>

record vfs_mount_t =
  m_path :: "u8 list"
  m_fs_type :: "u8 list"
  m_root :: u32
  m_next :: u32

definition zero_mount :: vfs_mount_t where
  "zero_mount = \<lparr>m_path = [], m_fs_type = [], m_root = 0, m_next = 0\<rparr>"

record kvfs = kfs +
  vfs_root :: u32
  mount_list :: u32
  mount_count :: u32
  mounts :: "u32 \<Rightarrow> vfs_mount_t"

definition boot_vfs :: kvfs where
  "boot_vfs = kfs.extend boot_fs (kvfs.fields 0 0 0 (\<lambda>_. zero_mount))"

abbreviation (input) MAX_MOUNTS :: u32 where "MAX_MOUNTS \<equiv> 16"
abbreviation (input) sizeof_vfs_mount :: u32 where "sizeof_vfs_mount \<equiv> 1064"

definition vfs_init :: "'a kvfs_scheme \<Rightarrow> 'a kvfs_scheme" where
  "vfs_init s = kprintf (litln ''[VFS] Virtual file system initialized'') [] (s\<lparr>vfs_root := 0, mount_list := 0, mount_count := 0\<rparr>)"

definition vfs_get_root :: "'a kvfs_scheme \<Rightarrow> u32" where
  "vfs_get_root s = vfs_root s"

section \<open>Dispatch\<close>

text \<open>The operation of the table of a node, if the node, its table and the entry are there.\<close>

definition node_op :: "(vfs_ops_t \<Rightarrow> 'f option) \<Rightarrow> u32 \<Rightarrow> 'a kfs_scheme \<Rightarrow> 'f option" where
  "node_op sel node s = (if node = 0 then None else case n_ops (nodes s node) of None \<Rightarrow> None | Some ops \<Rightarrow> sel ops)"

definition vfs_read :: "u32 \<Rightarrow> u32 \<Rightarrow> u32 \<Rightarrow> u32 \<Rightarrow> 'a kfs_scheme \<Rightarrow> u32 \<times> 'a kfs_scheme" where
  "vfs_read node offset sz buffer s =
     (case node_op vop_read node s of None \<Rightarrow> (- 1, s) | Some Ramfs_read \<Rightarrow> ramfs_read node offset sz buffer s)"

definition vfs_write :: "u32 \<Rightarrow> u32 \<Rightarrow> u32 \<Rightarrow> u32 \<Rightarrow> 'a kfs_scheme \<Rightarrow> (u32 \<times> 'a kfs_scheme) option" where
  "vfs_write node offset sz buffer s =
     (case node_op vop_write node s of None \<Rightarrow> Some (- 1, s) | Some Ramfs_write \<Rightarrow> ramfs_write node offset sz buffer s)"

definition vfs_open :: "u32 \<Rightarrow> u32 \<Rightarrow> 'a kfs_scheme \<Rightarrow> u32 \<times> 'a kfs_scheme" where
  "vfs_open node flags s = (case node_op vop_open node s of None \<Rightarrow> (- 1, s) | Some Ramfs_open \<Rightarrow> ramfs_open node flags s)"

definition vfs_close :: "u32 \<Rightarrow> 'a kfs_scheme \<Rightarrow> u32 \<times> 'a kfs_scheme" where
  "vfs_close node s = (case node_op vop_close node s of None \<Rightarrow> (- 1, s) | Some Ramfs_close \<Rightarrow> ramfs_close node s)"

definition vfs_readdir :: "u32 \<Rightarrow> u32 \<Rightarrow> 'a kfs_scheme \<Rightarrow> u32 option" where
  "vfs_readdir node index s = (case node_op vop_readdir node s of None \<Rightarrow> Some 0 | Some Ramfs_readdir \<Rightarrow> ramfs_readdir node index s)"

definition vfs_finddir :: "u32 \<Rightarrow> u8 list \<Rightarrow> 'a kfs_scheme \<Rightarrow> u32 option" where
  "vfs_finddir node name s = (case node_op vop_finddir node s of None \<Rightarrow> Some 0 | Some Ramfs_finddir \<Rightarrow> ramfs_finddir node name s)"

definition vfs_create :: "u32 \<Rightarrow> u8 list \<Rightarrow> u32 \<Rightarrow> 'a kfs_scheme \<Rightarrow> (u32 \<times> 'a kfs_scheme) option" where
  "vfs_create parent name ty s =
     (case node_op vop_create parent s of None \<Rightarrow> Some (- 1, s) | Some Ramfs_do_create \<Rightarrow> ramfs_do_create parent name ty s)"

definition vfs_unlink :: "u32 \<Rightarrow> u8 list \<Rightarrow> 'a kfs_scheme \<Rightarrow> (u32 \<times> 'a kfs_scheme) option" where
  "vfs_unlink parent name s =
     (case node_op vop_unlink parent s of None \<Rightarrow> Some (- 1, s) | Some Ramfs_do_unlink \<Rightarrow> ramfs_do_unlink parent name s)"

definition vfs_mkdir :: "u32 \<Rightarrow> u8 list \<Rightarrow> u32 \<Rightarrow> 'a kfs_scheme \<Rightarrow> (u32 \<times> 'a kfs_scheme) option" where
  "vfs_mkdir parent name mode s =
     (case node_op vop_mkdir parent s of None \<Rightarrow> Some (- 1, s) | Some Ramfs_do_mkdir \<Rightarrow> ramfs_do_mkdir parent name mode s)"

section \<open>Mounting\<close>

definition vfs_mount :: "u8 list option \<Rightarrow> u8 list option \<Rightarrow> u32 \<Rightarrow> 'a kvfs_scheme \<Rightarrow> (u32 \<times> 'a kvfs_scheme) option" where
  "vfs_mount path fs_type root s =
     (case (path, fs_type) of
        (Some p, Some t) \<Rightarrow>
          if root = 0 then Some (- 1, s)
          else if mount_count s \<ge> MAX_MOUNTS
          then Some (- 1, kprintf (litln ''[VFS] ERROR: Maximum mount points reached'') [] s)
          else do {
            (mount, s1) \<leftarrow> kmalloc sizeof_vfs_mount s;
            if mount = 0 then Some (- 1, s1)
            else
              (let s2 = s1\<lparr>mounts := (mounts s1)(mount := \<lparr>m_path = take 1023 p, m_fs_type = take 31 t, m_root = root,
                                        m_next = mount_list s1\<rparr>),
                           mount_list := mount, mount_count := mount_count s1 + 1\<rparr>;
                   s3 = (if p = lit ''/'' then s2\<lparr>vfs_root := root\<rparr> else s2)
               in Some (0, kprintf (lit ''[VFS] Mounted '%s' filesystem at '%s'' @ [39, 10]) [VStr t, VStr p] s3))
          }
      | _ \<Rightarrow> Some (- 1, s))"

section \<open>Path resolution\<close>

text \<open>
  The local buffer after \<^verbatim>\<open>strncpy (pathbuf, path, VFS_PATH_MAX - 1)\<close>. A path of 1023 characters or more leaves it without a
  terminating zero: the string then goes on with what the stack holds behind it, the argument
  \<open>stack\<close>. That the loop then stores zeros over slashes found there is not represented.
\<close>

definition pathbuf :: "u8 list \<Rightarrow> u8 list \<Rightarrow> u8 list" where
  "pathbuf stack path = (if length path < 1023 then path else take 1023 path @ stack)"

text \<open>The loop over the tokens: the text up to the next slash is looked up when it is not empty.\<close>

function resolve_loop :: "u8 list \<Rightarrow> u32 \<Rightarrow> 'a kfs_scheme \<Rightarrow> u32 option" where
  "resolve_loop token current s =
     (if token = [] \<or> current = 0 then Some current
      else let part = takeWhile (\<lambda>c. c \<noteq> 47) token; next_sep = dropWhile (\<lambda>c. c \<noteq> 47) token
           in do {
             current' \<leftarrow> (if length part > 0 then vfs_finddir current part s else Some current);
             if current' = 0 then Some 0
             else if next_sep \<noteq> [] then resolve_loop (tl next_sep) current' s
             else Some current'
           })"
  by pat_completeness auto

lemma next_token: "dropWhile P xs \<noteq> [] \<Longrightarrow> length (tl (dropWhile P xs)) < length xs"
  using length_dropWhile_le [of P xs] by (cases "dropWhile P xs") auto

termination resolve_loop
  by (relation "measure (\<lambda>(token, current, s). length token)") (simp_all add: next_token del: length_tl dropWhile_eq_Nil_conv)

declare resolve_loop.simps [simp del]

definition vfs_resolve_path :: "u8 list \<Rightarrow> u8 list option \<Rightarrow> 'a kvfs_scheme \<Rightarrow> u32 option" where
  "vfs_resolve_path stack path s =
     (case path of
        None \<Rightarrow> Some 0
      | Some p \<Rightarrow>
          if vfs_root s = 0 then Some 0
          else if p = lit ''/'' then Some (vfs_root s)
          else
            (let buf = pathbuf stack p;
                 token = (if buf \<noteq> [] \<and> hd buf = 47 then tl buf else buf)
             in resolve_loop token (vfs_root s) s))"

section \<open>Paths as lists of names\<close>

text \<open>The components of a path, the empty ones left out.\<close>

function split_path :: "u8 list \<Rightarrow> u8 list list" where
  "split_path p =
     (let part = takeWhile (\<lambda>c. c \<noteq> 47) p; sep = dropWhile (\<lambda>c. c \<noteq> 47) p
      in part # (if sep = [] then [] else split_path (tl sep)))"
  by pat_completeness auto

termination split_path
  by (relation "measure length") (simp_all add: next_token del: length_tl dropWhile_eq_Nil_conv)

declare split_path.simps [simp del]

definition components :: "u8 list \<Rightarrow> u8 list list" where
  "components p = filter (\<lambda>c. c \<noteq> []) (split_path p)"

fun path_walk :: "(u32 \<Rightarrow> u8 list \<Rightarrow> 's \<Rightarrow> u32 option) \<Rightarrow> u8 list list \<Rightarrow> u32 \<Rightarrow> 's \<Rightarrow> u32 option" where
  "path_walk lookup [] d s = Some d"
| "path_walk lookup (c # cs) d s =
     do { x \<leftarrow> lookup d c s; if x = 0 then Some 0 else path_walk lookup cs x s }"

lemma components_token:
  "components p = (let part = takeWhile (\<lambda>c. c \<noteq> 47) p; sep = dropWhile (\<lambda>c. c \<noteq> 47) p
     in (if part = [] then [] else [part]) @ (if sep = [] then [] else components (tl sep)))"
proof -
  have "split_path p = takeWhile (\<lambda>c. c \<noteq> 47) p # (if dropWhile (\<lambda>c. c \<noteq> 47) p = [] then []
      else split_path (tl (dropWhile (\<lambda>c. c \<noteq> 47) p)))" by (subst split_path.simps) (simp only: Let_def)
  then show ?thesis unfolding components_def Let_def by (simp only: filter.simps append.simps if_distrib [of "filter _"] split: if_split) simp
qed

lemma components_simps:
  "components [] = []" "components (47 # p) = components p"
  by (subst components_token, simp add: Let_def)+

lemma components_slash: "n \<noteq> [] \<Longrightarrow> 47 \<notin> set n \<Longrightarrow> components n = [n]"
  "n \<noteq> [] \<Longrightarrow> 47 \<notin> set n \<Longrightarrow> components (n @ 47 # p) = n # components p"
proof -
  assume n: "n \<noteq> []" "47 \<notin> set n"
  then have a: "\<forall>c \<in> set n. c \<noteq> 47" by auto
  have t: "takeWhile (\<lambda>c. c \<noteq> 47) n = n" "dropWhile (\<lambda>c. c \<noteq> 47) n = []" using a by simp_all
  have u: "takeWhile (\<lambda>c. c \<noteq> 47) (n @ 47 # p) = n" "dropWhile (\<lambda>c. c \<noteq> 47) (n @ 47 # p) = 47 # p"
    using a by (simp_all add: takeWhile_tail t dropWhile_append)
  show "components n = [n]" by (subst components_token) (simp add: t n Let_def)
  show "components (n @ 47 # p) = n # components p" by (subst components_token) (simp only: u n Let_def list.simps if_False append.simps list.sel)
qed

lemma resolve_loop_walk: "d \<noteq> 0 \<Longrightarrow> resolve_loop p d s = path_walk vfs_finddir (components p) d s"
proof (induction p arbitrary: d rule: measure_induct_rule [of length])
  case (less p)
  let ?part = "takeWhile (\<lambda>c. c \<noteq> 47) p" and ?sep = "dropWhile (\<lambda>c. c \<noteq> 47) p"
  show ?case
  proof (cases "p = []")
    case True
    then show ?thesis by (simp add: resolve_loop.simps components_simps)
  next
    case False
    define rest where "rest x = (if ?sep \<noteq> [] then resolve_loop (tl ?sep) x s else Some x)" for x
    have r: "rest x = path_walk vfs_finddir (if ?sep = [] then [] else components (tl ?sep)) x s" if "x \<noteq> 0" for x
      by (cases "?sep = []") (simp_all add: rest_def less.IH [OF next_token that] del: dropWhile_eq_Nil_conv)
    have "resolve_loop p d s = do {x \<leftarrow> (if length ?part > 0 then vfs_finddir d ?part s else Some d);
        if x = 0 then Some 0 else rest x}"
      unfolding rest_def using False less.prems
      by (subst resolve_loop.simps) (simp only: Let_def de_Morgan_disj if_False simp_thms)
    also have "\<dots> = path_walk vfs_finddir (components p) d s"
    proof (cases "?part = []")
      case True
      then show ?thesis using r [OF less.prems] less.prems by (subst components_token) (simp add: Let_def del: dropWhile_eq_Nil_conv takeWhile_eq_Nil_iff)
    next
      case part: False
      have e: "(if x = 0 then Some 0 else rest x) =
          (if x = 0 then Some 0 else path_walk vfs_finddir (if ?sep = [] then [] else components (tl ?sep)) x s)" for x
        using r by simp
      show ?thesis using part unfolding e by (subst components_token) (simp add: Let_def del: dropWhile_eq_Nil_conv takeWhile_eq_Nil_iff)
    qed
    finally show ?thesis .
  qed
qed

section \<open>Names lead to nodes\<close>

text \<open>A list of names leads from a directory to a node when each name is an entry of the directory reached so far.\<close>

inductive named :: "('s \<Rightarrow> u32 \<Rightarrow> (u8 list \<times> u32) list \<Rightarrow> bool) \<Rightarrow> 's \<Rightarrow> u32 \<Rightarrow> u8 list list \<Rightarrow> u32 \<Rightarrow> bool" for dir s where
  here: "named dir s d [] d"
| down: "dir s d es \<Longrightarrow> map_of es c = Some x \<Longrightarrow> named dir s x cs y \<Longrightarrow> named dir s d (c # cs) y"

context directory_lookup
begin

lemma walk_named: "named dir s d cs x \<Longrightarrow> path_walk lookup (cs @ cs') d s = path_walk lookup cs' x s"
proof (induction rule: named.induct)
  case (down d es c x cs y)
  then show ?case using lookup_entry [OF down(1), of c] entry_node [OF down(1,2)] by simp
qed simp

lemma walk_missing:
  "named dir s d cs x \<Longrightarrow> dir s x es \<Longrightarrow> map_of es c = None \<Longrightarrow> path_walk lookup (cs @ c # cs') d s = Some 0"
  using walk_named [of s d cs x "c # cs'"] lookup_entry [of s x es c] by simp

end

definition vfs_dir :: "'a kfs_scheme \<Rightarrow> u32 \<Rightarrow> (u8 list \<times> u32) list \<Rightarrow> bool" where
  "vfs_dir s d es \<longleftrightarrow> dir_entries s d es \<and> d \<noteq> 0 \<and> node_op vop_finddir d s = Some Ramfs_finddir"

lemmas vfs_down = named.down [where dir = vfs_dir]

interpretation vfs_lookup: directory_lookup vfs_dir vfs_finddir
  by unfold_locales (auto simp: vfs_dir_def vfs_finddir_def finddir_entries dest: entries_nz)

lemma resolve_components:
  assumes "length p < 1023" "vfs_root s \<noteq> 0"
  shows "vfs_resolve_path stack (Some p) s = path_walk vfs_finddir (components p) (vfs_root s) s"
proof (cases "p = lit ''/''")
  case True
  then show ?thesis using assms by (simp add: vfs_resolve_path_def lit_def components_simps)
next
  case False
  let ?t = "if p \<noteq> [] \<and> hd p = 47 then tl p else p"
  have "components ?t = components p" by (cases p) (auto simp: components_simps)
  then show ?thesis using assms False resolve_loop_walk [OF assms(2), of ?t s]
    by (simp add: vfs_resolve_path_def pathbuf_def Let_def)
qed

section \<open>What the operations leave to each other\<close>

lemma kprintf_vfs [simp]:
  "vfs_root (kprintf f a s) = vfs_root s" "mount_list (kprintf f a s) = mount_list s" "mount_count (kprintf f a s) = mount_count s"
  "mounts (kprintf f a s) = mounts s" "kvfs.more (kprintf f a s) = kvfs.more s"
  by (subst kprintf_eq; simp)+

lemma more_vfs:
  assumes "kfs.more s' = kfs.more s"
  shows "vfs_root s' = vfs_root s" "mount_list s' = mount_list s" "mount_count s' = mount_count s" "mounts s' = mounts s"
    "kvfs.more s' = kvfs.more s"
  using assms by (cases s; cases s'; simp)+

lemma node_op_cong: "n_ops (nodes s' d) = n_ops (nodes s d) \<Longrightarrow> node_op sel d s' = node_op sel d s"
  by (simp add: node_op_def)

text \<open>A directory in which entries can be made and removed.\<close>

definition dir_node :: "'a kfs_scheme \<Rightarrow> u32 \<Rightarrow> bool" where
  "dir_node s d \<longleftrightarrow> d \<noteq> 0 \<and> (n_ops (nodes s d) = Some ramfs_root_ops \<or> n_ops (nodes s d) = Some ramfs_dir_ops)"

lemma dir_node_ops:
  assumes "dir_node s d"
  shows "node_op vop_finddir d s = Some Ramfs_finddir" "node_op vop_create d s = Some Ramfs_do_create"
    "node_op vop_mkdir d s = Some Ramfs_do_mkdir" "node_op vop_unlink d s = Some Ramfs_do_unlink"
    "node_op vop_readdir d s = Some Ramfs_readdir"
  using assms by (auto simp: dir_node_def node_op_def ramfs_root_ops_def ramfs_dir_ops_def)

lemma dir_node_calls:
  assumes "dir_node s d"
  shows "vfs_finddir d n s = ramfs_finddir d n s" "vfs_create d n ty s = ramfs_do_create d n ty s"
    "vfs_mkdir d n mode s = ramfs_do_mkdir d n mode s" "vfs_unlink d n s = ramfs_do_unlink d n s"
    "vfs_readdir d i s = ramfs_readdir d i s"
  using dir_node_ops [OF assms]
  by (simp_all add: vfs_finddir_def vfs_create_def vfs_mkdir_def vfs_unlink_def vfs_readdir_def)

lemma vfs_dirI: "dir_node s d \<Longrightarrow> dir_entries s d es \<Longrightarrow> vfs_dir s d es"
  using dir_node_ops(1) by (auto simp: vfs_dir_def dir_node_def)

lemma dir_live:
  assumes "dir_entries s d es"
  shows "heap_ok s" "live_at s d"
  using assms by (auto elim!: dir_entriesE intro: dir_nodesD(1,6))

section \<open>Sequences of directory operations\<close>

datatype fs_op = Create "u8 list" u32 | Mkdir "u8 list" u32 | Unlink "u8 list"

fun fs_exec :: "u32 \<Rightarrow> fs_op \<Rightarrow> 'a kfs_scheme \<Rightarrow> (u32 \<times> 'a kfs_scheme) option" where
  "fs_exec d (Create name ty) s = vfs_create d name ty s"
| "fs_exec d (Mkdir name mode) s = vfs_mkdir d name mode s"
| "fs_exec d (Unlink name) s = vfs_unlink d name s"

inductive fs_run :: "u32 \<Rightarrow> 'a kfs_scheme \<Rightarrow> fs_op list \<Rightarrow> 'a kfs_scheme \<Rightarrow> bool" for d where
  nil: "fs_run d s [] s"
| cons: "fs_exec d op s = Some (r, s') \<Longrightarrow> fs_run d s' ops s'' \<Longrightarrow> fs_run d s (op # ops) s''"

inductive_cases fs_run_nilE: "fs_run d s [] s'"
inductive_cases fs_run_consE: "fs_run d s (op # ops) s'"

definition good_dir :: "'a kfs_scheme \<Rightarrow> u32 \<Rightarrow> bool" where
  "good_dir s d \<longleftrightarrow> dir_node s d \<and> (\<exists>es. dir_entries s d es)"

lemma fs_exec_good:
  assumes "good_dir s d"
  obtains r s' where "fs_exec d op s = Some (r, s')" "good_dir s' d"
proof -
  note result = that
  from assms obtain es where d: "dir_node s d" "dir_entries s d es" by (auto simp: good_dir_def)
  have keep: "good_dir s' d" if "dir_entries s' d es'" "n_ops (nodes s' d) = n_ops (nodes s d)" for s' :: "'a kfs_scheme" and es'
    using that d(1) by (auto simp: good_dir_def dir_node_def)
  from d(2) obtain xs where xs: "dir_nodes s d xs" "es = entries s xs" by (rule dir_entriesE)
  have failed: thesis
    if c: "map_of es name \<noteq> None \<or> amalloc 184 (blocks_of s) = None" and o: "op = Create name ty \<or> op = Mkdir name ty" for name ty
  proof -
    obtain s' where s': "ramfs_do_create d name ty s = Some (- 1, s')" "ramfs_do_mkdir d name ty s = Some (- 1, s')"
      "nodes s' = nodes s" "files s' = files s" "heap_ok s'" "heap_live s' = heap_live s"
      by (rule create_fails [OF xs(1) c [unfolded xs(2)]])
    have "good_dir s' d" by (rule keep [OF dir_entries_same [OF d(2) s'(3-6)]]) (simp add: s'(3))
    then show thesis using o s'(1,2) dir_node_calls [OF d(1)] result by auto
  qed
  show thesis
  proof (cases op)
    case (Create name ty)
    show thesis
    proof (cases "map_of es name \<noteq> None \<or> amalloc 184 (blocks_of s) = None")
      case True
      then show thesis using failed Create by blast
    next
      case False
      show thesis
      proof (rule create_adds [OF d(2), of name ty], goal_cases)
        case (3 x s')
        have "good_dir s' d" by (rule keep [OF 3(2)]) (simp add: 3(9))
        then show thesis using 3(1) Create dir_node_calls [OF d(1)] that by simp
      qed (use False in auto)
    qed
  next
    case (Mkdir name mode)
    show thesis
    proof (cases "map_of es name \<noteq> None \<or> amalloc 184 (blocks_of s) = None")
      case True
      then show thesis using failed Mkdir by blast
    next
      case False
      show thesis
      proof (rule mkdir_adds [OF d(2), of name mode], goal_cases)
        case (3 x s')
        have "good_dir s' d" by (rule keep [OF 3(2)]) (simp add: 3(9))
        then show thesis using 3(1) Mkdir dir_node_calls [OF d(1)] that by simp
      qed (use False in auto)
    qed
  next
    case (Unlink name)
    show thesis
    proof (cases "map_of es name")
      case None
      then show thesis using unlink_absent [OF xs(1)] xs(2) Unlink dir_node_calls [OF d(1)] assms that by simp
    next
      case (Some x)
      show thesis
      proof (rule unlink_works [OF xs(1) Some [unfolded xs(2)]], goal_cases)
        case (1 s')
        have "good_dir s' d" by (rule keep [OF dir_entriesI [OF 1(2)]]) (simp add: 1(7))
        then show thesis using 1(1) Unlink dir_node_calls [OF d(1)] that by simp
      qed
    qed
  qed
qed

section \<open>The list of mounts\<close>

definition mounted :: "'a kvfs_scheme \<Rightarrow> u32 list \<Rightarrow> bool" where
  "mounted s ms \<longleftrightarrow> heap_ok s \<and> lpath (\<lambda>p. m_next (mounts s p)) (mount_list s) ms \<and> mount_count s = of_nat (length ms) \<and>
     length ms \<le> 16 \<and> (\<forall>m \<in> set ms. live_at s m)"

definition can_mount :: "u8 list option \<Rightarrow> u8 list option \<Rightarrow> u32 \<Rightarrow> u32 list \<Rightarrow> 'a kvfs_scheme \<Rightarrow> bool" where
  "can_mount path fs_type root ms s \<longleftrightarrow> path \<noteq> None \<and> fs_type \<noteq> None \<and> root \<noteq> 0 \<and> length ms < 16 \<and>
     amalloc 1064 (blocks_of s) \<noteq> None"

lemma mounts_full: "mounted s ms \<Longrightarrow> mount_count s \<ge> MAX_MOUNTS \<longleftrightarrow> \<not> length ms < 16"
  by (auto simp: mounted_def word_le_nat_alt unat_of_nat32)

lemma mounted_same:
  assumes "mounted s ms" "heap_ok s'" "heap_live s \<subseteq> heap_live s'" "kfs.more s' = kfs.more s"
  shows "mounted s' ms"
  using assms(1-3) more_vfs [OF assms(4)] image_mono [OF assms(3), of fst] unfolding mounted_def live_at_def by auto

lemma vfs_mount_fails:
  assumes m: "mounted s ms" and c: "\<not> can_mount path fs_type root ms s"
  shows "\<exists>s'. vfs_mount path fs_type root s = Some (- 1, s') \<and> mounted s' ms \<and> vfs_root s' = vfs_root s"
proof (cases "path = None \<or> fs_type = None \<or> root = 0")
  case True
  then show ?thesis using m by (auto simp: vfs_mount_def split: option.splits)
next
  case g: False
  then obtain p t where pt: "path = Some p" "fs_type = Some t" by auto
  show ?thesis
  proof (cases "length ms < 16")
    case False
    let ?k = "kprintf (litln ''[VFS] ERROR: Maximum mount points reached'') [] s"
    have "mounted ?k ms" using m by (simp add: mounted_def live_at_def)
    moreover have "vfs_mount path fs_type root s = Some (- 1, ?k)"
      using g False mounts_full [OF m] by (simp add: vfs_mount_def pt)
    ultimately show ?thesis by simp
  next
    case True
    have ok: "heap_ok s" using m by (simp add: mounted_def)
    obtain a s1 where km: "kmalloc 1064 s = Some (a, s1)" using kmalloc_total [OF ok] by blast
    have "amalloc 1064 (blocks_of s) = None" using c g True by (simp add: can_mount_def del: not_None_eq)
    then have "a = 0" using kmalloc_iff(1) [OF ok _ km] by (simp add: unat_round8)
    then have "vfs_mount path fs_type root s = Some (- 1, s1)"
      using g True mounts_full [OF m] km by (simp add: vfs_mount_def pt)
    moreover have "mounted s1 ms"
      using mounted_same [OF m kmalloc_laws(1,3) [OF ok km]] kmalloc_fs [OF km] by blast
    ultimately show ?thesis using more_vfs(1) kmalloc_fs [OF km] by blast
  qed
qed

lemma vfs_mount_works:
  assumes m: "mounted s ms" and c: "can_mount (Some p) (Some t) root ms s"
  obtains a s' where "vfs_mount (Some p) (Some t) root s = Some (0, s')" "mounted s' (a # ms)" "\<not> live_at s a"
    "mounts s' = (mounts s)(a := \<lparr>m_path = take 1023 p, m_fs_type = take 31 t, m_root = root, m_next = mount_list s\<rparr>)"
    "vfs_root s' = (if p = lit ''/'' then root else vfs_root s)" "nodes s' = nodes s" "files s' = files s" "heap_live s \<subseteq> heap_live s'"
    "heap_start s' = heap_start s" "\<And>N. 16 \<le> N \<Longrightarrow> has_room (N + 1080) s \<Longrightarrow> has_room N s'"
proof -
  have ok: "heap_ok s" using m by (simp add: mounted_def)
  obtain a s1 where km: "kmalloc 1064 s = Some (a, s1)" using kmalloc_total [OF ok] by blast
  have r8: "unat (round8 1064) = 1064" by (simp add: unat_round8)
  have a: "a \<noteq> 0" using kmalloc_iff(1) [OF ok _ km] c by (simp add: r8 can_mount_def)
  obtain sz where sz: "heap_live s1 = insert (unat a, sz) (heap_live s)" "(unat a, sz) \<notin> heap_live s"
    using kmalloc_laws(5) [OF ok km a] by auto
  note fr = fresh_not_live [OF sz kmalloc_more(5) [OF km]]
  note q = more_vfs [OF conjunct1 [OF kmalloc_fs [OF km]]] and fs = more_fs [OF kmalloc_more(1) [OF km]]
  let ?M = "\<lparr>m_path = take 1023 p, m_fs_type = take 31 t, m_root = root, m_next = mount_list s\<rparr>"
  define s2 where "s2 = s1\<lparr>mounts := (mounts s)(a := ?M), mount_list := a, mount_count := mount_count s + 1\<rparr>"
  define s3 where "s3 = (if p = lit ''/'' then s2\<lparr>vfs_root := root\<rparr> else s2)"
  have g: "root \<noteq> 0" "\<not> mount_count s \<ge> MAX_MOUNTS" using c mounts_full [OF m] by (simp_all add: can_mount_def)
  have e: "vfs_mount (Some p) (Some t) root s =
      Some (0, kprintf (lit ''[VFS] Mounted '%s' filesystem at '%s'' @ [39, 10]) [VStr t, VStr p] s3)"
    using g km a unfolding s3_def s2_def by (simp add: vfs_mount_def Let_def q)
  have H: "blocks_of s3 = blocks_of s1" "heap_ok s3 = heap_ok s1" "heap_live s3 = heap_live s1" "heap_start s3 = heap_start s1"
    by (simp_all add: s3_def s2_def heap_ok_def blocks_of_def heap_end_def heap_live_def)
  have F: "nodes s3 = nodes s" "files s3 = files s" "mounts s3 = (mounts s)(a := ?M)" "mount_list s3 = a"
    "mount_count s3 = mount_count s + 1" "vfs_root s3 = (if p = lit ''/'' then root else vfs_root s)"
    by (simp_all add: s3_def s2_def fs q)
  have na: "a \<notin> set ms" using m fr by (auto simp: mounted_def)
  have "lpath (\<lambda>q. m_next (mounts s3 q)) (mount_list s) ms"
    using m lpath_cong [of ms "\<lambda>q. m_next (mounts s3 q)" "\<lambda>q. m_next (mounts s q)"] na by (auto simp: mounted_def F(3))
  then have "mounted s3 (a # ms)"
    using m c a kmalloc_laws(1) [OF ok km] sz(1) unfolding mounted_def live_at_def H F(4,5)
    by (auto simp: F(3) can_mount_def)
  moreover have "has_room N s3" if "16 \<le> N" "has_room (N + 1080) s" for N
    using kmalloc_room(2) [OF ok _ _ _ that(1) km, of 1064] that(2) r8 by (simp add: has_room_def H(1) add.assoc)
  ultimately show thesis
    using that [OF e, of a] fr F sz(1) kmalloc_more(5) [OF km] by (auto simp: mounted_def live_at_def H)
qed

section \<open>A mounted root\<close>

definition fresh_vfs :: kvfs where
  "fresh_vfs = kheap_init 0x200000 boot_vfs"

definition root_vfs :: kvfs where
  "root_vfs = (case the (ramfs_init fresh_vfs) of (x, s) \<Rightarrow> s\<lparr>vfs_root := x\<rparr>)"

lemma fresh_vfs_heap: "heap_ok fresh_vfs" "blocks_of fresh_vfs = [(4194288, True)]"
  by (simp_all add: fresh_vfs_def init_fields kheap_init_blocks)

lemma root_vfs_ok:
  "dir_entries root_vfs (vfs_root root_vfs) []" "dir_node root_vfs (vfs_root root_vfs)" "has_room 4194088 root_vfs"
  "vfs_root root_vfs \<noteq> 0"
proof -
  have "amalloc 184 (blocks_of fresh_vfs) = Some (16, [(184, False), (4194088, True)])" by (simp add: fresh_vfs_heap carve_def)
  then obtain x s where x: "ramfs_init fresh_vfs = Some (x, s)" "x \<noteq> 0" "dir_entries s x []"
    "blocks_of s = [(184, False), (4194088, True)]" "n_ops (nodes s x) = Some ramfs_root_ops"
    by (rule ramfs_init_root [OF fresh_vfs_heap(1)])
  have r: "root_vfs = s\<lparr>vfs_root := x\<rparr>" by (simp add: root_vfs_def x(1))
  have h: "heap_ok (s\<lparr>vfs_root := x\<rparr>)" "heap_live (s\<lparr>vfs_root := x\<rparr>) = heap_live s" "blocks_of (s\<lparr>vfs_root := x\<rparr>) = blocks_of s"
    using x(3) by (auto simp: heap_ok_def blocks_of_def heap_end_def heap_live_def dir_entries_def dir_nodes_def)
  show "dir_entries root_vfs (vfs_root root_vfs) []" unfolding r using dir_entries_same [OF x(3) _ _ h(1,2)] by simp
  show "dir_node root_vfs (vfs_root root_vfs)" "vfs_root root_vfs \<noteq> 0" using x(2,5) by (simp_all add: r dir_node_def)
  show "has_room 4194088 root_vfs" by (simp add: r has_room_def h(3) x(4))
qed

section \<open>Properties\<close>

text \<open>
  C25: \<^verbatim>\<open>vfs_resolve_path\<close> is the walk along the components of the path: starting at the root it looks up each non-empty piece
  between slashes in the node reached so far, and stops with NULL at the first one that is not there. Leading, doubled
  and trailing slashes and the empty path are covered, for every path that fits the buffer.
\<close>

theorem vfs_resolve_path_walks:
  assumes "length p < 1023" "vfs_root s \<noteq> 0"
  shows "vfs_resolve_path stack (Some p) s = path_walk vfs_finddir (components p) (vfs_root s) s"
  by (rule resolve_components [OF assms])

theorem vfs_resolve_path_walks_witness:
  "vfs_resolve_path [] (Some (lit ''//a///b/'')) root_vfs =
     path_walk vfs_finddir [lit ''a'', lit ''b''] (vfs_root root_vfs) root_vfs"
proof -
  have c: "components (lit ''//a///b/'') = [lit ''a'', lit ''b'']"
    by (simp add: lit_def components_simps components_token [of "97 # _"] components_token [of "98 # _"])
  show ?thesis using vfs_resolve_path_walks [of "lit ''//a///b/''" root_vfs "[]"] root_vfs_ok(4)
    by (simp add: c [symmetric]) (simp add: lit_def)
qed

text \<open>
  A path resolves to the node its names lead to: when the first components lead through entries of directories to a node, then the
  path made of them resolves to that node, and a path that goes on with a name that has no entry in that
  directory resolves to NULL, whatever follows.
\<close>

theorem vfs_resolve_path_named:
  assumes "length p < 1023" "vfs_root s \<noteq> 0" "named vfs_dir s (vfs_root s) cs x"
  shows "(components p = cs \<longrightarrow> vfs_resolve_path stack (Some p) s = Some x) \<and>
     (\<forall>c cs' es. components p = cs @ c # cs' \<and> vfs_dir s x es \<and> map_of es c = None \<longrightarrow> vfs_resolve_path stack (Some p) s = Some 0)"
  using resolve_components [OF assms(1,2)] vfs_lookup.walk_named [OF assms(3), of "[]"] vfs_lookup.walk_missing [OF assms(3)]
  by auto

theorem vfs_resolve_path_named_witness:
  "vfs_resolve_path [] (Some (lit ''/'')) root_vfs = Some (vfs_root root_vfs) \<and> vfs_resolve_path [] (Some (lit ''/a'')) root_vfs = Some 0"
proof
  have c: "components (lit ''/'') = []" "components (lit ''/a'') = [] @ lit ''a'' # []"
    by (simp_all add: lit_def components_simps components_token [of "97 # _"])
  note n = vfs_resolve_path_named [OF _ root_vfs_ok(4) named.here, of _ "[]"]
  show "vfs_resolve_path [] (Some (lit ''/'')) root_vfs = Some (vfs_root root_vfs)"
    using n [of "lit ''/''"] c(1) by (simp add: lit_def)
  show "vfs_resolve_path [] (Some (lit ''/a'')) root_vfs = Some 0"
    using n [of "lit ''/a''"] c(2) vfs_dirI [OF root_vfs_ok(2,1)] by (simp add: lit_def) (metis map_of.simps(1))
qed

text \<open>
  C24: Directory operations are type safe. On a directory node with a well-formed list of entries, every sequence of creations, of
  files and of directories, and removals, with any names, successful or not, runs to its end, and the
  directory is well-formed after it: an acyclic list of live nodes, no two of which share a heap block.
\<close>

theorem fs_run_type_safe:
  assumes "good_dir s d"
  shows "(\<exists>s'. fs_run d s ops s') \<and> (\<forall>s'. fs_run d s ops s' \<longrightarrow> good_dir s' d)"
  using assms
proof (induction ops arbitrary: s)
  case Nil
  then show ?case by (auto intro: fs_run.nil elim: fs_run_nilE)
next
  case (Cons op ops)
  obtain r s1 where e: "fs_exec d op s = Some (r, s1)" "good_dir s1 d" by (rule fs_exec_good [OF Cons.prems])
  have "(\<exists>s'. fs_run d s1 ops s') \<and> (\<forall>s'. fs_run d s1 ops s' \<longrightarrow> good_dir s' d)" by (rule Cons.IH [OF e(2)])
  then show ?case using e(1) by (auto intro: fs_run.cons elim!: fs_run_consE)
qed

theorem fs_run_type_safe_witness:
  "\<exists>s'. fs_run (vfs_root root_vfs) root_vfs [Mkdir (lit ''dev'') 0x1ED, Create (lit ''a'') 1, Unlink (lit ''dev'')] s' \<and>
     good_dir s' (vfs_root root_vfs)"
proof -
  have "good_dir root_vfs (vfs_root root_vfs)" using root_vfs_ok by (auto simp: good_dir_def)
  from fs_run_type_safe [OF this, of "[Mkdir (lit ''dev'') 0x1ED, Create (lit ''a'') 1, Unlink (lit ''dev'')]"]
  show ?thesis by blast
qed

text \<open>
  C26: What is created is found under its path. After a directory was made in the root and a file in that directory, the paths
  \<open>/n\<close> and \<open>/n/m\<close> resolve to the two new nodes, which are different and not the root.
\<close>

theorem vfs_created_path_resolves:
  assumes "dir_entries s (vfs_root s) es" "dir_node s (vfs_root s)" "map_of es n = None" "has_room 500 s"
    and "n \<noteq> []" "47 \<notin> set n" "length n \<le> 127" "m \<noteq> []" "47 \<notin> set m" "length m \<le> 127"
  shows "\<exists>x y s1 s2. vfs_mkdir (vfs_root s) n mode s = Some (0, s1) \<and> vfs_resolve_path stack (Some (47 # n)) s1 = Some x \<and>
     vfs_create x m VFS_FILE s1 = Some (0, s2) \<and> vfs_resolve_path stack (Some (47 # n)) s2 = Some x \<and>
     vfs_resolve_path stack (Some (47 # n @ 47 # m)) s2 = Some y \<and> x \<noteq> 0 \<and> y \<noteq> 0 \<and> x \<noteq> y \<and> vfs_root s \<notin> {x, y}"
proof -
  let ?r = "vfs_root s"
  have n1: "components (47 # n) = [n]" using assms(5,6) by (simp add: components_simps components_slash)
  have n2: "components (47 # n @ 47 # m) = [n, m]" using assms(5,6,8,9) by (simp add: components_simps components_slash)
  have len: "length (47 # n) < 1023" "length (47 # n @ 47 # m) < 1023" using assms(7,10) by simp_all
  have room: "has_room (268 + 232) s" using assms(4) by simp
  show ?thesis
  proof (rule mkdir_adds [OF assms(1), of n mode], goal_cases)
    case (3 x s1)
    note r1 = more_vfs(1) [OF 3(11)]
    have D1: "dir_node s1 ?r" using assms(2) 3(9) by (simp add: dir_node_def)
    have E1: "dir_entries s1 ?r ((n, x) # es)" using 3(2) assms(7) by simp
    have x0: "x \<noteq> 0" "x \<noteq> ?r" using entries_nz [OF E1, of n] 3(4) dir_live [OF assms(1)] by auto
    have D1x: "dir_node s1 x" using 3(7) x0(1) by (simp add: dir_node_def)
    have N1: "named vfs_dir s1 ?r [n] x" by (rule vfs_down [OF vfs_dirI [OF D1 E1] _ named.here]) simp
    have R1: "vfs_resolve_path stack (Some (47 # n)) s1 = Some x"
      using resolve_components [OF len(1), of s1 stack] vfs_lookup.walk_named [OF N1, of "[]"] n1 r1 assms(2) by (simp add: dir_node_def)
    have room1: "has_room (36 + 232) s1" using 3(13) [OF _ room] by simp
    show ?thesis
    proof (rule create_adds [OF 3(3), of m VFS_FILE], goal_cases)
      case c: (3 y s2)
      note r2 = more_vfs(1) [OF c(11)]
      have y: "y \<noteq> x" "y \<noteq> ?r" using c(3) dir_live(2) [OF 3(3)] dir_live(2) [OF E1] by auto
      have E2x: "dir_entries s2 x [(m, y)]" using c(2) assms(10) by simp
      have y0: "y \<noteq> 0" using entries_nz [OF E2x, of m] by simp
      have nr: "nodes s2 ?r = nodes s1 ?r" using c(8) x0(2) y(2) by metis
      have E2: "dir_entries s2 ?r ((n, x) # es)"
      proof (rule dir_frame [OF E1 dir_live(1) [OF E2x] c(4)])
        fix z assume "live_at s1 z"
        then have "z \<noteq> y" using c(3) by auto
        then show "n_name (nodes s2 z) = n_name (nodes s1 z) \<and> n_private_data (nodes s2 z) = n_private_data (nodes s1 z) \<and>
            siblings s2 z = siblings s1 z" using c(8,9) by (cases "z = x") auto
      qed (use nr c(10) in simp_all)
      have D2: "dir_node s2 ?r" "dir_node s2 x" using D1 D1x nr c(9) by (simp_all add: dir_node_def)
      have N2: "named vfs_dir s2 ?r [n] x" by (rule vfs_down [OF vfs_dirI [OF D2(1) E2] _ named.here]) simp
      have N3: "named vfs_dir s2 ?r [n, m] y"
        by (rule vfs_down [OF vfs_dirI [OF D2(1) E2] _ vfs_down [OF vfs_dirI [OF D2(2) E2x] _ named.here]]) simp_all
      have rt: "vfs_root s2 = ?r" "vfs_root s2 \<noteq> 0" using r1 r2 assms(2) by (simp_all add: dir_node_def)
      have R2: "vfs_resolve_path stack (Some (47 # n)) s2 = Some x" "vfs_resolve_path stack (Some (47 # n @ 47 # m)) s2 = Some y"
        using resolve_components [OF len(1) rt(2), of stack] resolve_components [OF len(2) rt(2), of stack]
          vfs_lookup.walk_named [OF N2, of "[]"] vfs_lookup.walk_named [OF N3, of "[]"] n1 n2 rt(1) by simp_all
      have "vfs_mkdir ?r n mode s = Some (0, s1)" "vfs_create x m VFS_FILE s1 = Some (0, s2)"
        using 3(1) c(1) dir_node_calls [OF assms(2)] dir_node_calls [OF D1x] by simp_all
      then show ?thesis using R1 R2 x0 y y0 by blast
    qed (use room_amalloc [OF room1] in simp_all)
  qed (use assms(3) room_amalloc [OF room] in simp_all)
qed

theorem vfs_created_path_resolves_witness:
  "\<exists>x y s1 s2. vfs_mkdir (vfs_root root_vfs) (lit ''tmp'') 0x1FF root_vfs = Some (0, s1) \<and> vfs_create x (lit ''f'') VFS_FILE s1 = Some (0, s2) \<and>
     vfs_resolve_path [] (Some (lit ''/tmp/f'')) s2 = Some y \<and> y \<noteq> 0"
proof -
  have "has_room 500 root_vfs" using room_mono [OF root_vfs_ok(3)] by simp
  from vfs_created_path_resolves [OF root_vfs_ok(1,2) _ this, of "lit ''tmp''" "lit ''f''" "0x1FF" "[]"]
  show ?thesis by (auto simp: lit_def)
qed

text \<open>
  C27: Mounting refines consing a record. \<^verbatim>\<open>vfs_mount\<close> answers -1 and leaves the list of mounts and the root exactly when an argument is
  NULL, 16 file systems are mounted or the heap has no block for the record; otherwise it puts a new
  record in front and sets the root if the path is \<open>/\<close>.
\<close>

theorem vfs_mount_refines:
  assumes "mounted s ms"
  shows "\<exists>r s'. vfs_mount path fs_type root s = Some (r, s') \<and>
     (if can_mount path fs_type root ms s
      then r = 0 \<and> (\<exists>a. mounted s' (a # ms) \<and> m_path (mounts s' a) = take 1023 (the path) \<and> m_root (mounts s' a) = root \<and>
          (\<forall>q. q \<noteq> a \<longrightarrow> mounts s' q = mounts s q)) \<and> vfs_root s' = (if path = Some (lit ''/'') then root else vfs_root s)
      else r = - 1 \<and> mounted s' ms \<and> vfs_root s' = vfs_root s)"
proof (cases "can_mount path fs_type root ms s")
  case True
  then obtain p t where pt: "path = Some p" "fs_type = Some t" by (auto simp: can_mount_def)
  show ?thesis
  proof (rule vfs_mount_works [OF assms True [unfolded pt]], goal_cases)
    case (1 a s')
    then show ?thesis using True unfolding if_P [OF True] by (auto simp: pt intro!: exI [of _ a])
  qed
next
  case False
  then show ?thesis using vfs_mount_fails [OF assms False] by auto
qed

theorem vfs_mount_refines_witness:
  "\<exists>s' a. vfs_mount (Some (lit ''/'')) (Some (lit ''ramfs'')) 0x1000 fresh_vfs = Some (0, s') \<and> mounted s' [a] \<and> vfs_root s' = 0x1000"
proof -
  have "mounted fresh_vfs []"
  proof -
    have "mount_list fresh_vfs = 0" "mount_count fresh_vfs = 0"
      by (simp_all add: fresh_vfs_def kheap_init_def boot_vfs_def kvfs.defs kfs.defs)
    then show ?thesis using fresh_vfs_heap(1) by (simp add: mounted_def)
  qed
  moreover have "can_mount (Some (lit ''/'')) (Some (lit ''ramfs'')) 0x1000 [] fresh_vfs"
    by (simp add: can_mount_def fresh_vfs_heap)
  ultimately show ?thesis
    using vfs_mount_refines [of fresh_vfs "[]" "Some (lit ''/'')" "Some (lit ''ramfs'')" "0x1000"] by auto
qed

end
