(* ===== verification/Syscall.thy ===== *)
theory Syscall
  imports Vfs
begin

text \<open>
  The system call interface, \<^verbatim>\<open>kernel/syscall/syscall.c\<close>: one function per call, the table and the handler of interrupt 128,
  which takes the number from \<open>eax\<close> and leaves the result there. A call that switches to another process returns its
  result when the caller is resumed; the state is that at the switch. Strings and buffers are read from the memory
  the registers point to; a string without an end anywhere in memory has no result.
\<close>

unbundle bit_operations_syntax

section \<open>Arguments in memory\<close>

partial_function (option) cstring :: "mem \<Rightarrow> u32 \<Rightarrow> u8 list option" where
  "cstring m p = (if m p = 0 then Some [] else do { cs \<leftarrow> cstring m (p + 1); Some (m p # cs) })"

declare cstring.simps [code]

definition path_arg :: "u32 \<Rightarrow> 'a kcon_scheme \<Rightarrow> u8 list option option" where
  "path_arg p s = (if p = 0 then Some None else map_option Some (cstring (mem s) p))"

section \<open>The calls\<close>

definition sys_exit :: "registers_t \<Rightarrow> 'a ksched_scheme \<Rightarrow> u32 \<times> 'a ksched_scheme" where
  "sys_exit regs s =
     (let exit_code = r_ebx regs;
          current = process_get_current s;
          s1 = (if current \<noteq> 0 then process_terminate current exit_code s else s)
      in (0, scheduler_yield s1))"

definition sys_read :: "registers_t \<Rightarrow> 's \<Rightarrow> u32 \<times> 's" where
  "sys_read regs s = (- 1, s)"

definition write_char :: "u32 \<Rightarrow> nat \<Rightarrow> 'a kcon_scheme \<Rightarrow> 'a kcon_scheme" where
  "write_char buffer i s = kprintf (lit ''%c'') [VInt (scast (mem s (buffer + of_nat i)))] s"

definition sys_write :: "registers_t \<Rightarrow> 'a kcon_scheme \<Rightarrow> u32 \<times> 'a kcon_scheme" where
  "sys_write regs s =
     (let fd = r_ebx regs; buffer = r_ecx regs; sz = r_edx regs
      in if fd = 1 \<or> fd = 2 then (sz, fold (write_char buffer) [0..<unat sz] s) else (- 1, s))"

definition sys_open :: "u8 list \<Rightarrow> registers_t \<Rightarrow> 'a kvfs_scheme \<Rightarrow> (u32 \<times> 'a kvfs_scheme) option" where
  "sys_open stack regs s =
     do {
       path \<leftarrow> path_arg (r_ebx regs) s;
       node \<leftarrow> vfs_resolve_path stack path s;
       Some (if node = 0 then (- 1, s) else vfs_open node (r_ecx regs) s)
     }"

definition sys_close :: "registers_t \<Rightarrow> 's \<Rightarrow> u32 \<times> 's" where
  "sys_close regs s = (0, s)"

definition sys_fork :: "registers_t \<Rightarrow> 's \<Rightarrow> u32 \<times> 's" where
  "sys_fork regs s = (- 1, s)"

definition sys_getpid :: "registers_t \<Rightarrow> 'a kproc_scheme \<Rightarrow> u32 \<times> 'a kproc_scheme" where
  "sys_getpid regs s =
     (let current = process_get_current s in (if current \<noteq> 0 then of_int (p_pid (procs s current)) else - 1, s))"

definition sys_yield :: "registers_t \<Rightarrow> 'a ksched_scheme \<Rightarrow> u32 \<times> 'a ksched_scheme" where
  "sys_yield regs s = (0, scheduler_yield s)"

definition sys_sbrk :: "registers_t \<Rightarrow> 's \<Rightarrow> u32 \<times> 's" where
  "sys_sbrk regs s = (- 1, s)"

definition sys_mkdir :: "registers_t \<Rightarrow> 'a kvfs_scheme \<Rightarrow> (u32 \<times> 'a kvfs_scheme) option" where
  "sys_mkdir regs s =
     (let root = vfs_get_root s
      in if root = 0 then Some (- 1, s)
         else do {
           path \<leftarrow> cstring (mem s) (r_ebx regs);
           vfs_mkdir root path (r_ecx regs) s
         })"

definition sys_unlink :: "registers_t \<Rightarrow> 'a kvfs_scheme \<Rightarrow> (u32 \<times> 'a kvfs_scheme) option" where
  "sys_unlink regs s =
     (let root = vfs_get_root s
      in if root = 0 then Some (- 1, s)
         else do {
           path \<leftarrow> cstring (mem s) (r_ebx regs);
           vfs_unlink root path s
         })"

definition sys_stat :: "registers_t \<Rightarrow> 's \<Rightarrow> u32 \<times> 's" where
  "sys_stat regs s = (- 1, s)"

section \<open>The table and the handler\<close>

datatype syscall_fn_t = Sys_exit | Sys_read | Sys_write | Sys_open | Sys_close | Sys_fork | Sys_getpid | Sys_yield
  | Sys_sbrk | Sys_mkdir | Sys_unlink | Sys_stat

abbreviation (input) NUM_SYSCALLS :: u32 where "NUM_SYSCALLS \<equiv> 12"

definition syscall_table :: "syscall_fn_t option list" where
  "syscall_table = map Some [Sys_exit, Sys_read, Sys_write, Sys_open, Sys_close, Sys_fork, Sys_getpid, Sys_yield,
     Sys_sbrk, Sys_mkdir, Sys_unlink, Sys_stat]"

fun syscall_call :: "u8 list \<Rightarrow> syscall_fn_t \<Rightarrow> registers_t \<Rightarrow> 'a kvfs_scheme \<Rightarrow> (u32 \<times> 'a kvfs_scheme) option" where
  "syscall_call stack Sys_exit regs s = Some (sys_exit regs s)"
| "syscall_call stack Sys_read regs s = Some (sys_read regs s)"
| "syscall_call stack Sys_write regs s = Some (sys_write regs s)"
| "syscall_call stack Sys_open regs s = sys_open stack regs s"
| "syscall_call stack Sys_close regs s = Some (sys_close regs s)"
| "syscall_call stack Sys_fork regs s = Some (sys_fork regs s)"
| "syscall_call stack Sys_getpid regs s = Some (sys_getpid regs s)"
| "syscall_call stack Sys_yield regs s = Some (sys_yield regs s)"
| "syscall_call stack Sys_sbrk regs s = Some (sys_sbrk regs s)"
| "syscall_call stack Sys_mkdir regs s = sys_mkdir regs s"
| "syscall_call stack Sys_unlink regs s = sys_unlink regs s"
| "syscall_call stack Sys_stat regs s = Some (sys_stat regs s)"

definition syscall_handler :: "u8 list \<Rightarrow> registers_t \<Rightarrow> 'a kvfs_scheme \<Rightarrow> (registers_t \<times> 'a kvfs_scheme) option" where
  "syscall_handler stack regs s =
     (let num = r_eax regs
      in if num \<ge> NUM_SYSCALLS then Some (regs\<lparr>r_eax := - 1\<rparr>, s)
         else (case syscall_table ! unat num of
                 Some f \<Rightarrow> do {
                   (r, s1) \<leftarrow> syscall_call stack f regs s;
                   Some (regs\<lparr>r_eax := r\<rparr>, s1)
                 }
               | None \<Rightarrow> Some (regs\<lparr>r_eax := - 1\<rparr>, s)))"

definition syscall_init :: "'a kidt_scheme \<Rightarrow> 'a kidt_scheme" where
  "syscall_init s =
     kprintf (litln ''[SYSCALL] System call interface initialized (%d calls)'') [VInt NUM_SYSCALLS]
       (isr_register_handler 128 Syscall_handler s)"

section \<open>Strings in memory\<close>

lemma cstring_at: "cstr_at m p t \<Longrightarrow> cstring m p = Some t"
  by (induction t arbitrary: p) (simp_all add: cstring.simps)

lemma cstr_at_cong:
  "cstr_at m p t \<Longrightarrow> (\<And>i. i \<le> length t \<Longrightarrow> m' (p + of_nat i) = m (p + of_nat i)) \<Longrightarrow> cstr_at m' p t"
proof (induction t arbitrary: p)
  case Nil
  then show ?case using Nil.prems(2) [of 0] by simp
next
  case (Cons c t)
  have "cstr_at m' (p + 1) t"
  proof (rule Cons.IH)
    show "m' (p + 1 + of_nat i) = m (p + 1 + of_nat i)" if "i \<le> length t" for i
      using Cons.prems(2) [of "Suc i"] that by (simp add: add.assoc)
  qed (use Cons.prems(1) in simp)
  then show ?case using Cons.prems(1) Cons.prems(2) [of 0] by simp
qed

lemma create_node_kept:
  assumes "heap_ok s" "ramfs_create_node name ty s = Some (x, s')" "k \<in> kept s"
  shows "mem s' (of_nat k) = mem s (of_nat k)"
proof -
  obtain a s1 where km: "kmalloc 180 s = Some (a, s1)" using kmalloc_total [OF assms(1)] by blast
  note k1 = kmalloc_kept [OF assms(1) km assms(3)]
  show ?thesis
  proof (cases "a = 0")
    case True
    then show ?thesis using assms(2) km k1 by (simp add: ramfs_create_node_def)
  next
    case False
    define s2 where "s2 = upd_node a (\<lambda>_. zero_node\<lparr>n_name := take 127 name, n_type := ty, n_inode := next_inode s1,
       n_permissions := 0x1ED, n_ops := Some ramfs_ops\<rparr>) (s1\<lparr>next_inode := next_inode s1 + 1\<rparr>)"
    have ok2: "heap_ok s2" "mem s2 = mem s1" using kmalloc_laws(1) [OF assms(1) km] by (simp_all add: s2_def)
    have "k \<in> kept s1" by (rule kept_more [OF kmalloc_more(5) [OF km] kmalloc_laws(3) [OF assms(1) km] assms(3)])
    then have kp: "k \<in> kept s2" by (rule kept_more [rotated 2]) (simp_all add: s2_def)
    obtain f s3 where km3: "kmalloc 12 s2 = Some (f, s3)" using kmalloc_total [OF ok2(1)] by blast
    have "s' = s2 \<or> mem s' = mem s3"
      using assms(2) km False km3 unfolding s2_def ramfs_create_node_def by (auto simp: Let_def split: if_splits)
    then show ?thesis using k1 ok2(2) kmalloc_kept [OF ok2(1) km3 kp] by auto
  qed
qed

lemma do_mkdir_kept:
  assumes "heap_ok s" "ramfs_do_mkdir d name mode s = Some (r, s')" "k \<in> kept s"
  shows "mem s' (of_nat k) = mem s (of_nat k)"
  using assms(2) create_node_kept [OF assms(1) _ assms(3), of name VFS_DIRECTORY]
  by (auto simp: ramfs_do_mkdir_def Let_def split: if_splits Option.bind_splits)

lemma string_kept:
  assumes "cstr_at (mem s) p t" "outside_heap p (of_nat (length t + 1)) s" "length t < 2 ^ 31"
    and "\<And>k. k \<in> kept s \<Longrightarrow> mem s' (of_nat k) = mem s (of_nat k)"
  shows "cstr_at (mem s') p t"
proof (rule cstr_at_cong [OF assms(1)])
  fix i assume "i \<le> length t"
  moreover have "unat (of_nat (length t + 1) :: u32) = length t + 1" by (rule unat_of_nat32) (use assms(3) in simp)
  ultimately have "i < unat (of_nat (length t + 1) :: u32)" by simp
  from assms(4) [OF outside_kept [OF assms(2) this]] show "mem s' (p + of_nat i) = mem s (p + of_nat i)" by simp
qed

section \<open>Writing to the console\<close>

lemma write_char_eq: "write_char buffer i s = vga_putchar (mem s (buffer + of_nat i)) s"
proof -
  have "ucast (scast c :: u32) = c" for c :: u8 by (rule bit_word_eqI) (simp add: bit_simps)
  then show ?thesis by (simp add: write_char_def kprintf_def lit_def kprintf_conv_def)
qed

lemma fold_write: "fold (write_char buffer) [0..<n] s = print_str (bytes_at (mem s) buffer n) s"
proof (induction n)
  case (Suc n)
  have "mem (fold vga_putchar cs s) = mem s" for cs by (induction cs arbitrary: s) simp_all
  then show ?case using Suc by (simp add: write_char_eq print_str_def bytes_at_def)
qed (simp add: print_str_def bytes_at_def)

section \<open>A machine with a path in memory\<close>

lemma ramfs_init_more:
  assumes "ramfs_init s = Some (x, s')"
  shows "kfs.more s' = kfs.more s \<and> heap_start s' = heap_start s"
  using assms create_node_more unfolding ramfs_init_def
  by (auto simp: upd_node_def split: Option.bind_splits if_splits)

lemma root_vfs_start: "heap_start root_vfs = 0x200000"
proof -
  obtain x s where x: "ramfs_init fresh_vfs = Some (x, s)"
    by (rule ramfs_init_root [OF fresh_vfs_heap(1), of 16 "[(184, False), (4194088, True)]"])
      (simp_all add: fresh_vfs_heap carve_def)
  then show ?thesis using ramfs_init_more [OF x] by (simp add: root_vfs_def fresh_vfs_def init_fields)
qed

definition path_vfs :: kvfs where
  "path_vfs = root_vfs\<lparr>mem := (mem root_vfs)(0x9000 := 47, 0x9001 := 97, 0x9002 := 0)\<rparr>"

lemma path_vfs_ok:
  "dir_entries path_vfs (vfs_root path_vfs) []" "dir_node path_vfs (vfs_root path_vfs)" "has_room 248 path_vfs"
  "cstr_at (mem path_vfs) 0x9000 [47, 97]" "outside_heap 0x9000 3 path_vfs"
proof -
  note st = root_vfs_start
  have far: "mem path_vfs (of_nat k) = mem root_vfs (of_nat k)" if "unat (heap_start root_vfs) \<le> k" "k < heap_end root_vfs" for k
  proof -
    have "k < 2 ^ 32" "2097152 \<le> k" using that by (simp_all add: st heap_end_def)
    then have "unat (of_nat k :: u32) = k" by (intro unat_of_nat32)
    then have "of_nat k \<noteq> (0x9000 :: u32)" "of_nat k \<noteq> (0x9001 :: u32)" "of_nat k \<noteq> (0x9002 :: u32)"
      using \<open>2097152 \<le> k\<close> by auto
    then show ?thesis by (simp add: path_vfs_def)
  qed
  note H = heap_ok_agree [OF dir_live(1) [OF root_vfs_ok(1)] _ _ far, simplified]
  have e: "heap_start path_vfs = heap_start root_vfs" "heap_initialized path_vfs = heap_initialized root_vfs"
    "nodes path_vfs = nodes root_vfs" "files path_vfs = files root_vfs" "vfs_root path_vfs = vfs_root root_vfs"
    by (simp_all add: path_vfs_def)
  show "dir_entries path_vfs (vfs_root path_vfs) []"
    unfolding e(5) by (rule dir_entries_same [OF root_vfs_ok(1) e(3,4) H(1,3)]) (simp_all add: e)
  show "dir_node path_vfs (vfs_root path_vfs)" using root_vfs_ok(2) by (simp add: dir_node_def e)
  have "blocks_of path_vfs = blocks_of root_vfs" by (rule H(2)) (simp_all add: e)
  then show "has_room 248 path_vfs" using room_mono [OF root_vfs_ok(3), of 248] by (simp add: has_room_def)
  show "cstr_at (mem path_vfs) 0x9000 [47, 97]" by (simp add: path_vfs_def)
  show "outside_heap 0x9000 3 path_vfs" by (simp add: outside_heap_def e st)
qed

section \<open>Properties\<close>



text \<open>
  C31: A call of \<^verbatim>\<open>write\<close> on descriptor 1 or 2 prints exactly the bytes of the buffer, in order, and returns their number; on any other
  descriptor it returns -1 and prints nothing.
\<close>

theorem sys_write_prints:
  assumes "r_eax regs = 2"
  shows "syscall_handler stack regs s =
     (if r_ebx regs = 1 \<or> r_ebx regs = 2
      then Some (regs\<lparr>r_eax := r_edx regs\<rparr>, print_str (bytes_at (mem s) (r_ecx regs) (unat (r_edx regs))) s)
      else Some (regs\<lparr>r_eax := - 1\<rparr>, s))"
  using assms by (simp add: syscall_handler_def syscall_table_def sys_write_def fold_write Let_def)

theorem sys_write_prints_witness:
  "syscall_handler [] (tick_regs\<lparr>r_eax := 2, r_ebx := 1, r_ecx := 0x1000, r_edx := 5\<rparr>) root_vfs =
     Some (tick_regs\<lparr>r_eax := 5, r_ebx := 1, r_ecx := 0x1000, r_edx := 5\<rparr>, print_str (bytes_at (mem root_vfs) 0x1000 5) root_vfs)"
  using sys_write_prints [of "tick_regs\<lparr>r_eax := 2, r_ebx := 1, r_ecx := 0x1000, r_edx := 5\<rparr>" "[]" root_vfs] by simp

text \<open>
  C32: A process that exits is marked TERMINATED with its code, loses its slot in the table, and is not queued again: the head of the
  ready queue runs. With an empty queue nothing is switched and the terminated process goes on running.
\<close>

theorem sys_exit_switches:
  assumes "ready s rq" "process_get_current s = cur" "cur \<noteq> 0" "cur \<notin> set rq" "sys_exit regs s = (r, s')"
  shows "p_state (procs s' cur) = PROCESS_TERMINATED \<and> p_exit_code (procs s' cur) = r_ebx regs \<and>
     (0 < p_pid (procs s cur) \<and> p_pid (procs s cur) < int MAX_PROCESSES \<longrightarrow> process_get_by_pid (p_pid (procs s cur)) s' = 0) \<and>
     ready s' (tl rq) \<and>
     (case rq of
        [] \<Rightarrow> cpu_eip s' = cpu_eip s \<and> cpu_esp s' = cpu_esp s
      | n # _ \<Rightarrow> p_state (procs s' n) = PROCESS_RUNNING \<and> cpu_eip s' = ctx_eip (p_context (procs s n)) \<and>
          cpu_esp s' = ctx_esp (p_context (procs s n)))"
proof -
  let ?t = "process_terminate cur (r_ebx regs) s"
  have e: "s' = scheduler_yield ?t" using assms(2,3,5) by (simp add: sys_exit_def Let_def)
  note T = terminate_simps [OF assms(3), of "r_ebx regs" s]
  have rt: "ready ?t xs = ready s xs" for xs
  proof -
    have "nexts ?t = nexts s" by (rule ext) (simp add: nexts_def T)
    moreover have "ready_queue_head ?t = ready_queue_head s" "ready_queue_tail ?t = ready_queue_tail s"
      using assms(3) by (simp_all add: process_terminate_def Let_def)
    ultimately show ?thesis by (simp add: ready_def)
  qed
  have pid: "0 < p_pid (procs s cur) \<and> p_pid (procs s cur) < int MAX_PROCESSES \<longrightarrow> process_get_by_pid (p_pid (procs s cur)) ?t = 0"
    by (auto simp: process_get_by_pid_def T Let_def)
  show ?thesis
  proof (cases rq)
    case Nil
    then have "s' = ?t" using ready_head [OF assms(1)] ready_head [of ?t rq] rt assms(1) e by (simp add: scheduler_yield_def Let_def)
    moreover have "cpu_eip ?t = cpu_eip s" "cpu_esp ?t = cpu_esp s" using assms(3) by (simp_all add: process_terminate_def Let_def)
    ultimately show ?thesis using pid assms(1) rt Nil by (simp add: T)
  next
    case (Cons n xs)
    have nc: "cur \<noteq> n" using assms(4) Cons by simp
    let ?u = "?t\<lparr>ticks_remaining := SCHEDULER_QUANTUM\<rparr>"
    have h: "ready_queue_head ?t = n" "n \<noteq> 0" using ready_head [of ?t rq] ready_nz [OF assms(1)] rt assms(1) Cons by auto
    have y: "s' = run_next cur n ?u"
      using e h assms(2,3) T(4) by (simp add: scheduler_yield_def process_get_current_def Let_def)
    have r: "ready ?u (n # xs)" using rt assms(1) Cons by simp
    have "ready s' xs" using run_next_ready [OF r assms(3)] y by (simp add: T rotated_def)
    moreover have "p_exit_code (procs s' cur) = r_ebx regs" "process_table s' = process_table ?t"
      unfolding y run_next_def using nc
      by (simp_all add: requeue_current_def T set_state_def take_head_def Let_def context_switch_def switch_asm_def set_ctx_def pushl_def
          tss_set_kernel_stack_def vmm_switch_directory_def upd_proc_def)
    moreover have "process_get_by_pid i s' = process_get_by_pid i ?t" for i
      using \<open>process_table s' = process_table ?t\<close> by (simp add: process_get_by_pid_def)
    ultimately show ?thesis using pid nc run_next_cpu [OF nc, of ?u] y Cons by (simp add: T)
  qed
qed

theorem sys_exit_switches_witness:
  "\<exists>r s'. sys_exit tick_regs demo_sched = (r, s') \<and> p_state (procs s' 0x1000) = PROCESS_TERMINATED \<and> ready s' [0x3000] \<and>
     cpu_eip s' = 0x100400"
proof -
  obtain r s' where s': "sys_exit tick_regs demo_sched = (r, s')" by (rule prod.exhaust)
  show ?thesis using sys_exit_switches [OF demo_ready demo_fields(1) _ _ s'] s' demo_fields(8) by auto
qed

text \<open>
  C33: \<^verbatim>\<open>mkdir\<close> and \<^verbatim>\<open>open\<close> disagree about paths: \<^verbatim>\<open>mkdir\<close> takes the whole path for a name in the root. Creating \<open>/n\<close> succeeds and enters the name
  \<open>/n\<close>, slash included, and opening the same path then fails, whatever the name \<open>n\<close>.
\<close>

theorem sys_mkdir_open_mismatch:
  assumes "dir_entries s (vfs_root s) es" "dir_node s (vfs_root s)" "has_room 248 s"
    and "cstr_at (mem s) (r_ebx regs) (47 # n)" "outside_heap (r_ebx regs) (of_nat (length n + 2)) s" "r_ebx regs \<noteq> 0"
    and "n \<noteq> []" "47 \<notin> set n" "length n \<le> 126" "map_of es n = None" "map_of es (47 # n) = None"
  shows "\<exists>x s1. sys_mkdir regs s = Some (0, s1) \<and> dir_entries s1 (vfs_root s) ((47 # n, x) # es) \<and>
     sys_open stack regs s1 = Some (- 1, s1)"
proof -
  let ?r = "vfs_root s" and ?p = "47 # n"
  show ?thesis
  proof (rule mkdir_adds [OF assms(1), of ?p "r_ecx regs"], goal_cases)
    case (3 x s1)
    have E: "dir_entries s1 ?r ((?p, x) # es)" using 3(2) assms(9) by simp
    have r: "vfs_root s1 = ?r" "?r \<noteq> 0" using more_vfs(1) [OF 3(11)] assms(2) by (simp_all add: dir_node_def)
    have D: "dir_node s1 ?r" using assms(2) 3(9) by (simp add: dir_node_def)
    have "sys_mkdir regs s = Some (0, s1)"
      using 3(1) r(2) cstring_at [OF assms(4)] dir_node_calls(3) [OF assms(2)] by (simp add: sys_mkdir_def vfs_get_root_def Let_def)
    moreover have "cstring (mem s1) (r_ebx regs) = Some ?p"
      by (rule cstring_at, rule string_kept [OF assms(4) _ _ do_mkdir_kept [OF dir_live(1) [OF assms(1)] 3(1)]])
        (use assms(5,9) in \<open>simp_all add: add.commute\<close>)
    moreover have "vfs_resolve_path stack (Some ?p) s1 = Some 0"
    proof -
      have "components ?p = [n]" using assms(7,8) by (simp add: components_simps components_slash)
      then show ?thesis
        using resolve_components [of ?p s1 stack] r assms(8,9,10) finddir_entries [OF E, of n] dir_node_calls(1) [OF D, of n] by auto
    qed
    ultimately show ?thesis using E assms(6) by (auto simp: sys_open_def path_arg_def)
  qed (use assms(11) room_amalloc [OF assms(3)] in simp_all)
qed

theorem sys_mkdir_open_mismatch_witness:
  "\<exists>s1. sys_mkdir (tick_regs\<lparr>r_ebx := 0x9000\<rparr>) path_vfs = Some (0, s1) \<and>
     sys_open [] (tick_regs\<lparr>r_ebx := 0x9000\<rparr>) s1 = Some (- 1, s1)"
  using sys_mkdir_open_mismatch [OF path_vfs_ok(1-3), of "tick_regs\<lparr>r_ebx := 0x9000\<rparr>" "[97]" "[]"] path_vfs_ok(4,5) by auto

end
