(* ===== verification/Kernel.thy ===== *)
theory Kernel
  imports Syscall
begin

text \<open>
  The entry of the kernel, \<^verbatim>\<open>kernel/kernel_main.c\<close>: the order of initialisation, the self-test of the file system and the
  demonstration processes. Addresses that the linker or the compiler fixes are the fields of an argument. The end of
  \<^verbatim>\<open>kernel_main\<close> is either of its two endless loops, with the state in which it is entered.
\<close>

unbundle bit_operations_syntax

section \<open>Definitions\<close>

record image =
  at_gdt :: u32
  at_tss :: u32
  at_idt :: u32
  at_isr :: "nat \<Rightarrow> u32"
  at_irq :: "nat \<Rightarrow> u32"
  at_heap :: u32
  at_timer_driver :: u32
  at_keyboard_driver :: u32
  at_msg :: u32
  at_buf :: u32
  at_process_a :: u32
  at_process_b :: u32

text \<open>The first rounds of the endless loop of the demonstration processes.\<close>

fun demo_process_a :: "nat \<Rightarrow> 'a ksched_scheme \<Rightarrow> 'a ksched_scheme" where
  "demo_process_a 0 s = s"
| "demo_process_a (Suc n) s = demo_process_a n (scheduler_yield s)"

fun demo_process_b :: "nat \<Rightarrow> 'a ksched_scheme \<Rightarrow> 'a ksched_scheme" where
  "demo_process_b 0 s = s"
| "demo_process_b (Suc n) s = demo_process_b n (scheduler_yield s)"

definition list_line :: "vfs_node_t \<Rightarrow> 'a kcon_scheme \<Rightarrow> 'a kcon_scheme" where
  "list_line child s =
     (let type_str = (if n_type child AND VFS_DIRECTORY \<noteq> 0 then lit ''DIR '' else lit ''FILE'')
      in kprintf (litln ''  %s  %s  (%u bytes)'') [VStr type_str, VStr (n_name child), VInt (n_size child)] s)"

partial_function (option) list_files :: "u32 \<Rightarrow> u32 \<Rightarrow> 'a kvfs_scheme \<Rightarrow> 'a kvfs_scheme option" where
  "list_files root i s =
     do {
       child \<leftarrow> vfs_readdir root i s;
       if child = 0 then Some s else list_files root (i + 1) (list_line (nodes s child) s)
     }"

declare list_files.simps [code]

text \<open>The part of the self-test that writes a file and reads it back.\<close>

definition test_file :: "image \<Rightarrow> u32 \<Rightarrow> 'a kvfs_scheme \<Rightarrow> 'a kvfs_scheme option" where
  "test_file img hello s =
     do {
       len \<leftarrow> strlen (mem s) (at_msg img);
       (_, s1) \<leftarrow> vfs_write hello 0 len (at_msg img) s;
       let s2 = s1\<lparr>mem := memset (mem s1) (at_buf img) 0 64\<rparr>;
       let (nread, s3) = vfs_read hello 0 63 (at_buf img) s2;
       if sint nread > 0
       then do {
         text \<leftarrow> cstring (mem s3) (at_buf img);
         Some (kprintf (lit ''[TEST] Read from hello.txt: %s'') [VStr text] s3)
       }
       else Some s3
     }"

definition test_filesystem :: "image \<Rightarrow> 'a kvfs_scheme \<Rightarrow> 'a kvfs_scheme option" where
  "test_filesystem img s =
     (let root = vfs_get_root s
      in if root = 0 then Some (kprintf (litln ''[TEST] ERROR: No root filesystem'') [] s)
         else do {
           (_, s1) \<leftarrow> vfs_mkdir root (lit ''dev'') 0x1ED s;
           (_, s2) \<leftarrow> vfs_mkdir root (lit ''tmp'') 0x1FF s1;
           (_, s3) \<leftarrow> vfs_mkdir root (lit ''etc'') 0x1ED s2;
           (_, s4) \<leftarrow> vfs_create root (lit ''hello.txt'') VFS_FILE s3;
           hello \<leftarrow> vfs_finddir root (lit ''hello.txt'') s4;
           s5 \<leftarrow> (if hello \<noteq> 0 then test_file img hello s4 else Some s4);
           list_files root 0 (kprintf (litln ''[TEST] Filesystem contents:'') [] s5)
         })"

datatype 's boot = Stopped 's | Idle 's

abbreviation (input) MULTIBOOT_BOOTLOADER_MAGIC :: u32 where "MULTIBOOT_BOOTLOADER_MAGIC \<equiv> 0x2BADB002"
abbreviation (input) TIMER_HZ :: u32 where "TIMER_HZ \<equiv> 100"

abbreviation (input) say :: "string \<Rightarrow> 'a kcon_scheme \<Rightarrow> 'a kcon_scheme" where
  "say t s \<equiv> kprintf (litln t) [] s"

definition boot_banner :: "'a kcon_scheme \<Rightarrow> 'a kcon_scheme" where
  "boot_banner s =
     kprintf (litln ''========================================'' @ [10]) []
       (say ''  x86 Operating System Kernel'' (say ''  NexusKernel v0.1.0'' (say ''========================================'' s)))"

text \<open>Up to the mounting of the root file system.\<close>

definition boot_devices :: "image \<Rightarrow> multiboot_info_t \<Rightarrow> 'a kvfs_scheme \<Rightarrow> 'a kvfs_scheme option" where
  "boot_devices img mbi s =
     (let s1 = gdt_init (at_gdt img) (at_tss img) (say ''[BOOT] Initializing GDT...'' s);
          s2 = idt_init (at_idt img) (at_isr img) (at_irq img) (say ''[BOOT] Initializing IDT...'' s1)
      in do {
        s3 \<leftarrow> pmm_init mbi (say ''[BOOT] Initializing physical memory manager...'' s2);
        let s4 = kheap_init (at_heap img) (say ''[BOOT] Initializing kernel heap...'' s3);
        let s5 = driver_manager_init (say ''[BOOT] Initializing driver manager...'' s4);
        s6 \<leftarrow> timer_init (at_timer_driver img) TIMER_HZ (say ''[BOOT] Initializing timer...'' s5);
        keyboard_init (at_keyboard_driver img) (say ''[BOOT] Initializing keyboard...'' s6)
      })"

definition boot_files :: "'a kvfs_scheme \<Rightarrow> 'a kvfs_scheme option" where
  "boot_files s =
     do {
       (ramfs_root, s1) \<leftarrow> ramfs_init (vfs_init (say ''[BOOT] Initializing VFS...'' s));
       if ramfs_root \<noteq> 0
       then do {
         (_, s2) \<leftarrow> vfs_mount (Some (lit ''/'')) (Some (lit ''ramfs'')) ramfs_root s1;
         Some s2
       }
       else Some s1
     }"

definition boot_processes :: "image \<Rightarrow> 'a kvfs_scheme \<Rightarrow> 'a kvfs_scheme option" where
  "boot_processes img s =
     do {
       (proc_a, s1) \<leftarrow> process_create (lit ''worker_a'') (at_process_a img) 1 s;
       (proc_b, s2) \<leftarrow> process_create (lit ''worker_b'') (at_process_b img) 1 s1;
       let s3 = (if proc_a \<noteq> 0 then scheduler_add proc_a s2 else s2);
       Some (if proc_b \<noteq> 0 then scheduler_add proc_b s3 else s3)
     }"

definition kernel_main :: "image \<Rightarrow> u32 \<Rightarrow> multiboot_info_t \<Rightarrow> 'a kvfs_scheme \<Rightarrow> 'a kvfs_scheme boot option" where
  "kernel_main img magic mbi s =
     (let s1 = boot_banner s
      in if magic \<noteq> MULTIBOOT_BOOTLOADER_MAGIC
         then Some (Stopped (cli (kprintf (litln ''Expected: %x'') [VInt MULTIBOOT_BOOTLOADER_MAGIC]
                (kprintf (litln ''ERROR: Invalid multiboot magic: %x'') [VInt magic] s1))))
         else do {
           s2 \<leftarrow> boot_devices img mbi (kprintf (litln ''[BOOT] Multiboot verified (magic=%x)'') [VInt magic] s1);
           s3 \<leftarrow> boot_files s2;
           s4 \<leftarrow> process_init (say ''[BOOT] Initializing process manager...'' s3);
           let s5 = scheduler_init (say ''[BOOT] Initializing scheduler...'' s4);
           let s6 = syscall_init (say ''[BOOT] Initializing system calls...'' s5);
           s7 \<leftarrow> test_filesystem img (kprintf (10 # litln ''[BOOT] Running filesystem self-test...'') [] s6);
           s8 \<leftarrow> boot_processes img s7;
           s9 \<leftarrow> driver_list_all (kprintf [10] [] s8);
           let s10 = sti (kprintf (10 # litln ''[BOOT] Enabling interrupts...'') [] s9);
           let s11 = say ''[BOOT] NexusKernel is running!'' s10;
           let s12 = kprintf (litln ''[BOOT] Memory: %u total frames, %u free'')
             [VInt (pmm_get_total_frames s11), VInt (pmm_get_free_frames s11)] s11;
           Some (Idle (kprintf [10] [] s12))
         })"

text \<open>The idle loop: each interrupt that arrives ends one \<^verbatim>\<open>hlt\<close>.\<close>

definition kernel_idle :: "irq list \<Rightarrow> 'a kvfs_scheme \<Rightarrow> 'a kvfs_scheme" where
  "kernel_idle irqs s = fold deliver irqs s"

section \<open>What file operations leave alone\<close>

text \<open>The part of the state that belongs to the frames, the interrupts, the processes and the drivers.\<close>

definition core :: "'a kdrv_scheme \<Rightarrow> _" where
  "core s = (frame_bitmap s, total_frames s, kernel_directory s, cr0 s, isr_handlers s, current_process s, process_table s,
     next_pid s, ready_queue_head s, ready_queue_tail s, drivers s, driver_list s, driver_count s)"

lemma core_simps [simp]:
  "core (kprintf f a s) = core s" "core (s\<lparr>mem := m\<rparr>) = core s" "core (s'\<lparr>next_inode := i\<rparr>) = core s'"
  "core (upd_node p g s') = core s'" "core (upd_file q h s') = core s'" "core (s'\<lparr>nodes := ns\<rparr>) = core s'"
  by (simp_all add: core_def upd_node_def upd_file_def)

lemma kmalloc_core:
  assumes "kmalloc n s = Some (a, s')"
  shows "core s' = core s"
  using assms by (rule kmalloc_state) simp_all

lemma kfree_core [simp]: "core (kfree p s) = core s"
  by (simp add: kfree_def Let_def core_def)

lemma create_node_core: "ramfs_create_node name ty s = Some (x, s') \<Longrightarrow> core s' = core s"
  unfolding ramfs_create_node_def by (auto simp: Let_def split: Option.bind_splits if_splits dest!: kmalloc_core)

lemma do_create_core: "ramfs_do_create d name ty s = Some (r, s') \<Longrightarrow> core s' = core s"
  unfolding ramfs_do_create_def by (auto simp: Let_def split: Option.bind_splits if_splits dest!: create_node_core)

lemma do_mkdir_core: "ramfs_do_mkdir d name mode s = Some (r, s') \<Longrightarrow> core s' = core s"
  unfolding ramfs_do_mkdir_def by (auto simp: Let_def split: Option.bind_splits if_splits dest!: create_node_core)

lemma more_simps [simp]:
  "kfs.more (kfree p s) = kfs.more s" "kfs.more (upd_node q g s) = kfs.more s" "kfs.more (upd_file q h s) = kfs.more s"
  using more_fs(4) [of "kfree p s" s] by (simp_all add: upd_node_def upd_file_def)

lemma kmalloc_core_more: "kmalloc n s = Some (a, s') \<Longrightarrow> core s' = core s \<and> kfs.more s' = kfs.more s"
  using kmalloc_core kmalloc_fs by blast

lemma ramfs_grow_core: "ramfs_grow p n s = Some (b, s') \<Longrightarrow> core s' = core s \<and> kfs.more s' = kfs.more s"
  unfolding ramfs_grow_def
  by (auto simp: Let_def split: Option.bind_splits if_splits dest!: kmalloc_core_more)

lemma ramfs_store_core: "ramfs_store x ofs sz buf n s = (r, s') \<Longrightarrow> core s' = core s \<and> kfs.more s' = kfs.more s"
  by (auto simp: ramfs_store_def Let_def split: if_splits)

lemma ramfs_write_core: "ramfs_write x ofs sz buf s = Some (r, s') \<Longrightarrow> core s' = core s \<and> kfs.more s' = kfs.more s"
  unfolding ramfs_write_def
  by (auto simp: Let_def split: Option.bind_splits if_splits dest!: ramfs_grow_core ramfs_store_core)

section \<open>The self-test\<close>

definition hello_msg :: "u8 list" where
  "hello_msg = litln ''Hello from NexusKernel!''"

lemma hello_msg: "length hello_msg = 24" "0 \<notin> set hello_msg"
  by (simp_all add: hello_msg_def litln_def lit_def)

text \<open>The message is in memory outside the heap, as is the buffer of the self-test.\<close>

definition msg_ready :: "image \<Rightarrow> 'a kheap_scheme \<Rightarrow> bool" where
  "msg_ready img s \<longleftrightarrow> cstr_at (mem s) (at_msg img) hello_msg \<and> outside_heap (at_msg img) 25 s \<and> outside_heap (at_buf img) 64 s \<and>
     at_msg img \<noteq> 0 \<and> at_buf img \<noteq> 0"

lemma msg_ready_outside:
  assumes r: "msg_ready img s" and e: "heap_start s' = heap_start s"
    and m: "\<And>k. k < 2 ^ 32 \<Longrightarrow> k < unat (heap_start s) \<or> heap_end s \<le> k \<Longrightarrow> mem s' (of_nat k) = mem s (of_nat k)"
  shows "msg_ready img s'"
proof -
  have "cstr_at (mem s') (at_msg img) hello_msg"
  proof (rule cstr_at_cong)
    show "cstr_at (mem s) (at_msg img) hello_msg" using r by (simp add: msg_ready_def)
    fix i assume "i \<le> length hello_msg"
    then show "mem s' (at_msg img + of_nat i) = mem s (at_msg img + of_nat i)"
      using r m [of "unat (at_msg img) + i"] hello_msg(1) by (auto simp: msg_ready_def outside_heap_def)
  qed
  then show ?thesis using r e by (simp add: msg_ready_def outside_heap_def heap_end_def)
qed

lemma msg_ready_keep:
  assumes "msg_ready img s" "heap_start s' = heap_start s" "\<And>k. k \<in> kept s \<Longrightarrow> mem s' (of_nat k) = mem s (of_nat k)"
  shows "msg_ready img s'"
  using assms(1,2) by (rule msg_ready_outside) (rule assms(3), simp add: kept_def)

lemma do_create_kept:
  assumes "heap_ok s" "ramfs_do_create d name ty s = Some (r, s')" "k \<in> kept s"
  shows "mem s' (of_nat k) = mem s (of_nat k)"
  using assms(2) create_node_kept [OF assms(1) _ assms(3), of name ty]
  by (auto simp: ramfs_do_create_def Let_def split: if_splits Option.bind_splits)

definition fs_state :: "image \<Rightarrow> u32 \<Rightarrow> (u8 list \<times> u32) list \<Rightarrow> nat \<Rightarrow> 'a kvfs_scheme \<Rightarrow> bool" where
  "fs_state img r es N s \<longleftrightarrow> dir_entries s r es \<and> dir_node s r \<and> has_room N s \<and> msg_ready img s \<and> vfs_root s = r"

lemma mkdir_step:
  assumes f: "fs_state img r es (N + 232) s" and n: "map_of es name = None" "length name \<le> 127" "16 \<le> N"
  obtains x s' where "vfs_mkdir r name mode s = Some (0, s')" "fs_state img r ((name, x) # es) N s'" "core s' = core s"
proof -
  note F = f [unfolded fs_state_def]
  have room: "has_room (N + 232) s" using F by blast
  show thesis
  proof (rule mkdir_adds [of s r es name mode], goal_cases)
    case (4 x s')
    have "fs_state img r ((name, x) # es) N s'"
      unfolding fs_state_def
    proof (intro conjI)
      show "dir_entries s' r ((name, x) # es)" using 4(2) n(2) by simp
      show "dir_node s' r" using F 4(9) by (simp add: dir_node_def)
      show "has_room N s'" by (rule 4(13) [OF n(3) room])
      show "msg_ready img s'"
        by (rule msg_ready_keep [OF _ 4(12) do_mkdir_kept [OF dir_live(1) 4(1)]]) (use F in blast)+
      show "vfs_root s' = r" using more_vfs(1) [OF 4(11)] F by simp
    qed
    moreover have "vfs_mkdir r name mode s = Some (0, s')" using 4(1) dir_node_calls(3) F by metis
    ultimately show thesis using that do_mkdir_core [OF 4(1)] by blast
  qed (use F n(1) room_amalloc [OF room] in simp_all)
qed

lemma create_step:
  assumes f: "fs_state img r es (N + 232) s" and n: "map_of es name = None" "length name \<le> 127" "16 \<le> N"
  obtains x s' where "vfs_create r name VFS_FILE s = Some (0, s')" "fs_state img r ((name, x) # es) N s'" "core s' = core s"
    "n_private_data (nodes s' x) \<noteq> 0" "files s' (n_private_data (nodes s' x)) = empty_file" "n_ops (nodes s' x) = Some ramfs_ops"
proof -
  note F = f [unfolded fs_state_def]
  have room: "has_room (N + 232) s" using F by blast
  show thesis
  proof (rule create_adds [of s r es name VFS_FILE], goal_cases)
    case (4 x s')
    have "fs_state img r ((name, x) # es) N s'"
      unfolding fs_state_def
    proof (intro conjI)
      show "dir_entries s' r ((name, x) # es)" using 4(2) n(2) by simp
      show "dir_node s' r" using F 4(9) by (simp add: dir_node_def)
      show "has_room N s'" by (rule 4(13) [OF n(3) room])
      show "msg_ready img s'"
        by (rule msg_ready_keep [OF _ 4(12) do_create_kept [OF dir_live(1) 4(1)]]) (use F in blast)+
      show "vfs_root s' = r" using more_vfs(1) [OF 4(11)] F by simp
    qed
    moreover have p: "n_private_data (nodes s' x) \<noteq> 0" using 4(14) [OF n(3) room] by simp
    moreover have "vfs_create r name VFS_FILE s = Some (0, s')" using 4(1) dir_node_calls(2) F by metis
    ultimately show thesis using that do_create_core [OF 4(1)] 4(15) [OF p] 4(7) by blast
  qed (use F n(1) room_amalloc [OF room] in simp_all)
qed

lemma cstr_atI:
  "0 \<notin> set t \<Longrightarrow> (\<And>i. i < length t \<Longrightarrow> m (p + of_nat i) = t ! i) \<Longrightarrow> m (p + of_nat (length t)) = 0 \<Longrightarrow> cstr_at m p t"
proof (induction t arbitrary: p)
  case (Cons c t)
  have "cstr_at m (p + 1) t"
  proof (rule Cons.IH)
    show "m (p + 1 + of_nat i) = t ! i" if "i < length t" for i using Cons.prems(2) [of "Suc i"] that by (simp add: add.assoc)
    show "m (p + 1 + of_nat (length t)) = 0" using Cons.prems(3) by (simp add: add.assoc)
  qed (use Cons.prems(1) in simp)
  then show ?case using Cons.prems(1) Cons.prems(2) [of 0] by simp
qed simp

lemma file_ok_cong: "files s' = files s \<Longrightarrow> heap_live s' = heap_live s \<Longrightarrow> file_ok s' p = file_ok s p"
proof -
  assume e: "files s' = files s" "heap_live s' = heap_live s"
  then have "data_block s' p = data_block s p" by (intro ext) (simp add: data_block_def)
  then show ?thesis by (simp add: file_ok_def e)
qed

text \<open>A store outside the heap concerns no directory and no file.\<close>

lemma outside_store:
  assumes d: "dir_entries s r es" and m: "\<forall>k. unat (heap_start s) \<le> k \<and> k < heap_end s \<longrightarrow> m (of_nat k) = mem s (of_nat k)"
  defines "s' \<equiv> s\<lparr>mem := m\<rparr>"
  shows "dir_entries s' r es" "heap_ok s'" "heap_live s' = heap_live s" "file_ok s p \<Longrightarrow> file_ok s' p"
    "file_ok s p \<Longrightarrow> contents s' p = contents s p"
proof -
  note ok = dir_live(1) [OF d]
  have keep: "mem s' (of_nat k) = mem s (of_nat k)" if "unat (heap_start s) \<le> k" "k < heap_end s" for k
    using m that by (simp add: s'_def)
  have H: "heap_ok s'" "heap_live s' = heap_live s" by (rule heap_ok_agree(1,3) [OF ok _ _ keep]; simp add: s'_def)+
  then show "heap_ok s'" "heap_live s' = heap_live s" by simp_all
  show "dir_entries s' r es" by (rule dir_entries_same [OF d _ _ H]) (simp_all add: s'_def)
  show "file_ok s' p" if "file_ok s p" using that H(2) unfolding file_ok_def data_block_def by (simp add: s'_def)
  show "contents s' p = contents s p" if f: "file_ok s p"
  proof (rule contents_keep [OF f])
    fix k assume "k \<in> payload (heap_live s)"
    then have "unat (heap_start s) \<le> k" "k < heap_end s"
      using payload_range [of "unat (heap_start s)" "blocks_of s"] heap_okD(6) [OF ok] by (auto simp: heap_live_def heap_end_def)
    then show "mem s' (of_nat k) = mem s (of_nat k)" by (rule keep)
  qed (simp add: s'_def)
qed

lemma memset_outside:
  assumes "outside_heap buf n s" "unat (heap_start s) \<le> k" "k < heap_end s" "heap_end s < 2 ^ 32"
  shows "memset m buf v n (of_nat k) = m (of_nat k)"
proof -
  have "unat (of_nat k :: u32) = k" using assms(3,4) by (intro unat_of_nat32) simp
  then have "\<not> of_nat k - buf < n"
    using assms by (auto simp: outside_heap_def word_less_nat_alt unat_sub_if')
  then show ?thesis by (simp add: memset_apply)
qed

lemma buffer_msg:
  assumes "cstr_at (mem s) p t" "length t < 2 ^ 32"
  shows "buffer_bytes p (of_nat (length t)) s = t"
proof (rule nth_equalityI)
  have l: "unat (of_nat (length t) :: u32) = length t" by (rule unat_of_nat32 [OF assms(2)])
  then show "length (buffer_bytes p (of_nat (length t)) s) = length t" by (simp add: buffer_bytes_def)
  fix i assume "i < length (buffer_bytes p (of_nat (length t)) s)"
  then have i: "i < length t" using l by (simp add: buffer_bytes_def)
  then show "buffer_bytes p (of_nat (length t)) s ! i = t ! i" using l cstr_at_nth [OF assms(1) i] by (simp add: buffer_bytes_def)
qed

lemma test_file_works:
  assumes f: "fs_state img r es 100 s" and x: "x \<in> snd ` set es" "n_private_data (nodes s x) = p" "p \<noteq> 0"
    "files s p = empty_file" "n_ops (nodes s x) = Some ramfs_ops"
  obtains s' where "test_file img x s = Some s'" "dir_entries s' r es" "dir_node s' r" "vfs_root s' = r" "core s' = core s"
    "n_private_data (nodes s' x) = p" "contents s' p = hello_msg" "file_ok s' p"
proof -
  note F = f [unfolded fs_state_def]
  have M: "cstr_at (mem s) (at_msg img) hello_msg" "outside_heap (at_msg img) 24 s" "outside_heap (at_buf img) 64 s"
    "at_msg img \<noteq> 0" "at_buf img \<noteq> 0" using F by (auto simp: msg_ready_def outside_heap_def)
  have E: "dir_entries s r es" using F by blast
  have x0: "x \<noteq> 0" using x(1) E by (auto simp: entries_def elim!: dir_entriesE dest: dir_nodesD(8))
  have len: "strlen (mem s) (at_msg img) = Some 24" using strlen_cstr [OF M(1)] hello_msg(1) by simp
  have fok: "file_ok s p" "contents s p = []" "f_size (files s p) = 0" using x(4) by (simp_all add: file_ok_def contents_def empty_file_def)
  have gc: "unat (round8 (grown_cap 24)) = 48" by (simp add: unat_round8 grown_cap_def)
  have cw: "can_write p 0 24 s" using room_amalloc [of 100 s 48] F by (simp add: can_write_def gc)
  obtain s1 where w: "ramfs_write x 0 24 (at_msg img) s = Some (24, s1)" "dir_entries s1 r es" "file_ok s1 p"
    "contents s1 p = overwrite (unat 0) (buffer_bytes (at_msg img) 24 s) (contents s p)" "heap_start s1 = heap_start s"
    "nodes s1 = (nodes s)(x := (nodes s x)\<lparr>n_size := f_size (files s1 p)\<rparr>)"
    by (rule write_keeps_dir [OF E x(1) x(2) [symmetric] x(3) fok(1) M(4) _ M(2) _ cw]) (use fok(3) in simp_all)
  have c1: "contents s1 p = hello_msg" using w(4) fok(2) buffer_msg [OF M(1)] hello_msg(1) by (simp add: overwrite_def)
  note k1 = ramfs_write_core [OF w(1)]
  let ?b = "at_buf img"
  have out1: "outside_heap ?b 64 s1" "outside_heap ?b 63 s1" using M(3) w(5) by (auto simp: outside_heap_def heap_end_def)
  define s2 where "s2 = s1\<lparr>mem := memset (mem s1) ?b 0 64\<rparr>"
  have h1: "heap_end s1 < 2 ^ 32" using heap_okD(8) [OF dir_live(1) [OF w(2)]] .
  have mo: "\<forall>k. unat (heap_start s1) \<le> k \<and> k < heap_end s1 \<longrightarrow> memset (mem s1) ?b 0 64 (of_nat k) = mem s1 (of_nat k)"
    using memset_outside [OF out1(1) _ _ h1] by blast
  note O = outside_store [OF w(2) mo, folded s2_def]
  obtain rd s3 where rd: "ramfs_read x 0 63 ?b s2 = (rd, s3)" by (rule prod.exhaust)
  have p2: "p = n_private_data (nodes s2 x)" using x(2) by (simp add: s2_def w(6))
  have out2: "outside_heap ?b 63 s2" using out1(2) by (simp add: outside_heap_def heap_end_def s2_def)
  note R = ramfs_read_works [OF O(2) O(4) [OF w(3)] p2 x(3) M(5) out2 rd]
  have c2: "contents s2 p = hello_msg" using O(5) [OF w(3)] c1 by simp
  have sz: "unat (f_size (files s2 p)) = 24" using c2 hello_msg(1) length_contents [of s2 p] by simp
  have rd24: "rd = 24" using R(1) sz by (simp add: word_unat_eq_iff)
  have "cstr_at (mem s3) ?b hello_msg"
  proof (rule cstr_atI [OF hello_msg(2)])
    have bb: "buffer_bytes ?b 24 s3 = hello_msg" using R(2) c2 rd24 hello_msg(1) by simp
    fix i assume i: "i < length hello_msg"
    then show "mem s3 (?b + of_nat i) = hello_msg ! i" using arg_cong [OF bb, of "\<lambda>t. t ! i"] hello_msg(1) by (simp add: buffer_bytes_def)
  next
    have "unat ?b + 24 < 2 ^ 32" using out1(1) by (auto simp: outside_heap_def)
    then have "mem s3 (of_nat (unat ?b + 24)) = mem s2 (of_nat (unat ?b + 24))" using R(8) [of "unat ?b + 24"] rd24 by simp
    then show "mem s3 (?b + of_nat (length hello_msg)) = 0" by (simp add: s2_def memset_apply hello_msg(1))
  qed
  then have cs: "cstring (mem s3) ?b = Some hello_msg" by (rule cstring_at)
  let ?s4 = "kprintf (lit ''[TEST] Read from hello.txt: %s'') [VStr hello_msg] s3"
  have ops: "node_op vop_write x s = Some Ramfs_write" "node_op vop_read x s2 = Some Ramfs_read"
    using x(5) x0 by (simp_all add: node_op_def ramfs_ops_def s2_def w(6))
  have "sint (24 :: u32) > 0" by simp
  then have e: "test_file img x s = Some ?s4"
    using len w(1) rd rd24 cs ops unfolding test_file_def vfs_write_def vfs_read_def s2_def by simp
  have n3: "nodes s3 = nodes s2" "files s3 = files s2" "nodes s2 = nodes s1" "files s2 = files s1" using R(5,6) by (simp_all add: s2_def)
  have E3: "dir_entries s3 r es" by (rule dir_entries_same [OF O(1) R(5,6,3,7)])
  have E4: "dir_entries ?s4 r es" by (rule dir_entries_same [OF E3]) (use R(3) in simp_all)
  have s3m: "core s3 = core s2 \<and> kfs.more s3 = kfs.more s2"
    using rd by (auto simp: ramfs_read_def Let_def split: if_splits)
  have "dir_node s1 r" using F w(6) by (auto simp: dir_node_def)
  then have D4: "dir_node ?s4 r" by (simp add: dir_node_def n3)
  have V4: "vfs_root ?s4 = r" using more_vfs(1) [of s3 s2] more_vfs(1) [of s1 s] s3m k1 F by (simp add: s2_def)
  have C4: "core ?s4 = core s" using s3m k1 by (simp add: s2_def)
  have P4: "n_private_data (nodes ?s4 x) = p" using p2 n3 by simp
  have "contents ?s4 p = hello_msg" using R(4) c2 by (simp add: contents_def)
  moreover have "file_ok ?s4 p" using O(4) [OF w(3)] file_ok_cong [of ?s4 s2] n3 R(7) by simp
  ultimately show thesis by (rule that [OF e E4 D4 V4 C4 P4])
qed

text \<open>The listing visits each entry of the directory once, in order.\<close>

lemma list_line_fs [simp]:
  "nodes (list_line c s) = nodes s" "files (list_line c s) = files s" "heap_ok (list_line c s) = heap_ok s"
  "heap_live (list_line c s) = heap_live s" "core (list_line c s) = core s" "vfs_root (list_line c s') = vfs_root s'"
  "contents (list_line c s) p = contents s p"
  by (simp_all add: list_line_def Let_def contents_def)

lemma readdir_nth:
  assumes "dir_entries s r es" "dir_node s r" "length es < 2 ^ 32" "i \<le> length es"
  shows "vfs_readdir r (of_nat i) s = Some (if i < length es then snd (es ! i) else 0)"
proof -
  have i: "unat (of_nat i :: u32) = i" using assms(3,4) by (intro unat_of_nat32) simp
  obtain xs where xs: "dir_nodes s r xs" "map snd es = xs" using assms(1) by (auto simp: dir_entries_def)
  have "lpath (siblings s) (n_children (nodes s r)) xs" "r \<noteq> 0" "n_type (nodes s r) AND VFS_DIRECTORY \<noteq> 0"
    using xs(1) assms(2) by (auto simp: dir_nodes_def dir_node_def)
  then show ?thesis
    using readdir_walk_nth [of s "n_children (nodes s r)" xs 0 "of_nat i"] assms(3,4) xs(2) i
    by (auto simp: dir_node_calls(5) [OF assms(2)] ramfs_readdir_def)
qed

lemma list_files_ends:
  assumes "dir_entries s r es" "dir_node s r" "length es < 2 ^ 32" "i \<le> length es"
  shows "list_files r (of_nat i) s = Some (fold (\<lambda>e t. list_line (nodes t (snd e)) t) (drop i es) s)"
  using assms
proof (induction "length es - i" arbitrary: i s)
  case 0
  then show ?case using readdir_nth [OF 0(2-5)] by (subst list_files.simps) simp
next
  case (Suc n)
  then have i: "i < length es" by simp
  define c where "c = snd (es ! i)"
  have nz: "c \<noteq> 0" using i Suc.prems(1) dir_nodesD(8) nth_mem [OF i] unfolding c_def dir_entries_def by (metis list.set_map image_eqI)
  have e: "vfs_readdir r (of_nat i) s = Some c" using readdir_nth [OF Suc.prems] i by (simp add: c_def)
  let ?t = "list_line (nodes s c) s"
  have "dir_entries ?t r es" by (rule dir_entries_same [OF Suc.prems(1)]) (use dir_live [OF Suc.prems(1)] in simp_all)
  moreover have "dir_node ?t r" using Suc.prems(2) by (simp add: dir_node_def)
  ultimately have "list_files r (of_nat (Suc i)) ?t = Some (fold (\<lambda>e t. list_line (nodes t (snd e)) t) (drop (Suc i) es) ?t)"
    using Suc.hyps(1) [of "Suc i" ?t] Suc.hyps(2) i Suc.prems(3) by simp
  then show ?case using e nz Cons_nth_drop_Suc [OF i, symmetric] by (subst list_files.simps) (simp add: c_def add.commute)
qed

lemma list_fold_fs:
  fixes s :: "'a kvfs_scheme" and es :: "(u8 list \<times> u32) list"
  defines "s' \<equiv> fold (\<lambda>e t. list_line (nodes t (snd e)) t) es s"
  shows "nodes s' = nodes s" "files s' = files s" "heap_ok s' = heap_ok s" "heap_live s' = heap_live s" "core s' = core s"
    "vfs_root s' = vfs_root s" "contents s' p = contents s p"
  unfolding s'_def by (induction es arbitrary: s) simp_all

abbreviation (input) hello_name :: "u8 list" where "hello_name \<equiv> lit ''hello.txt''"

lemma test_filesystem_works:
  assumes f: "fs_state img r [] 1100 s"
  obtains x e m d s' where "test_filesystem img s = Some s'"
    "dir_entries s' r [(hello_name, x), (lit ''etc'', e), (lit ''tmp'', m), (lit ''dev'', d)]"
    "contents s' (n_private_data (nodes s' x)) = hello_msg" "file_ok s' (n_private_data (nodes s' x))" "vfs_root s' = r" "core s' = core s"
proof -
  have r: "r \<noteq> 0" "vfs_get_root s = r" using f by (simp_all add: fs_state_def dir_node_def vfs_get_root_def)
  have N: "(1100 :: nat) = 868 + 232" "(868 :: nat) = 636 + 232" "(636 :: nat) = 404 + 232" "(404 :: nat) = 172 + 232" by simp_all
  obtain d s1 where 1: "vfs_mkdir r (lit ''dev'') 0x1ED s = Some (0, s1)" "fs_state img r [(lit ''dev'', d)] 868 s1" "core s1 = core s"
    by (rule mkdir_step [OF f [unfolded N(1)], of "lit ''dev''" "0x1ED"]) (simp_all add: lit_def)
  obtain m s2 where 2: "vfs_mkdir r (lit ''tmp'') 0x1FF s1 = Some (0, s2)"
    "fs_state img r [(lit ''tmp'', m), (lit ''dev'', d)] 636 s2" "core s2 = core s1"
    by (rule mkdir_step [OF 1(2) [unfolded N(2)], of "lit ''tmp''" "0x1FF"]) (simp_all add: lit_def)
  obtain e s3 where 3: "vfs_mkdir r (lit ''etc'') 0x1ED s2 = Some (0, s3)"
    "fs_state img r [(lit ''etc'', e), (lit ''tmp'', m), (lit ''dev'', d)] 404 s3" "core s3 = core s2"
    by (rule mkdir_step [OF 2(2) [unfolded N(3)], of "lit ''etc''" "0x1ED"]) (simp_all add: lit_def)
  let ?es = "\<lambda>x. [(hello_name, x), (lit ''etc'', e), (lit ''tmp'', m), (lit ''dev'', d)]"
  obtain x s4 where 4: "vfs_create r hello_name VFS_FILE s3 = Some (0, s4)" "fs_state img r (?es x) 172 s4" "core s4 = core s3"
    "n_private_data (nodes s4 x) \<noteq> 0" "files s4 (n_private_data (nodes s4 x)) = empty_file" "n_ops (nodes s4 x) = Some ramfs_ops"
    by (rule create_step [OF 3(2) [unfolded N(4)], of hello_name]) (simp_all add: lit_def)
  have f4: "fs_state img r (?es x) 100 s4" using 4(2) room_mono [of 172 s4 100] by (simp add: fs_state_def)
  have D4: "dir_entries s4 r (?es x)" "dir_node s4 r" using f4 by (simp_all add: fs_state_def)
  have fd: "vfs_finddir r hello_name s4 = Some x"
    using ram_dir.lookup_entry [OF D4(1), of hello_name] dir_node_calls(1) [OF D4(2)] by simp
  have x0: "x \<noteq> 0" using D4(1) dir_nodesD(8) [of s4 r "map snd (?es x)"] by (auto simp: dir_entries_def)
  obtain s5 where 5: "test_file img x s4 = Some s5" "dir_entries s5 r (?es x)" "dir_node s5 r" "vfs_root s5 = r" "core s5 = core s4"
    "n_private_data (nodes s5 x) = n_private_data (nodes s4 x)" "contents s5 (n_private_data (nodes s4 x)) = hello_msg"
    "file_ok s5 (n_private_data (nodes s4 x))"
    by (rule test_file_works [OF f4 _ refl 4(4,5,6)]) simp_all
  let ?s6 = "kprintf (litln ''[TEST] Filesystem contents:'') [] s5"
  have D6: "dir_entries ?s6 r (?es x)" by (rule dir_entries_same [OF 5(2)]) (use dir_live [OF 5(2)] in simp_all)
  have n6: "dir_node ?s6 r" using 5(3) by (simp add: dir_node_def)
  let ?s7 = "fold (\<lambda>e t. list_line (nodes t (snd e)) t) (?es x) ?s6"
  note L = list_fold_fs [of "?es x" ?s6]
  have "test_filesystem img s = Some ?s7"
    using r 1(1) 2(1) 3(1) 4(1) fd x0 5(1) list_files_ends [OF D6 n6, of 0] unfolding test_filesystem_def Let_def
    by (simp del: fold.simps)
  moreover have "dir_entries ?s7 r (?es x)" by (rule dir_entries_same [OF D6 L(1,2) _ L(4)]) (use L(3) dir_live [OF D6] in simp)
  moreover have "contents ?s7 (n_private_data (nodes ?s7 x)) = hello_msg"
    using 5(6,7) unfolding L(1,7) by (simp add: contents_def)
  moreover have "file_ok ?s7 (n_private_data (nodes ?s7 x))"
    using 5(6,8) file_ok_cong [of ?s7 s5] L(1,2,4) by simp
  moreover have "vfs_root ?s7 = r" "core ?s7 = core s" using 1(3) 2(3) 3(3) 4(3) 5(4,5) unfolding L(5,6) by simp_all
  ultimately show thesis by (rule that)
qed

section \<open>Booting\<close>

text \<open>States that agree on the file system and on what the heap holds.\<close>

definition same_fs :: "'a kvfs_scheme \<Rightarrow> 'a kvfs_scheme \<Rightarrow> bool" where
  "same_fs s s' \<longleftrightarrow> nodes s' = nodes s \<and> files s' = files s \<and> vfs_root s' = vfs_root s \<and> heap_ok s' \<and> heap_live s' = heap_live s \<and>
     blocks_of s' = blocks_of s \<and> heap_start s' = heap_start s \<and> (\<forall>k \<in> kept s. mem s' (of_nat k) = mem s (of_nat k))"

lemma same_fs_trans: "same_fs s t \<Longrightarrow> same_fs t u \<Longrightarrow> same_fs s u"
  by (simp add: same_fs_def kept_def heap_end_def)

lemma same_fs_fields:
  assumes "heap_ok s" "mem s' = mem s" "heap_start s' = heap_start s" "heap_initialized s' = heap_initialized s"
    "nodes s' = nodes s" "files s' = files s" "vfs_root s' = vfs_root s"
  shows "same_fs s s'"
  using heap_ok_agree [OF assms(1,3,4)] assms by (simp add: same_fs_def)

lemma same_fs_keeps:
  assumes e: "same_fs s s'"
  shows "fs_state img r es N s \<Longrightarrow> fs_state img r es N s'" "dir_entries s r es \<Longrightarrow> dir_entries s' r es"
    "file_ok s p \<Longrightarrow> file_ok s' p" "file_ok s p \<Longrightarrow> contents s' p = contents s p"
proof -
  note E = e [unfolded same_fs_def]
  show D: "dir_entries s' r es" if "dir_entries s r es" for r es by (rule dir_entries_same [OF that]) (use E in simp_all)
  show "file_ok s' p" if "file_ok s p" using that E file_ok_cong by blast
  show "contents s' p = contents s p" if "file_ok s p"
    by (rule contents_keep [OF that]) (use E in \<open>auto simp: kept_def\<close>)
  assume f: "fs_state img r es N s"
  have "msg_ready img s'" by (rule msg_ready_keep [of img s]) (use f E in \<open>simp_all add: fs_state_def\<close>)
  then show "fs_state img r es N s'" using f E D by (simp add: fs_state_def dir_node_def has_room_def)
qed

text \<open>When every frame is marked used no process can be created, and the attempt leaves the heap as it was.\<close>

lemma alloc_no_frame:
  assumes "frame_bitmap s = (\<lambda>_. 0xFF)"
  shows "pmm_alloc_frame s = (0, kprintf (litln ''[PMM] ERROR: Out of physical memory!'') [] s)"
proof -
  have "bitmap_test i s" for i by (simp only: bitmap_test_bit assms bit_0xFF [OF unat_mod8])
  then have "bitmap_find_free s = - 1" by (simp add: bitmap_find_free_eq find_None_iff split: option.splits) (simp add: find_Some_iff)
  then show ?thesis by (simp add: pmm_alloc_frame_def)
qed

lemma core_upd_proc [simp]: "core (upd_proc p f s) = core s"
  by (simp add: core_def upd_proc_def)

lemma core_next_pid:
  assumes "core s' = core s"
  shows "next_pid s' = next_pid s" "core (s'\<lparr>next_pid := n\<rparr>) = core (s\<lparr>next_pid := n\<rparr>)"
  using assms by (simp_all add: core_def)

lemma more_drv: "kheap.more s' = kheap.more s \<Longrightarrow> kdrv.more s' = kdrv.more s"
  by (cases s; cases s'; simp)

lemma create_no_frames:
  fixes s :: "'a kvfs_scheme"
  assumes ok: "heap_ok s" and fr: "frame_bitmap s = (\<lambda>_. 0xFF)" and np: "1 \<le> next_pid s" "next_pid s \<le> 256"
  obtains s' where "process_create name entry priority s = Some (0, s')" "heap_ok s'" "blocks_of s' = blocks_of s"
    "heap_live s' = heap_live s" "heap_start s' = heap_start s" "\<And>k. k \<in> kept s \<Longrightarrow> mem s' (of_nat k) = mem s (of_nat k)"
    "1 \<le> next_pid s'" "next_pid s' \<le> 256" "core (s'\<lparr>next_pid := n\<rparr>) = core (s\<lparr>next_pid := n\<rparr>)" "kdrv.more s' = kdrv.more s"
proof -
  obtain pid s1 where g: "process_get_next_pid s = (pid, s1)" by (rule prod.exhaust)
  have A: "pid = - 1 \<and> s1 = s \<or> 0 \<le> pid \<and> (\<exists>i. 1 \<le> i \<and> i < 256 \<and> s1 = s\<lparr>next_pid := i + 1\<rparr>)"
    using np g by (cases rule: next_pid_cases) auto
  show thesis
  proof (cases "0 \<le> pid")
    case False
    then have "process_create name entry priority s = Some (0, s)" using A g by (simp add: process_create_def)
    then show thesis by (rule that) (use ok np in simp_all)
  next
    case True
    then obtain i where i: "1 \<le> i" "i < 256" "s1 = s\<lparr>next_pid := i + 1\<rparr>" using A by auto
    have h1: "heap_ok s1" "blocks_of s1 = blocks_of s" "heap_live s1 = heap_live s" "heap_start s1 = heap_start s" "kept s1 = kept s"
      "mem s1 = mem s" using ok by (simp_all add: i(3) kept_def heap_end_def)
    obtain p s2 where km: "kmalloc sizeof_process s1 = Some (p, s2)" using kmalloc_total [OF h1(1)] by blast
    note c2 = kmalloc_core [OF km]
    have m2: "kdrv.more s2 = kdrv.more s" using more_drv [OF kmalloc_more(1) [OF km]] by (simp add: i(3))
    show thesis
      using h1(1) km
    proof (cases rule: kmalloc_cases)
      case fail
      then have "process_create name entry priority s = Some (0, s2)" using True g km by (simp add: process_create_def)
      then show thesis
        by (rule that) (use fail h1 kmalloc_more [OF km] i c2 m2 in \<open>simp_all add: core_def\<close>)
    next
      case (block sz)
      let ?b = "upd_proc p (\<lambda>_. blank_process pid name priority s2) s2"
      have "frame_bitmap ?b = (\<lambda>_. 0xFF)" using c2 fr by (simp add: core_def i(3))
      note al = alloc_no_frame [OF this]
      let ?t = "kprintf (litln ''[PMM] ERROR: Out of physical memory!'') [] ?b"
      have "vmm_create_address_space ?b = (0, ?t)" by (simp add: vmm_create_address_space_def al)
      note st = process_create_stages(1) [OF g True km block(1) this refl]
      let ?u = "upd_proc p (\<lambda>q. q\<lparr>p_page_directory := 0\<rparr>) ?t"
      have hu: "heap_ok ?u" "heap_live ?u = heap_live s2" "blocks_of ?u = blocks_of s2" "heap_start ?u = heap_start s" "mem ?u = mem s2"
        using block(3) kmalloc_more(5) [OF km] h1(4) by simp_all
      have lv: "(unat p, sz) \<in> heap_live ?u" using block(6) unfolding hu(2) by simp
      have "kfree p ?u = kfree (of_nat (unat p)) ?u" by simp
      note k = kfree_live [OF hu(1) lv this]
      have cu: "core (kfree p ?u) = core s1" using c2 by simp
      show thesis
      proof (rule that [OF st])
        show "heap_ok (kfree p ?u)" by (rule k(1))
        show "blocks_of (kfree p ?u) = blocks_of s" unfolding k(2) hu(3,4) using block(13) h1(2,4) by simp
        show "heap_live (kfree p ?u) = heap_live s" using k(3) block(5,6) h1(3) by simp
        show "heap_start (kfree p ?u) = heap_start s" using hu(4) by simp
        show "mem (kfree p ?u) (of_nat k) = mem s (of_nat k)" if "k \<in> kept s" for k
        proof -
          have "k \<in> kept ?u" using that block(6) h1(3) hu(4) unfolding kept_def hu(2) by (auto simp: payload_def heap_end_def)
          then show ?thesis using k(5) [of k] block(12) h1(5,6) that by simp
        qed
        show "kdrv.more (kfree p ?u) = kdrv.more s" using m2 by (simp add: more_drv [OF kfree_more(1)] upd_proc_def)
        show "core (kfree p ?u\<lparr>next_pid := n\<rparr>) = core (s\<lparr>next_pid := n\<rparr>)" using core_next_pid(2) [OF cu, of n] by (simp add: i(3))
        show "1 \<le> next_pid (kfree p ?u)" "next_pid (kfree p ?u) \<le> 256" unfolding core_next_pid(1) [OF cu] using i by simp_all
      qed
    qed
  qed
qed

text \<open>What the steps before the file system leave alone.\<close>

definition low :: "'a kproc_scheme \<Rightarrow> _" where
  "low s = (mem s, heap_start s, heap_initialized s, frame_bitmap s, next_pid s, kernel_directory s, cr0 s, isr_handlers s)"

lemma low_simps [simp]:
  "low (kprintf f a s) = low s" "low (s'\<lparr>driver_list := l, driver_count := c\<rparr>) = low s'" "low (upd_drv d g s') = low s'"
  by (simp_all add: low_def upd_drv_def)

lemma call_init_id [simp]: "call_init f p s = (0, s)"
  by (cases f) (simp_all add: timer_driver_init_def keyboard_driver_init_def)

lemma register_low: "driver_register drv s = Some (r, s') \<Longrightarrow> low s' = low s"
  by (auto simp: driver_register_def Let_def split: if_splits Option.bind_splits)

lemma driver_comes_up:
  assumes r: "registry s xs" "may_register drv s xs"
  obtains s1 s2 where "driver_register drv s = Some (0, s1)" "driver_load call_init (drv_name s drv) s1 = Some (0, s2)"
    "registry s2 (drv # xs)" "low s2 = low s"
    "drivers s2 = (drivers s)(drv := (drivers s drv)\<lparr>d_next := driver_list s, d_state := DRIVER_STATE_ACTIVE\<rparr>)"
proof -
  obtain s1 where 1: "driver_register drv s = Some (0, s1)" "registry s1 (drv # xs)"
    "drivers s1 = (drivers s)(drv := (drivers s drv)\<lparr>d_state := DRIVER_STATE_LOADED, d_next := driver_list s\<rparr>)"
    using register_succeeds [OF r] by blast
  have n: "drv_name s1 drv = drv_name s drv" "drv \<noteq> 0" using r(2) by (simp_all add: 1(3) may_register_def)
  have f: "driver_find (drv_name s drv) s1 = Some drv" by (rule find_name [OF 1(2)]) (simp_all add: n)
  let ?s2 = "kprintf (litln ''[DRV] Driver '%s' loaded and active'') [VStr (drv_name s drv)]
     (upd_drv drv (\<lambda>d. d\<lparr>d_state := DRIVER_STATE_ACTIVE\<rparr>) s1)"
  have "driver_load call_init (drv_name s drv) s1 = Some (0, ?s2)"
    using n(2) by (simp add: driver_load_def f 1(3) split: option.splits)
  moreover have "registry ?s2 (drv # xs)"
  proof -
    have "(\<lambda>p. d_next (drivers ?s2 p)) = (\<lambda>p. d_next (drivers s1 p))" "drv_name ?s2 = drv_name s1" by (rule ext, simp)+
    then show ?thesis using 1(2) unfolding registry_def by simp
  qed
  moreover have "low ?s2 = low s" using register_low [OF 1(1)] by simp
  moreover have "drivers ?s2 = (drivers s)(drv := (drivers s drv)\<lparr>d_next := driver_list s, d_state := DRIVER_STATE_ACTIVE\<rparr>)"
    by (simp add: 1(3))
  ultimately show thesis by (rule that [OF 1(1)])
qed

definition handlers :: "(u8 \<times> isr_handler_t) list \<Rightarrow> u32 \<Rightarrow> isr_handler_t option" where
  "handlers hs = fold (\<lambda>(n, h) f. f(ucast n \<mapsto> h)) hs (\<lambda>_. None)"

lemma timer_comes_up:
  assumes "drivers s drv = timer_driver" "drv \<noteq> 0" "registry s []" "f \<noteq> 0"
  obtains s' where "timer_init drv f s = Some s'" "low s' = low (isr_register_handler 32 Timer_callback s)" "registry s' [drv]"
    "drivers s' = (drivers s)(drv := timer_driver\<lparr>d_state := DRIVER_STATE_ACTIVE\<rparr>)"
proof -
  let ?d = "PIT_FREQ div f"
  define u where "u = isr_register_handler 32 Timer_callback (outb 0x40 (ucast (drop_bit 8 ?d AND 0xFF)) (outb 0x40 (ucast (?d AND 0xFF))
    (outb 0x43 0x36 (s\<lparr>timer_frequency := f, timer_ticks := 0\<rparr>))))"
  have u: "drivers u = drivers s" "driver_list u = driver_list s" "registry u [] = registry s []"
    "low u = low (isr_register_handler 32 Timer_callback s)"
    by (simp_all add: u_def isr_register_handler_def outb_def registry_def low_def)
  have m: "may_register drv u []" using assms(1,2) by (simp add: may_register_def u(1) timer_driver_def lit_def)
  have n: "drv_name u drv = lit ''pit_timer''" using assms(1) by (simp add: u(1) timer_driver_def)
  obtain s1 s2 where r: "driver_register drv u = Some (0, s1)" "driver_load call_init (drv_name u drv) s1 = Some (0, s2)"
    "registry s2 [drv]" "low s2 = low u"
    "drivers s2 = (drivers u)(drv := (drivers u drv)\<lparr>d_next := driver_list u, d_state := DRIVER_STATE_ACTIVE\<rparr>)"
    by (rule driver_comes_up [OF _ m]) (use assms(3) u(3) in simp)
  let ?s3 = "kprintf (litln ''[TIMER] PIT initialized at %u Hz'') [VInt f] s2"
  have "timer_init drv f s = Some ?s3"
    using assms(4) r(1,2) unfolding n by (simp add: timer_init_def Let_def u_def [symmetric])
  moreover have "driver_list s = 0" using assms(3) by (simp add: registry_def)
  ultimately show thesis
    using that [of ?s3] r(3,4,5) assms(1) u by (simp add: timer_driver_def)
qed

lemma keyboard_comes_up:
  assumes "drivers s drv = keyboard_driver" "drv \<noteq> 0" "registry s [p]" "drv_name s p = lit ''pit_timer''"
  obtains s' where "keyboard_init drv s = Some s'" "low s' = low (isr_register_handler 33 Keyboard_callback s)" "registry s' [drv, p]"
    "drivers s' = (drivers s)(drv := keyboard_driver\<lparr>d_next := p, d_state := DRIVER_STATE_ACTIVE\<rparr>)"
proof -
  define u where "u = isr_register_handler 33 Keyboard_callback (s\<lparr>kb_read_idx := 0, kb_write_idx := 0, kb_count := 0\<rparr>)"
  have u: "drivers u = drivers s" "driver_list u = driver_list s" "registry u [p] = registry s [p]"
    "low u = low (isr_register_handler 33 Keyboard_callback s)"
    by (simp_all add: u_def isr_register_handler_def registry_def low_def)
  have m: "may_register drv u [p]" using assms(1,2,4) by (simp add: may_register_def u(1) keyboard_driver_def lit_def)
  have n: "drv_name u drv = lit ''ps2_keyboard''" using assms(1) by (simp add: u(1) keyboard_driver_def)
  obtain s1 s2 where r: "driver_register drv u = Some (0, s1)" "driver_load call_init (drv_name u drv) s1 = Some (0, s2)"
    "registry s2 [drv, p]" "low s2 = low u"
    "drivers s2 = (drivers u)(drv := (drivers u drv)\<lparr>d_next := driver_list u, d_state := DRIVER_STATE_ACTIVE\<rparr>)"
    by (rule driver_comes_up [OF _ m]) (use assms(3) u(3) in simp)
  let ?s3 = "kprintf (litln ''[KB] PS/2 keyboard driver initialized'') [] s2"
  have "keyboard_init drv s = Some ?s3"
    using r(1,2) unfolding n by (simp add: keyboard_init_def Let_def u_def [symmetric])
  moreover have "driver_list s = p" using assms(3) by (simp add: registry_def)
  ultimately show thesis
    using that [of ?s3] r(3,4,5) assms(1) u by simp
qed

lemma low_upd:
  assumes "low s' = low s"
  shows "low (s'\<lparr>isr_handlers := h\<rparr>) = low (s\<lparr>isr_handlers := h\<rparr>)" "low (s'\<lparr>frame_bitmap := b\<rparr>) = low (s\<lparr>frame_bitmap := b\<rparr>)"
  using assms by (simp_all add: low_def)

lemma gdt_low [simp]: "low (gdt_init a b s) = low s" "drivers (gdt_init a b s') = drivers s'"
  by (simp_all add: low_def gdt_init_def tss_init_def gdt_set_gate_def gdt_flush_def tss_flush_def Let_def)

lemma idt_low: "low (idt_init a f g s) = low (s\<lparr>isr_handlers := (\<lambda>_. None)\<rparr>)" "drivers (idt_init a f g s') = drivers s'"
  by (simp_all add: low_def idt_init_def Let_def set_gates_eq pic_remap_def out_wait_eq idt_set_gate_def idt_flush_def
      del: upt_rec_numeral)

lemma pmm_low:
  assumes "mb_flags mbi AND 0x20 = 0"
  obtains s' where "pmm_init mbi s = Some s'" "low s' = low (s\<lparr>frame_bitmap := (\<lambda>_. 0xFF)\<rparr>)" "drivers s' = drivers s"
  using assms that by (simp add: pmm_init_def Let_def low_def)

lemma heap_init_outside:
  assumes "unat a + 4194304 < 2 ^ 32" "k < unat a \<or> unat a + 4194304 \<le> k" "k < 2 ^ 32"
  shows "mem (kheap_init a s) (of_nat k) = mem s (of_nat k)"
proof -
  have "(of_nat (unat a) :: u32) = a" by simp
  then have m: "mem (kheap_init a s) = wr32 (wr32 (wr32 (wr32 (mem s) (unat a) 4194288) (unat a + 4) 1) (unat a + 8) 0) (unat a + 12) 0"
    unfolding kheap_init_def Let_def by (simp add: set_hb_size_def set_hb_free_def set_hb_next_def set_hb_prev_def)
  have "wr32 (wr32 (wr32 (wr32 (mem s) n 4194288) (n + 4) 1) (n + 8) 0) (n + 12) 0 (of_nat k) = mem s (of_nat k)"
    if "n + 4194304 < 2 ^ 32" "k < n \<or> n + 4194304 \<le> k" for n
    using that assms(3) by (auto simp: wr32_byte_other simp del: of_nat_add)
  then show ?thesis unfolding m using assms(1,2) by blast
qed

text \<open>What the linker and the loader provide: the static records and the message, outside the area of the heap.\<close>

definition loaded :: "image \<Rightarrow> 'a kdrv_scheme \<Rightarrow> bool" where
  "loaded img s \<longleftrightarrow> at_heap img \<noteq> 0 \<and> 8 dvd unat (at_heap img) \<and> unat (at_heap img) + 4194304 < 2 ^ 32 \<and>
     at_timer_driver img \<noteq> 0 \<and> drivers s (at_timer_driver img) = timer_driver \<and>
     at_keyboard_driver img \<noteq> 0 \<and> drivers s (at_keyboard_driver img) = keyboard_driver \<and>
     msg_ready img (s\<lparr>heap_start := at_heap img\<rparr>)"

lemma boot_devices_works:
  assumes l: "loaded img s" and f: "mb_flags mbi AND 0x20 = 0"
  obtains s' where "boot_devices img mbi s = Some s'" "heap_ok s'" "blocks_of s' = [(4194288, True)]" "msg_ready img s'"
    "frame_bitmap s' = (\<lambda>_. 0xFF)" "next_pid s' = next_pid s" "kernel_directory s' = kernel_directory s" "cr0 s' = cr0 s"
    "isr_handlers s' = handlers [(32, Timer_callback), (33, Keyboard_callback)]"
    "registry s' [at_keyboard_driver img, at_timer_driver img]"
    "d_state (drivers s' (at_keyboard_driver img)) = DRIVER_STATE_ACTIVE" "d_state (drivers s' (at_timer_driver img)) = DRIVER_STATE_ACTIVE"
proof -
  note L = l [unfolded loaded_def]
  let ?a = "at_heap img" and ?t = "at_timer_driver img" and ?k = "at_keyboard_driver img"
  define s1 where "s1 = say ''[BOOT] Initializing physical memory manager...'' (idt_init (at_idt img) (at_isr img) (at_irq img)
    (say ''[BOOT] Initializing IDT...'' (gdt_init (at_gdt img) (at_tss img) (say ''[BOOT] Initializing GDT...'' s))))"
  have s1: "drivers s1 = drivers s" "low s1 = low (s\<lparr>isr_handlers := (\<lambda>_. None)\<rparr>)"
    unfolding s1_def by (simp_all add: idt_low) (rule low_upd, simp)
  obtain s2 where s2: "pmm_init mbi s1 = Some s2" "low s2 = low (s1\<lparr>frame_bitmap := (\<lambda>_. 0xFF)\<rparr>)" "drivers s2 = drivers s1"
    by (rule pmm_low [OF f])
  define s3 where "s3 = kheap_init ?a (say ''[BOOT] Initializing kernel heap...'' s2)"
  define s4 where "s4 = say ''[BOOT] Initializing timer...'' (driver_manager_init (say ''[BOOT] Initializing driver manager...'' s3))"
  have h3: "heap_ok s3" "blocks_of s3 = [(4194288, True)]" "heap_start s3 = ?a"
    unfolding s3_def using kheap_init_blocks [of ?a] L by (simp_all add: init_fields unat_gt_0)
  have "low s4 = low s3" "registry s4 []" "drivers s4 = drivers s"
    by (simp_all add: s4_def driver_manager_init_def registry_def s3_def kheap_init_def Let_def s2(3) s1(1))
  note s4 = this
  obtain s5 where s5: "timer_init ?t TIMER_HZ s4 = Some s5" "low s5 = low (isr_register_handler 32 Timer_callback s4)" "registry s5 [?t]"
    "drivers s5 = (drivers s4)(?t := timer_driver\<lparr>d_state := DRIVER_STATE_ACTIVE\<rparr>)"
    by (rule timer_comes_up [of s4 ?t TIMER_HZ]) (use L s4(2,3) in simp_all)
  define s6 where "s6 = say ''[BOOT] Initializing keyboard...'' s5"
  have tk: "?t \<noteq> ?k" using L by (auto simp: timer_driver_def keyboard_driver_def)
  obtain s7 where s7: "keyboard_init ?k s6 = Some s7" "low s7 = low (isr_register_handler 33 Keyboard_callback s6)" "registry s7 [?k, ?t]"
    "drivers s7 = (drivers s6)(?k := keyboard_driver\<lparr>d_next := ?t, d_state := DRIVER_STATE_ACTIVE\<rparr>)"
    by (rule keyboard_comes_up [of s6 ?k ?t]) (use L s4(3) s5(3,4) tk in \<open>simp_all add: s6_def timer_driver_def\<close>)
  have e: "boot_devices img mbi s = Some s7"
    unfolding boot_devices_def Let_def using s2(1) s5(1) s7(1) by (simp add: s1_def s3_def s4_def s6_def)
  have low: "mem s7 = mem s3" "heap_start s7 = ?a" "heap_initialized s7 = heap_initialized s3" "frame_bitmap s7 = (\<lambda>_. 0xFF)"
    "next_pid s7 = next_pid s" "kernel_directory s7 = kernel_directory s" "cr0 s7 = cr0 s"
    "isr_handlers s7 = handlers [(32, Timer_callback), (33, Keyboard_callback)]"
    using s7(2) s5(2) s4(1) s2(2) s1(2) h3(3)
    by (simp_all add: low_def s6_def isr_register_handler_def s3_def kheap_init_def Let_def handlers_def)
  have m2: "mem s2 = mem s" using s2(2) s1(2) by (simp add: low_def)
  have h7: "heap_ok s7" "blocks_of s7 = blocks_of s3"
    by (rule heap_ok_agree(1,2) [OF h3(1)]; simp add: low h3(3))+
  have "msg_ready img s7"
  proof (rule msg_ready_outside)
    show "msg_ready img (s\<lparr>heap_start := ?a\<rparr>)" using L by blast
    show "mem s7 (of_nat k) = mem (s\<lparr>heap_start := ?a\<rparr>) (of_nat k)"
      if "k < 2 ^ 32" "k < unat (heap_start (s\<lparr>heap_start := ?a\<rparr>)) \<or> heap_end (s\<lparr>heap_start := ?a\<rparr>) \<le> k" for k
      using heap_init_outside [of ?a k "say ''[BOOT] Initializing kernel heap...'' s2"] that L m2 low(1) by (simp add: heap_end_def s3_def)
  qed (simp add: low)
  then show thesis
    using that [OF e h7(1) _ _ low(4-8) s7(3)] h7(2) h3(2) s7(4) s5(4) tk by (simp add: s6_def)
qed

lemma ramfs_init_core: "ramfs_init s = Some (x, s') \<Longrightarrow> core s' = core s"
  by (auto simp: ramfs_init_def split: Option.bind_splits if_splits dest!: create_node_core)

lemma ramfs_init_kept:
  "heap_ok s \<Longrightarrow> ramfs_init s = Some (x, s') \<Longrightarrow> k \<in> kept s \<Longrightarrow> mem s' (of_nat k) = mem s (of_nat k)"
  by (auto simp: ramfs_init_def upd_node_def split: Option.bind_splits if_splits dest!: create_node_kept)

lemma vfs_mount_kept:
  assumes ok: "heap_ok s" and m: "vfs_mount p t root s = Some (r, s')"
  shows "core s' = core s" "k \<in> kept s \<Longrightarrow> mem s' (of_nat k) = mem s (of_nat k)"
proof -
  obtain a s1 where km: "kmalloc sizeof_vfs_mount s = Some (a, s1)" using kmalloc_total [OF ok] by blast
  note c1 = kmalloc_core [OF km]
  have k1: "mem s1 (of_nat k) = mem s (of_nat k)" if "k \<in> kept s" using ok km that by (cases rule: kmalloc_cases) auto
  have "core s' = core s \<and> (k \<in> kept s \<longrightarrow> mem s' (of_nat k) = mem s (of_nat k))"
    using m c1 k1 unfolding vfs_mount_def by (auto simp: km Let_def core_def split: option.splits if_splits)
  then show "core s' = core s" "k \<in> kept s \<Longrightarrow> mem s' (of_nat k) = mem s (of_nat k)" by blast+
qed

lemma boot_files_works:
  assumes ok: "heap_ok s" "blocks_of s = [(4194288, True)]" and msg: "msg_ready img s"
  obtains r s' where "boot_files s = Some s'" "fs_state img r [] 1100 s'" "core s' = core s"
proof -
  define t where "t = vfs_init (say ''[BOOT] Initializing VFS...'' s)"
  have t: "heap_ok t" "blocks_of t = [(4194288, True)]" "heap_start t = heap_start s" "mem t = mem s" "mount_list t = 0" "mount_count t = 0"
    "core t = core s"
    using ok by (simp_all add: t_def vfs_init_def heap_ok_def blocks_of_def heap_end_def core_def)
  obtain r s1 where 1: "ramfs_init t = Some (r, s1)" "r \<noteq> 0" "dir_entries s1 r []" "blocks_of s1 = [(184, False), (4194088, True)]"
      "n_ops (nodes s1 r) = Some ramfs_root_ops"
    by (rule ramfs_init_root [OF t(1), of 16 "[(184, False), (4194088, True)]"]) (simp_all add: t(2) carve_def)
  note m1 = ramfs_init_more [OF 1(1)]
  have ok1: "heap_ok s1" by (rule dir_live(1) [OF 1(3)])
  have "mounted s1 []" using ok1 more_vfs(2,3) [of s1 t] m1 t(5,6) by (simp add: mounted_def)
  moreover have "can_mount (Some (lit ''/'')) (Some (lit ''ramfs'')) r [] s1" using 1(2,4) by (simp add: can_mount_def carve_def)
  ultimately obtain a s2 where 2: "vfs_mount (Some (lit ''/'')) (Some (lit ''ramfs'')) r s1 = Some (0, s2)" "mounted s2 [a]" "\<not> live_at s1 a"
    "mounts s2 = (mounts s1)(a := \<lparr>m_path = take 1023 (lit ''/''), m_fs_type = take 31 (lit ''ramfs''), m_root = r, m_next = mount_list s1\<rparr>)"
    "vfs_root s2 = (if lit ''/'' = lit ''/'' then r else vfs_root s1)" "nodes s2 = nodes s1" "files s2 = files s1" "heap_live s1 \<subseteq> heap_live s2"
    "heap_start s2 = heap_start s1" "\<And>N. 16 \<le> N \<Longrightarrow> has_room (N + 1080) s1 \<Longrightarrow> has_room N s2"
    by (rule vfs_mount_works) (rule that)
  note k2 = vfs_mount_kept [OF ok1 2(1)]
  have "fs_state img r [] 1100 s2"
    unfolding fs_state_def
  proof (intro conjI)
    show "dir_entries s2 r []"
      by (rule dir_frame [OF 1(3) _ 2(8)]) (use 2(2) in \<open>simp_all add: 2(6,7) mounted_def\<close>)
    show "dir_node s2 r" using 1(2,5) by (simp add: dir_node_def 2(6))
    have "has_room 2180 s1" by (simp add: has_room_def 1(4))
    then show "has_room 1100 s2" using 2(10) [of 1100] by simp
    have "msg_ready img t" by (rule msg_ready_outside [OF msg]) (simp_all add: t)
    then have "msg_ready img s1" by (rule msg_ready_keep [OF _ _ ramfs_init_kept [OF t(1) 1(1)]]) (simp_all add: m1)
    then show "msg_ready img s2" by (rule msg_ready_keep [OF _ 2(9) k2(2)])
    show "vfs_root s2 = r" using 2(5) by simp
  qed
  moreover have "boot_files s = Some s2" using 1(1,2) 2(1) by (simp add: boot_files_def t_def)
  moreover have "core s2 = core s" using k2(1) ramfs_init_core [OF 1(1)] t(7) by simp
  ultimately show thesis using that by blast
qed

definition no_frames_left :: "'a kproc_scheme \<Rightarrow> bool" where
  "no_frames_left s \<longleftrightarrow> heap_ok s \<and> frame_bitmap s = (\<lambda>_. 0xFF) \<and> 1 \<le> next_pid s \<and> next_pid s \<le> 256"

lemma create_fails_quietly:
  assumes "no_frames_left s"
  obtains s' where "process_create name entry priority s = Some (0, s')" "same_fs s s'" "no_frames_left s'"
    "core (s'\<lparr>next_pid := 1\<rparr>) = core (s\<lparr>next_pid := 1\<rparr>)"
proof -
  note N = assms [unfolded no_frames_left_def]
  obtain s' where s': "process_create name entry priority s = Some (0, s')" "heap_ok s'" "blocks_of s' = blocks_of s"
    "heap_live s' = heap_live s" "heap_start s' = heap_start s" "\<And>k. k \<in> kept s \<Longrightarrow> mem s' (of_nat k) = mem s (of_nat k)"
    "1 \<le> next_pid s'" "next_pid s' \<le> 256" "core (s'\<lparr>next_pid := 1\<rparr>) = core (s\<lparr>next_pid := 1\<rparr>)" "kdrv.more s' = kdrv.more s"
    by (rule create_no_frames [of s name entry priority 1]) (use N in simp_all)
  have "frame_bitmap s' = frame_bitmap s" using s'(9) by (simp add: core_def)
  then have "no_frames_left s'" using N s'(2,7,8) by (simp add: no_frames_left_def)
  moreover have "nodes s' = nodes s" "files s' = files s" "vfs_root s' = vfs_root s" using s'(10) by (cases s; cases s'; simp)+
  then have "same_fs s s'" using s'(2-6) by (simp add: same_fs_def)
  ultimately show thesis using that [OF s'(1)] s'(9) by blast
qed

lemma process_init_quietly:
  assumes n: "no_frames_left s"
  obtains s' where "process_init s = Some s'" "same_fs s s'" "no_frames_left s'"
    "core (s'\<lparr>next_pid := 1\<rparr>) = core (s\<lparr>process_table := (\<lambda>_. 0), current_process := 0, next_pid := 1\<rparr>)"
proof -
  let ?s1 = "s\<lparr>process_table := (\<lambda>_. 0), current_process := 0\<rparr>"
  have n1: "no_frames_left ?s1" using n by (simp add: no_frames_left_def heap_ok_def blocks_of_def heap_end_def)
  have q: "same_fs s ?s1" using n by (intro same_fs_fields) (simp_all add: no_frames_left_def)
  obtain s2 where 2: "process_create (lit ''idle'') 0 0 ?s1 = Some (0, s2)" "same_fs ?s1 s2" "no_frames_left s2"
    "core (s2\<lparr>next_pid := 1\<rparr>) = core (?s1\<lparr>next_pid := 1\<rparr>)" by (rule create_fails_quietly [OF n1])
  let ?s3 = "kprintf (litln ''[PROC] Process manager initialized'') [] s2"
  have "same_fs s2 ?s3" using 2(3) by (intro same_fs_fields) (simp_all add: no_frames_left_def)
  then have "same_fs s ?s3" using same_fs_trans q 2(2) by blast
  moreover have "process_init s = Some ?s3" using 2(1) by (simp add: process_init_def)
  moreover have "no_frames_left ?s3" using 2(3) by (simp add: no_frames_left_def)
  moreover have "core (?s3\<lparr>next_pid := 1\<rparr>) = core (?s1\<lparr>next_pid := 1\<rparr>)" using 2(4) by (simp add: core_def)
  ultimately show thesis using that by simp
qed

lemma boot_processes_quietly:
  assumes n: "no_frames_left s"
  obtains s' where "boot_processes img s = Some s'" "same_fs s s'" "no_frames_left s'"
    "core (s'\<lparr>next_pid := 1\<rparr>) = core (s\<lparr>next_pid := 1\<rparr>)"
proof -
  obtain s1 where 1: "process_create (lit ''worker_a'') (at_process_a img) 1 s = Some (0, s1)" "same_fs s s1" "no_frames_left s1"
    "core (s1\<lparr>next_pid := 1\<rparr>) = core (s\<lparr>next_pid := 1\<rparr>)" by (rule create_fails_quietly [OF n])
  obtain s2 where 2: "process_create (lit ''worker_b'') (at_process_b img) 1 s1 = Some (0, s2)" "same_fs s1 s2" "no_frames_left s2"
    "core (s2\<lparr>next_pid := 1\<rparr>) = core (s1\<lparr>next_pid := 1\<rparr>)" by (rule create_fails_quietly [OF 1(3)])
  show thesis
    by (rule that [OF _ same_fs_trans [OF 1(2) 2(2)] 2(3)]) (use 1 2 in \<open>simp_all add: boot_processes_def\<close>)
qed

lemma list_walk_ends:
  assumes "lpath (\<lambda>p. d_next (drivers s p)) h xs"
  shows "list_walk h s = Some (fold (\<lambda>p t. kprintf driver_line (driver_args (drivers t p)) t) xs s)"
  using assms
proof (induction xs arbitrary: h s)
  case (Cons x xs)
  let ?t = "kprintf driver_line (driver_args (drivers s x)) s"
  have "list_walk (d_next (drivers s x)) ?t = Some (fold (\<lambda>p t. kprintf driver_line (driver_args (drivers t p)) t) xs ?t)"
    by (rule Cons.IH) (use Cons.prems in simp)
  then show ?case using Cons.prems by (subst list_walk.simps) simp
qed (simp add: list_walk.simps)

lemma driver_list_quietly:
  assumes "registry s xs" "heap_ok s"
  obtains s' where "driver_list_all s = Some s'" "same_fs s s'" "core s' = core s"
proof -
  let ?g = "\<lambda>p t. kprintf driver_line (driver_args (drivers t p)) t" and ?s1 = "kprintf (litln ''Registered drivers:'') [] s"
  have e: "driver_list_all s = Some (fold ?g xs ?s1)"
    using list_walk_ends [of ?s1 "driver_list s" xs] assms(1) by (simp add: driver_list_all_def registry_def)
  have F: "mem (fold ?g xs t) = mem t \<and> heap_start (fold ?g xs t) = heap_start t \<and> heap_initialized (fold ?g xs t) = heap_initialized t \<and>
     nodes (fold ?g xs t) = nodes t \<and> files (fold ?g xs t) = files t \<and> vfs_root (fold ?g xs t) = vfs_root t \<and> core (fold ?g xs t) = core t" for t
    by (induction xs arbitrary: t) simp_all
  have "same_fs s (fold ?g xs ?s1)" by (rule same_fs_fields [OF assms(2)]) (use F [of ?s1] in simp_all)
  then show thesis by (rule that [OF e]) (use F [of ?s1] in simp)
qed

lemma loaded_kprintf: "loaded img s \<Longrightarrow> loaded img (kprintf f a s)"
proof -
  assume l: "loaded img s"
  have "msg_ready img (kprintf f a s\<lparr>heap_start := at_heap img\<rparr>)"
    by (rule msg_ready_outside [of img "s\<lparr>heap_start := at_heap img\<rparr>"]) (use l in \<open>simp_all add: loaded_def\<close>)
  then show ?thesis using l by (simp add: loaded_def)
qed

lemma same_fs_kprintf [simp]: "heap_ok s \<Longrightarrow> same_fs s (kprintf f a s)"
  by (rule same_fs_fields) simp_all

lemma boot_to_self_test:
  assumes l: "loaded img s" and f: "mb_flags mbi AND 0x20 = 0" and n: "1 \<le> next_pid s" "next_pid s \<le> 256"
  obtains s2 s3 s4 s6 r where "boot_devices img mbi s = Some s2" "boot_files s2 = Some s3"
    "process_init (say ''[BOOT] Initializing process manager...'' s3) = Some s4"
    "s6 = syscall_init (say ''[BOOT] Initializing system calls...'' (scheduler_init (say ''[BOOT] Initializing scheduler...'' s4)))"
    "fs_state img r [] 1100 s6" "no_frames_left s6" "kernel_directory s6 = kernel_directory s" "cr0 s6 = cr0 s"
    "isr_handlers s6 = handlers [(32, Timer_callback), (33, Keyboard_callback), (128, Syscall_handler)]"
    "current_process s6 = 0" "process_table s6 = (\<lambda>_. 0)" "ready_queue_head s6 = 0"
    "registry s6 [at_keyboard_driver img, at_timer_driver img]"
    "d_state (drivers s6 (at_keyboard_driver img)) = DRIVER_STATE_ACTIVE" "d_state (drivers s6 (at_timer_driver img)) = DRIVER_STATE_ACTIVE"
proof -
  obtain s2 where 2: "boot_devices img mbi s = Some s2" "heap_ok s2" "blocks_of s2 = [(4194288, True)]" "msg_ready img s2"
    "frame_bitmap s2 = (\<lambda>_. 0xFF)" "next_pid s2 = next_pid s" "kernel_directory s2 = kernel_directory s" "cr0 s2 = cr0 s"
    "isr_handlers s2 = handlers [(32, Timer_callback), (33, Keyboard_callback)]"
    "registry s2 [at_keyboard_driver img, at_timer_driver img]"
    "d_state (drivers s2 (at_keyboard_driver img)) = DRIVER_STATE_ACTIVE" "d_state (drivers s2 (at_timer_driver img)) = DRIVER_STATE_ACTIVE"
    by (rule boot_devices_works [OF l f])
  obtain r s3 where 3: "boot_files s2 = Some s3" "fs_state img r [] 1100 s3" "core s3 = core s2" by (rule boot_files_works [OF 2(2-4)])
  let ?s3 = "say ''[BOOT] Initializing process manager...'' s3"
  have ok3: "heap_ok s3" using 3(2) dir_live(1) by (auto simp: fs_state_def)
  have "no_frames_left ?s3" using ok3 3(3) 2(5,6) n by (simp add: no_frames_left_def core_def)
  then obtain s4 where 4: "process_init ?s3 = Some s4" "same_fs ?s3 s4" "no_frames_left s4"
    "core (s4\<lparr>next_pid := 1\<rparr>) = core (?s3\<lparr>process_table := (\<lambda>_. 0), current_process := 0, next_pid := 1\<rparr>)"
    by (rule process_init_quietly)
  have ok4: "heap_ok s4" using 4(3) by (simp add: no_frames_left_def)
  define s6 where "s6 = syscall_init (say ''[BOOT] Initializing system calls...'' (scheduler_init (say ''[BOOT] Initializing scheduler...'' s4)))"
  note S = s6_def syscall_init_def scheduler_init_def isr_register_handler_def
  have q6: "same_fs s4 s6" by (rule same_fs_fields [OF ok4]) (simp_all add: S)
  have "same_fs s3 s6" using same_fs_trans same_fs_kprintf [OF ok3] 4(2) q6 by blast
  then have f6: "fs_state img r [] 1100 s6" using same_fs_keeps(1) 3(2) by blast
  have n6: "no_frames_left s6" using 4(3) q6 by (simp add: no_frames_left_def same_fs_def S)
  have d6: "drivers s6 = drivers s2" "driver_list s6 = driver_list s2" "driver_count s6 = driver_count s2"
    using 4(4) 3(3) by (simp_all add: core_def S)
  show thesis
    using f6 n6
  proof (rule that [OF 2(1) 3(1) 4(1) s6_def])
    show "registry s6 [at_keyboard_driver img, at_timer_driver img]" using 2(10) d6 by (simp add: registry_def)
  qed (use 2 3(3) 4(4) d6 in \<open>simp_all add: core_def S handlers_def\<close>)
qed

text \<open>The boot image of the witnesses: the heap at 2 MiB and the message and the buffer below it.\<close>

definition test_image :: image where
  "test_image = \<lparr>at_gdt = 0x8000, at_tss = 0x8100, at_idt = 0x8200, at_isr = (\<lambda>i. 0x100000 + of_nat i), at_irq = (\<lambda>i. 0x100100 + of_nat i),
     at_heap = 0x200000, at_timer_driver = 0x8A00, at_keyboard_driver = 0x8B00, at_msg = 0x9000, at_buf = 0x9100,
     at_process_a = 0x101000, at_process_b = 0x102000\<rparr>"

definition msg_mem :: "mem \<Rightarrow> mem" where
  "msg_mem m = (\<lambda>a. if a - 0x9000 < 24 then hello_msg ! unat (a - 0x9000) else if a = 0x9018 then 0 else m a)"

lemma msg_mem_string: "cstr_at (msg_mem m) 0x9000 hello_msg"
proof (rule cstr_atI [OF hello_msg(2)])
  fix i assume i: "i < length hello_msg"
  then have "unat (of_nat i :: u32) = i" "(of_nat i :: u32) < 24" using hello_msg(1) by (simp_all add: unat_of_nat32 word_less_nat_alt)
  then show "msg_mem m (0x9000 + of_nat i) = hello_msg ! i" by (simp add: msg_mem_def)
qed (simp add: msg_mem_def hello_msg(1))

definition loaded_vfs :: kvfs where
  "loaded_vfs = boot_vfs\<lparr>mem := msg_mem (\<lambda>_. 0), drivers := (\<lambda>_. zero_driver)(0x8A00 := timer_driver, 0x8B00 := keyboard_driver)\<rparr>"

lemma loaded_vfs_ok: "loaded test_image loaded_vfs" "next_pid loaded_vfs = 1"
  using msg_mem_string
  by (simp_all add: loaded_def test_image_def loaded_vfs_def msg_ready_def outside_heap_def heap_end_def boot_vfs_def boot_fs_def
      boot_dev_def boot_drv_def boot_sched_def boot_proc_def boot_heap_def kvfs.defs kfs.defs kdev.defs kdrv.defs ksched.defs kproc.defs kheap.defs)

definition msg_vfs :: kvfs where
  "msg_vfs = root_vfs\<lparr>mem := msg_mem (mem root_vfs)\<rparr>"

lemma msg_vfs_ok: "fs_state test_image (vfs_root root_vfs) [] 1100 msg_vfs"
  unfolding fs_state_def
proof (intro conjI)
  have far: "mem msg_vfs (of_nat k) = mem root_vfs (of_nat k)" if "unat (heap_start root_vfs) \<le> k" "k < heap_end root_vfs" for k
  proof -
    have k: "k < 2 ^ 32" "2097152 \<le> k" using that by (simp_all add: root_vfs_start heap_end_def)
    then have "unat (of_nat k :: u32) = k" by (intro unat_of_nat32)
    moreover from this have "unat (of_nat k - 0x9000 :: u32) = k - 0x9000" using k by (simp add: unat_sub word_le_nat_alt)
    ultimately have "\<not> (of_nat k :: u32) - 0x9000 < 24" "(of_nat k :: u32) \<noteq> 0x9018" using k by (auto simp: word_less_nat_alt)
    then show ?thesis by (simp add: msg_vfs_def msg_mem_def)
  qed
  note ok = dir_live(1) [OF root_vfs_ok(1)]
  have e: "heap_start msg_vfs = heap_start root_vfs" "heap_initialized msg_vfs = heap_initialized root_vfs" "nodes msg_vfs = nodes root_vfs"
    "files msg_vfs = files root_vfs" "vfs_root msg_vfs = vfs_root root_vfs" by (simp_all add: msg_vfs_def)
  note H = heap_ok_agree [OF ok e(1,2) far]
  show "dir_entries msg_vfs (vfs_root root_vfs) []" by (rule dir_entries_same [OF root_vfs_ok(1) e(3,4) H(1,3)])
  show "dir_node msg_vfs (vfs_root root_vfs)" using root_vfs_ok(2) by (simp add: dir_node_def e)
  show "has_room 1100 msg_vfs" using room_mono [OF root_vfs_ok(3), of 1100] H(2) by (simp add: has_room_def)
  show "msg_ready test_image msg_vfs"
    using msg_mem_string by (simp add: msg_ready_def test_image_def outside_heap_def heap_end_def e root_vfs_start) (simp add: msg_vfs_def)
  show "vfs_root msg_vfs = vfs_root root_vfs" by (rule e)
qed

section \<open>Properties\<close>

text \<open>
  C29: The self-test of the file system does what it means to, on a mounted empty root and a heap with room for it: it returns, and then the
  root holds exactly \<^verbatim>\<open>hello.txt\<close>, \<^verbatim>\<open>etc\<close>, \<^verbatim>\<open>tmp\<close> and \<^verbatim>\<open>dev\<close>, the file consists of the message written to it, and
  the frames, the interrupts, the processes and the drivers are as before. In particular the loop that lists the
  directory ends.
\<close>

theorem test_filesystem_correct:
  assumes "fs_state img r [] 1100 s"
  shows "\<exists>s' x e m d. test_filesystem img s = Some s' \<and>
     dir_entries s' r [(lit ''hello.txt'', x), (lit ''etc'', e), (lit ''tmp'', m), (lit ''dev'', d)] \<and>
     contents s' (n_private_data (nodes s' x)) = hello_msg \<and> core s' = core s"
  by (rule test_filesystem_works [OF assms]) blast

theorem test_filesystem_correct_witness:
  "\<exists>s' x e m d. test_filesystem test_image msg_vfs = Some s' \<and>
     dir_entries s' (vfs_root root_vfs) [(lit ''hello.txt'', x), (lit ''etc'', e), (lit ''tmp'', m), (lit ''dev'', d)] \<and>
     contents s' (n_private_data (nodes s' x)) = hello_msg"
  using test_filesystem_correct [OF msg_vfs_ok] by blast

text \<open>
  With a wrong magic number \<^verbatim>\<open>kernel_main\<close> halts with interrupts off and has done nothing but print: memory and the state of every
  component are those the boot loader left.
\<close>

theorem kernel_main_refuses:
  assumes "magic \<noteq> MULTIBOOT_BOOTLOADER_MAGIC"
  shows "\<exists>s'. kernel_main img magic mbi s = Some (Stopped s') \<and> \<not> intr_enabled s' \<and> mem s' = mem s \<and> kmach.more s' = kmach.more s"
  using assms by (simp add: kernel_main_def Let_def boot_banner_def cli_def)

theorem kernel_main_refuses_witness: "\<exists>s'. kernel_main test_image 0 boot_mbi loaded_vfs = Some (Stopped s') \<and> \<not> intr_enabled s'"
  using kernel_main_refuses [of 0 test_image boot_mbi loaded_vfs] by auto



text \<open>
  The idle loop serves every interrupt: the tick counter advances by the number of timer interrupts, and the typed characters are in
  the keyboard buffer in order, up to its capacity of 256.
\<close>

theorem kernel_idle_serves:
  assumes "kb_queue s xs"
  shows "timer_ticks (kernel_idle irqs s) = timer_ticks s + of_nat (length (filter is_timer irqs)) \<and>
     kb_queue (kernel_idle irqs s) (take 256 (xs @ concat (map typed irqs)))"
proof
  show "timer_ticks (kernel_idle irqs s) = timer_ticks s + of_nat (length (filter is_timer irqs))"
    unfolding kernel_idle_def by (induction irqs arbitrary: s) (simp_all add: deliver_ticks)
  show "kb_queue (kernel_idle irqs s) (take 256 (xs @ concat (map typed irqs)))"
    unfolding kernel_idle_def by (rule delivers_queue [OF assms])
qed

end
