(* ===== verification/Spec2Isabelle.thy ===== *)
theory Spec2Isabelle
  imports Kernel
begin

text \<open>
  A model of the Nexus kernel (\<^verbatim>\<open>src/kernel\<close>) and the theorems about it.
\<close>

end
